(* ===== verification/Prelude.thy ===== *)
theory Prelude
  imports Main "HOL-Library.Word"
begin

text \<open>
  What the components share: the machine types of the C++ sources, the outcome type that
  keeps undefined behaviour visible, checked element access, the byte/character
  conversions of \<^verbatim>\<open>static_cast\<close>, and generic list lemmas.

  \<^item> \<^verbatim>\<open>std::byte\<close> and \<^verbatim>\<open>std::uint8_t\<close> are 8-bit words, \<^verbatim>\<open>std::uint16_t\<close> and so on the
    words of their width; \<^verbatim>\<open>std::vector<std::byte>\<close> and \<^verbatim>\<open>std::span\<close> are byte lists.
  \<^item> \<^verbatim>\<open>std::size_t\<close> values are natural numbers. Sums of in-range offsets cannot wrap
    (no object is larger than \<^verbatim>\<open>PTRDIFF_MAX\<close>), so only the subtraction that the sources
    leave unguarded is written with its wrap-around: \<open>size_sub\<close>.
  \<^item> \<open>'a exec\<close> is the outcome of a piece of code: a value, or undefined behaviour
    (an out-of-range \<^verbatim>\<open>span::operator[]\<close>, erasing a dead list iterator). Every element access
    of the sources is a checked access here, so the absence of undefined behaviour is a
    theorem and never built into a definition.
\<close>

unbundle bit_operations_syntax

type_synonym byte = "8 word"
type_synonym u16 = "16 word"
type_synonym u32 = "32 word"
type_synonym u64 = "64 word"

named_theorems exec_simps \<open>unfolding rules of the outcome type\<close>
named_theorems wire_defs \<open>definitions of the wire-format operations\<close>
named_theorems loop_defs \<open>definitions of the event-loop operations\<close>

section \<open>Outcomes\<close>

datatype 'a exec = UB | Done 'a

fun bind_exec :: "'a exec \<Rightarrow> ('a \<Rightarrow> 'b exec) \<Rightarrow> 'b exec" where
  "bind_exec UB f = UB"
| "bind_exec (Done x) f = f x"

lemma bind_exec_Done_iff [exec_simps]:
  "bind_exec m f = Done y \<longleftrightarrow> (\<exists>x. m = Done x \<and> f x = Done y)"
  by (cases m) auto

lemma bind_exec_UB_iff [exec_simps]:
  "bind_exec m f = UB \<longleftrightarrow> m = UB \<or> (\<exists>x. m = Done x \<and> f x = UB)"
  by (cases m) auto

lemma bind_exec_cong [fundef_cong]:
  assumes "m = m'" and "\<And>x. m' = Done x \<Longrightarrow> f x = g x"
  shows "bind_exec m f = bind_exec m' g"
  using assms by (cases m') auto

lemma bind_exec_assoc: "bind_exec (bind_exec m f) g = bind_exec m (\<lambda>x. bind_exec (f x) g)"
  by (cases m) auto

lemma exec_not_UB_iff: "m \<noteq> UB \<longleftrightarrow> (\<exists>x. m = Done x)"
  by (cases m) auto

section \<open>Spans and sizes\<close>

definition at_span :: "'a list \<Rightarrow> nat \<Rightarrow> 'a exec" where
  "at_span xs i = (if i < length xs then Done (xs ! i) else UB)"

lemma at_span_in [simp]: "i < length xs \<Longrightarrow> at_span xs i = Done (xs ! i)"
  by (simp add: at_span_def)

lemma at_span_out [simp]: "length xs \<le> i \<Longrightarrow> at_span xs i = UB"
  by (simp add: at_span_def)

definition size_sub :: "nat \<Rightarrow> nat \<Rightarrow> nat" where
  "size_sub a b = (if b \<le> a then a - b else a + 2 ^ 64 - b)"

lemma size_sub_le [simp]: "b \<le> a \<Longrightarrow> size_sub a b = a - b"
  by (simp add: size_sub_def)

lemma size_sub_word:
  assumes "a < 2 ^ 64" and "b < 2 ^ 64"
  shows "size_sub a b = unat (of_nat a - of_nat b :: u64)"
proof (cases "b \<le> a")
  case True
  with assms show ?thesis by (simp add: unat_sub_if' unat_of_nat)
next
  case False
  with assms show ?thesis by (simp add: size_sub_def unat_sub_if' unat_of_nat)
qed

section \<open>Bytes and characters\<close>

definition char_of_byte :: "byte \<Rightarrow> char" where
  "char_of_byte b = char_of (unat b)"

definition byte_of_char :: "char \<Rightarrow> byte" where
  "byte_of_char c = of_nat (of_char c)"

lemma of_char_less_256: "(of_char c :: nat) < 256"
  using of_char_mod_256 [of c, where 'a = nat] by (metis mod_less_divisor zero_less_numeral)

lemma char_of_byte_of_char [simp]: "char_of_byte (byte_of_char c) = c"
  by (simp add: char_of_byte_def byte_of_char_def unat_of_nat take_bit_eq_mod)

lemma byte_of_char_of_byte [simp]: "byte_of_char (char_of_byte b) = b"
proof -
  have "unat b < 256" using unsigned_less [of b, where 'a = nat] by simp
  then show ?thesis
    by (simp add: char_of_byte_def byte_of_char_def)
qed

lemma map_byte_char [simp]: "map (char_of_byte \<circ> byte_of_char) s = s"
  by (induction s) auto

lemma map_char_byte [simp]: "map (byte_of_char \<circ> char_of_byte) bs = bs"
  by (induction bs) auto

section \<open>Lists\<close>

lemma nth_append_middle [simp]: "(pre @ x # post) ! length pre = x"
  by (simp add: nth_append)

lemma nth_append_middle2 [simp]: "(pre @ x # y # post) ! Suc (length pre) = y"
  by (simp add: nth_append)

lemma list_update_append_middle [simp]: "(pre @ x # post)[length pre := y] = pre @ y # post"
  by (simp add: list_update_append)

section \<open>Reachable states\<close>

text \<open>
  Concurrent components are step relations: a step is one atomic action of one thread (the code
  between two lock releases, or one system call). A property of every reachable state is an
  invariant that the initial states have and every step keeps.
\<close>

inductive reach :: "('s \<Rightarrow> bool) \<Rightarrow> ('s \<Rightarrow> 's \<Rightarrow> bool) \<Rightarrow> 's \<Rightarrow> bool" for init step where
  reach_init: "init s \<Longrightarrow> reach init step s"
| reach_step: "reach init step s \<Longrightarrow> step s t \<Longrightarrow> reach init step t"

locale invariant =
  fixes init :: "'s \<Rightarrow> bool" and step :: "'s \<Rightarrow> 's \<Rightarrow> bool" and inv :: "'s \<Rightarrow> bool"
  assumes init_inv: "init s \<Longrightarrow> inv s"
    and step_inv: "inv s \<Longrightarrow> step s t \<Longrightarrow> inv t"
begin

lemma reach_inv: "reach init step s \<Longrightarrow> inv s"
  by (induction rule: reach.induct) (auto intro: init_inv step_inv)

lemma steps_inv: "step\<^sup>*\<^sup>* s t \<Longrightarrow> inv s \<Longrightarrow> inv t"
  by (induction rule: rtranclp_induct) (auto intro: step_inv)

end

lemma reach_start: "reach (\<lambda>s. s = a) step a"
  by (rule reach_init) (rule refl)

lemma reach_steps: "step\<^sup>*\<^sup>* s t \<Longrightarrow> reach init step s \<Longrightarrow> reach init step t"
  by (induction rule: rtranclp_induct) (auto intro: reach_step)

section \<open>Ordered maps\<close>

text \<open>
  \<^verbatim>\<open>std::map\<close> is a list of entries with increasing keys, which is also the order of its iteration;
  lookup is \<^const>\<open>map_of\<close>, assignment through \<^verbatim>\<open>operator[]\<close> is \<open>map_put\<close>.
\<close>

fun map_put :: "('k :: linorder) \<Rightarrow> 'v \<Rightarrow> ('k \<times> 'v) list \<Rightarrow> ('k \<times> 'v) list" where
  "map_put k v [] = [(k, v)]"
| "map_put k v ((k', v') # m) =
     (if k < k' then (k, v) # (k', v') # m
      else if k = k' then (k, v) # m
      else (k', v') # map_put k v m)"

definition map_erase :: "'k \<Rightarrow> ('k \<times> 'v) list \<Rightarrow> ('k \<times> 'v) list" where
  "map_erase k m = filter (\<lambda>(k', _). k' \<noteq> k) m"

abbreviation map_wf :: "('k :: linorder \<times> 'v) list \<Rightarrow> bool" where
  "map_wf m \<equiv> sorted_wrt (<) (map fst m)"

lemma map_of_put [simp]: "map_of (map_put k v m) = (map_of m)(k \<mapsto> v)"
  by (induction k v m rule: map_put.induct) auto

lemma map_of_erase [simp]: "map_of (map_erase k m) = (map_of m)(k := None)"
  by (induction m) (auto simp: map_erase_def)

lemma keys_put [simp]: "fst ` set (map_put k v m) = insert k (fst ` set m)"
  by (induction k v m rule: map_put.induct) auto

lemma keys_erase [simp]: "fst ` set (map_erase k m) = fst ` set m - {k}"
  by (auto simp: map_erase_def image_iff)

lemma map_wf_put [simp]: "map_wf m \<Longrightarrow> map_wf (map_put k v m)"
proof (induction k v m rule: map_put.induct)
  case (2 k v k' v' m)
  have "fst ` set (map_put k v m) = insert k (fst ` set m)" by simp
  then have "\<forall>x \<in> set (map_put k v m). fst x = k \<or> fst x \<in> fst ` set m" by blast
  with 2 show ?case by fastforce
qed auto

lemma map_wf_erase [simp]: "map_wf m \<Longrightarrow> map_wf (map_erase k m)"
  by (induction m) (auto simp: map_erase_def)

end
