(* ===== verification/Thread_Pool.thy ===== *)
theory Thread_Pool
  imports Prelude "HOL-Library.Multiset"
begin

text \<open>
  \<^verbatim>\<open>core::thread_pool\<close> (core/thread_pool.hpp): three FIFO queues, served in strict priority by a
  fixed set of workers. The queue operations are functions on the array of queues; the pool with
  its workers is a step relation in which a step is one critical section of a worker or of a
  submitter. A worker in \<^verbatim>\<open>queue_cond_.wait\<close> may go on whenever the wait's predicate or the stop
  token allows it: which thread a notification picks is not determined here.
\<close>

datatype task_priority = High | Normal | Low

fun priority_index :: "task_priority \<Rightarrow> nat" where
  "priority_index High = 0"
| "priority_index Normal = 1"
| "priority_index Low = 2"

text \<open>Priorities are ordered as their queues are served.\<close>

instantiation task_priority :: linorder
begin

definition less_eq_task_priority :: "task_priority \<Rightarrow> task_priority \<Rightarrow> bool" where
  "less_eq_task_priority p q \<longleftrightarrow> priority_index p \<le> priority_index q"

definition less_task_priority :: "task_priority \<Rightarrow> task_priority \<Rightarrow> bool" where
  "less_task_priority p q \<longleftrightarrow> priority_index p < priority_index q"

lemma priority_index_eq: "priority_index p = priority_index q \<Longrightarrow> p = q"
  by (cases p; cases q) simp_all

instance
  by standard (auto simp: less_eq_task_priority_def less_task_priority_def intro: priority_index_eq)

end

type_synonym 'a queues = "'a list list"

definition empty_queues :: "'a queues" where
  "empty_queues = [[], [], []]"

definition submit_queue :: "'a \<Rightarrow> task_priority \<Rightarrow> 'a queues \<Rightarrow> 'a queues" where
  "submit_queue task priority qs =
     qs[priority_index priority := qs ! priority_index priority @ [task]]"

definition has_pending :: "'a queues \<Rightarrow> bool" where
  "has_pending qs \<longleftrightarrow> list_ex (\<lambda>q. q \<noteq> []) qs"

fun dequeue_highest :: "'a queues \<Rightarrow> 'a option \<times> 'a queues" where
  "dequeue_highest [] = (None, [])"
| "dequeue_highest (q # qs) =
     (case q of task # rest \<Rightarrow> (Some task, rest # qs)
      | [] \<Rightarrow> (let (task, qs') = dequeue_highest qs in (task, q # qs')))"

section \<open>The queue contract\<close>

text \<open>
  What the workers rely on: the queues are one sequence of tasks ordered by priority and, within a
  priority, by submission. Taking a task removes the first of that sequence; submitting inserts
  after the tasks of the same or a higher priority.
\<close>

text \<open>Taking tasks one after the other, as a single worker does.\<close>

fun drain :: "('q \<Rightarrow> 'a option \<times> 'q) \<Rightarrow> nat \<Rightarrow> 'q \<Rightarrow> 'a list \<times> 'q" where
  "drain pop 0 q = ([], q)"
| "drain pop (Suc n) q =
     (case pop q of (None, q') \<Rightarrow> ([], q') | (Some x, q') \<Rightarrow> (let (xs, q'') = drain pop n q' in (x # xs, q'')))"

lemma sort_key_resort: "sort_key f (sort_key f xs @ ys) = sort_key f (xs @ ys)"
proof (rule properties_for_sort_key)
  fix x
  show "filter (\<lambda>y. f x = f y) (sort_key f (xs @ ys)) = filter (\<lambda>y. f x = f y) (sort_key f xs @ ys)"
    using sort_key_stable [of f "f x"] by (simp add: eq_commute [of "f x"])
qed simp_all

lemma sorted_snoc_insert:
  assumes "sorted (map f xs)"
  shows "filter (\<lambda>x. f x \<le> f y) xs @ [y] @ filter (\<lambda>x. f y < f x) xs = sort_key f (xs @ [y])"
proof (rule properties_for_sort_key [symmetric])
  show "mset (filter (\<lambda>x. f x \<le> f y) xs @ [y] @ filter (\<lambda>x. f y < f x) xs) = mset (xs @ [y])"
    by (induction xs) auto
  fix k
  have "filter (\<lambda>x. f x \<le> f y \<and> f k = f x) xs = (if f k \<le> f y then filter (\<lambda>x. f k = f x) xs else [])"
    and "filter (\<lambda>x. f y < f x \<and> f k = f x) xs = (if f y < f k then filter (\<lambda>x. f k = f x) xs else [])"
    by (induction xs) auto
  then show "filter (\<lambda>x. f k = f x) (filter (\<lambda>x. f x \<le> f y) xs @ [y] @ filter (\<lambda>x. f y < f x) xs)
      = filter (\<lambda>x. f k = f x) (xs @ [y])"
    by auto
  show "sorted (map f (filter (\<lambda>x. f x \<le> f y) xs @ [y] @ filter (\<lambda>x. f y < f x) xs))"
    using assms by (auto simp: sorted_append sorted_filter)
qed

locale priority_fifo =
  fixes view :: "'q \<Rightarrow> (nat \<times> 'a) list"
    and push :: "'a \<Rightarrow> nat \<Rightarrow> 'q \<Rightarrow> 'q"
    and pop :: "'q \<Rightarrow> 'a option \<times> 'q"
    and ok :: "'q \<Rightarrow> bool"
    and levels :: nat
  assumes push_ok: "ok q \<Longrightarrow> i < levels \<Longrightarrow> ok (push x i q)"
    and pop_ok: "ok q \<Longrightarrow> ok (snd (pop q))"
    and view_sorted: "ok q \<Longrightarrow> sorted (map fst (view q))"
    and view_push: "ok q \<Longrightarrow> i < levels \<Longrightarrow>
      view (push x i q) = filter (\<lambda>(j, _). j \<le> i) (view q) @ [(i, x)] @ filter (\<lambda>(j, _). i < j) (view q)"
    and pop_None: "ok q \<Longrightarrow> view q = [] \<Longrightarrow> fst (pop q) = None \<and> view (snd (pop q)) = []"
    and pop_Some: "ok q \<Longrightarrow> view q = (i, x) # rest \<Longrightarrow> fst (pop q) = Some x \<and> view (snd (pop q)) = rest"
begin

lemma view_push_sort: "ok q \<Longrightarrow> i < levels \<Longrightarrow> view (push x i q) = sort_key fst (view q @ [(i, x)])"
  using sorted_snoc_insert [of fst "view q" "(i, x)"]
  by (simp add: view_push view_sorted case_prod_unfold)

lemma push_mset: "ok q \<Longrightarrow> i < levels \<Longrightarrow> mset (view (push x i q)) = add_mset (i, x) (mset (view q))"
  by (simp add: view_push_sort)

lemma view_pushes:
  "ok q \<Longrightarrow> list_all (\<lambda>(i, x). i < levels) subs \<Longrightarrow>
   ok (fold (\<lambda>(i, x). push x i) subs q)
   \<and> view (fold (\<lambda>(i, x). push x i) subs q) = sort_key fst (view q @ subs)"
proof (induction subs arbitrary: q)
  case Nil
  then show ?case by (simp add: sorted_sort_id [symmetric] view_sorted sort_key_id_if_sorted)
next
  case (Cons s subs)
  then show ?case
    by (cases s) (simp add: push_ok view_push_sort sort_key_resort)
qed

lemma drain_view:
  "ok q \<Longrightarrow> n \<le> length (view q) \<Longrightarrow>
   fst (drain pop n q) = take n (map snd (view q)) \<and> view (snd (drain pop n q)) = drop n (view q)"
proof (induction n arbitrary: q)
  case 0
  then show ?case by simp
next
  case (Suc n)
  then obtain i x rest where v: "view q = (i, x) # rest"
    by (cases "view q") auto
  obtain q' where q': "pop q = (Some x, q')" and "view q' = rest"
    using pop_Some [OF Suc.prems(1) v] by (cases "pop q") auto
  moreover have "ok q'" using pop_ok [OF Suc.prems(1)] q' by simp
  ultimately show ?case
    using Suc.IH [of q'] Suc.prems(2) v by (auto split: prod.splits)
qed

end

definition view :: "'a queues \<Rightarrow> (nat \<times> 'a) list" where
  "view qs = concat (map (\<lambda>(i, q). map (Pair i) q) (enumerate 0 qs))"

lemma three_queues: "length qs = 3 \<longleftrightarrow> (\<exists>a b c. qs = [a, b, c])"
  by (auto simp: length_Suc_conv eval_nat_numeral)

lemma view3: "view [a, b, c] = map (Pair 0) a @ map (Pair 1) b @ map (Pair 2) c"
  by (simp add: view_def numeral_2_eq_2)

definition push_level :: "'a \<Rightarrow> nat \<Rightarrow> 'a queues \<Rightarrow> 'a queues" where
  "push_level x i qs = qs[i := qs ! i @ [x]]"

lemma filter_level [simp]:
  "filter (\<lambda>(j, _). P j) (map (Pair i) xs) = (if P i then map (Pair i) xs else [])"
  by (induction xs) auto

interpretation pq: priority_fifo view push_level dequeue_highest "\<lambda>qs. length qs = 3" 3
proof unfold_locales
  fix q :: "'a queues" and i :: nat and x
  assume "length q = 3" and "i < 3"
  then obtain a b c where q: "q = [a, b, c]"
    by (auto simp: three_queues)
  from \<open>i < 3\<close> have i: "i = 0 \<or> i = 1 \<or> i = 2" by arith
  from i show "view (push_level x i q) =
      filter (\<lambda>(j, _). j \<le> i) (view q) @ [(i, x)] @ filter (\<lambda>(j, _). i < j) (view q)"
    by (auto simp: q view3 push_level_def)
qed (auto simp: three_queues view3 push_level_def sorted_append Cons_eq_append_conv
    map_eq_Cons_conv comp_def map_replicate_const split: list.splits)

section \<open>The pool and its workers\<close>

datatype 'a phase = Waiting | Running "'a option" | Exited

text \<open>
  Each worker has its own stop token, set when the destructor of its \<^verbatim>\<open>jthread\<close> runs; those
  destructors run one after the other, each joining its thread. The fields from \<open>submitted\<close> on
  record history and are read by no operation.
\<close>

record 'a pool =
  queues :: "'a queues"
  phases :: "'a phase list"
  stops :: "bool list"
  destroying :: bool
  submitted :: "'a list"
  started :: "'a option list"
  finished :: "'a option list"

definition make_pool :: "nat \<Rightarrow> 'a pool" where
  "make_pool worker_count =
     (let n = max 1 worker_count in
      \<lparr>queues = empty_queues, phases = replicate n Waiting, stops = replicate n False,
       destroying = False, submitted = [], started = [], finished = []\<rparr>)"

definition submit :: "'a \<Rightarrow> task_priority \<Rightarrow> 'a pool \<Rightarrow> 'a pool" where
  "submit task priority p =
     p\<lparr>queues := submit_queue task priority (queues p), submitted := submitted p @ [task]\<rparr>"

text \<open>One pass of the critical section of \<^verbatim>\<open>worker_loop\<close>, after its wait returned.\<close>

definition worker_section :: "nat \<Rightarrow> 'a pool \<Rightarrow> 'a pool" where
  "worker_section i p =
     (if \<not> has_pending (queues p) then p\<lparr>phases := (phases p)[i := Exited]\<rparr>
      else let (task, qs) = dequeue_highest (queues p) in
        p\<lparr>queues := qs, phases := (phases p)[i := Running task], started := started p @ [task]\<rparr>)"

definition worker_finish :: "nat \<Rightarrow> 'a option \<Rightarrow> 'a pool \<Rightarrow> 'a pool" where
  "worker_finish i task p = p\<lparr>phases := (phases p)[i := Waiting], finished := finished p @ [task]\<rparr>"

definition request_stop :: "nat \<Rightarrow> 'a pool \<Rightarrow> 'a pool" where
  "request_stop i p = p\<lparr>stops := (stops p)[i := True]\<rparr>"

definition all_exited :: "'a pool \<Rightarrow> bool" where
  "all_exited p \<longleftrightarrow> list_all (\<lambda>w. w = Exited) (phases p)"

text \<open>The steps the pool makes by itself: its workers, and the destructor joining them.\<close>

inductive pool_work :: "'a pool \<Rightarrow> 'a pool \<Rightarrow> bool" where
  wake: "i < length (phases p) \<Longrightarrow> phases p ! i = Waiting \<Longrightarrow> has_pending (queues p) \<or> stops p ! i \<Longrightarrow>
    pool_work p (worker_section i p)"
| finish: "i < length (phases p) \<Longrightarrow> phases p ! i = Running task \<Longrightarrow>
    pool_work p (worker_finish i task p)"
| join: "destroying p \<Longrightarrow> i < length (phases p) \<Longrightarrow> \<not> stops p ! i \<Longrightarrow>
    \<forall>j < length (phases p). stops p ! j \<longrightarrow> phases p ! j = Exited \<Longrightarrow>
    pool_work p (request_stop i p)"

text \<open>
  Anyone may submit before the destructor starts; while it runs only a task that is being run may.
\<close>

inductive pool_step :: "'a pool \<Rightarrow> 'a pool \<Rightarrow> bool" where
  work: "pool_work p q \<Longrightarrow> pool_step p q"
| submit_outside: "\<not> destroying p \<Longrightarrow> pool_step p (submit task priority p)"
| submit_inside: "i < length (phases p) \<Longrightarrow> phases p ! i = Running t \<Longrightarrow>
    pool_step p (submit task priority p)"
| destroy: "pool_step p (p\<lparr>destroying := True\<rparr>)"

inductive_cases pool_workE: "pool_work p q"
inductive_cases pool_stepE: "pool_step p q"

abbreviation pool_reach :: "'a pool \<Rightarrow> bool" where
  "pool_reach \<equiv> reach (\<lambda>p. \<exists>n. p = make_pool n) pool_step"

fun running_task :: "'a phase \<Rightarrow> 'a option list" where
  "running_task (Running t) = [t]"
| "running_task _ = []"

definition running :: "'a pool \<Rightarrow> 'a option list" where
  "running p = concat (map running_task (phases p))"

text \<open>The tasks are those waiting, being run and finished, each as often as it was submitted.\<close>

definition pool_inv :: "'a pool \<Rightarrow> bool" where
  "pool_inv p \<longleftrightarrow> length (queues p) = 3 \<and> phases p \<noteq> [] \<and> length (stops p) = length (phases p)
     \<and> image_mset Some (mset (submitted p)) =
         image_mset (Some \<circ> snd) (mset (view (queues p))) + mset (started p)
     \<and> mset (started p) = mset (running p) + mset (finished p)
     \<and> (\<forall>i < length (phases p). phases p ! i = Exited \<longrightarrow> stops p ! i)
     \<and> (\<forall>i < length (phases p). stops p ! i \<longrightarrow> destroying p)
     \<and> (all_exited p \<longrightarrow> \<not> has_pending (queues p))"

lemma submit_queue_level: "submit_queue x pr qs = push_level x (priority_index pr) qs"
  by (simp add: submit_queue_def push_level_def)

lemma insort_key_map: "insort_key f (g x) (map g xs) = map g (insort_key (f \<circ> g) x xs)"
  by (induction xs) auto

lemma sort_key_map: "sort_key f (map g xs) = map g (sort_key (f \<circ> g) xs)"
  by (induction xs) (simp_all add: insort_key_map [unfolded comp_def] comp_def)

lemma priority_index_less [simp]: "priority_index pr < 3"
  by (cases pr) auto

lemma has_pending_view: "length qs = 3 \<Longrightarrow> has_pending qs \<longleftrightarrow> view qs \<noteq> []"
  by (auto simp: three_queues view3 has_pending_def)

lemma phases_split:
  assumes "i < length ws"
  obtains pre post where "ws = pre @ ws ! i # post" and "length pre = i"
    and "\<And>w. ws[i := w] = pre @ w # post"
  using id_take_nth_drop [OF assms] upd_conv_take_nth_drop [OF assms] assms
  by (metis length_take min.absorb4)

lemma running_update:
  "i < length (phases p) \<Longrightarrow>
   mset (concat (map running_task ((phases p)[i := w]))) + mset (running_task (phases p ! i)) =
   mset (running p) + mset (running_task w)"
proof (rule phases_split [of i "phases p"], assumption)
  fix pre post
  assume s: "phases p = pre @ phases p ! i # post" and u: "\<And>w. (phases p)[i := w] = pre @ w # post"
  have "mset (running p) = mset (concat (map running_task (pre @ phases p ! i # post)))"
    unfolding running_def by (rule arg_cong [OF s, of "\<lambda>ws. mset (concat (map running_task ws))"])
  then show ?thesis by (simp add: u)
qed

lemma submit_inv:
  assumes "pool_inv p" and "\<not> all_exited p"
  shows "pool_inv (submit x pr p)"
  using assms pq.push_mset [of "queues p" "priority_index pr" x]
    pq.push_ok [of "queues p" "priority_index pr" x]
  by (auto simp: pool_inv_def submit_def submit_queue_level running_def all_exited_def)

lemma section_inv:
  assumes inv: "pool_inv p" and i: "i < length (phases p)" and w: "phases p ! i = Waiting"
    and en: "has_pending (queues p) \<or> stops p ! i"
  shows "pool_inv (worker_section i p)"
proof (cases "has_pending (queues p)")
  case True
  with inv obtain k x rest where v: "view (queues p) = (k, x) # rest"
    using has_pending_view [of "queues p"] by (cases "view (queues p)") (auto simp: pool_inv_def)
  obtain qs where qs: "dequeue_highest (queues p) = (Some x, qs)" "view qs = rest" "length qs = 3"
    using pq.pop_Some [OF _ v] pq.pop_ok [of "queues p"] inv
    by (cases "dequeue_highest (queues p)") (auto simp: pool_inv_def)
  have "phases p ! i = w \<or> (phases p)[i := Running (Some x)] ! i = Running (Some x)" for w
    using i by simp
  then show ?thesis
    using inv i w True qs v running_update [OF i, of "Running (Some x)"]
    by (auto simp: pool_inv_def worker_section_def running_def all_exited_def nth_list_update list_all_length)
next
  case False
  with inv i w en running_update [OF i, of Exited] show ?thesis
    by (auto simp: pool_inv_def worker_section_def running_def nth_list_update)
qed

lemma finish_inv:
  assumes "pool_inv p" and i: "i < length (phases p)" and "phases p ! i = Running t"
  shows "pool_inv (worker_finish i t p)"
  using assms running_update [OF i, of Waiting]
  by (auto simp: pool_inv_def worker_finish_def running_def all_exited_def nth_list_update list_all_length)

lemma stop_inv: "pool_inv p \<Longrightarrow> destroying p \<Longrightarrow> pool_inv (request_stop i p)"
  by (cases "i < length (stops p)")
    (auto simp: pool_inv_def request_stop_def running_def all_exited_def nth_list_update)

lemma not_all_exited:
  "pool_inv p \<Longrightarrow> \<not> destroying p \<Longrightarrow> \<not> all_exited p"
  by (cases "phases p") (auto simp: pool_inv_def all_exited_def)

lemma running_not_exited: "i < length (phases p) \<Longrightarrow> phases p ! i = Running t \<Longrightarrow> \<not> all_exited p"
  by (auto simp: all_exited_def list_all_length)

lemma destroy_inv: "pool_inv p \<Longrightarrow> pool_inv (p\<lparr>destroying := True\<rparr>)"
  by (auto simp: pool_inv_def running_def all_exited_def)

interpretation pool: invariant "\<lambda>p. \<exists>n. p = make_pool n" pool_step pool_inv
proof
  fix p :: "'a pool"
  assume "\<exists>n. p = make_pool n"
  then show "pool_inv p"
    by (auto simp: make_pool_def pool_inv_def running_def all_exited_def empty_queues_def view3
        has_pending_def Let_def)
next
  fix p q :: "'a pool"
  assume inv: "pool_inv p" and "pool_step p q"
  from \<open>pool_step p q\<close> show "pool_inv q"
  proof cases
    case work
    from this inv show ?thesis
      by cases (auto intro: section_inv finish_inv stop_inv)
  qed (use inv in \<open>auto intro: submit_inv destroy_inv dest: not_all_exited running_not_exited\<close>)
qed

section \<open>Properties\<close>

fun phase_weight :: "'a phase \<Rightarrow> nat" where
  "phase_weight Waiting = 1"
| "phase_weight (Running _) = 2"
| "phase_weight Exited = 0"

text \<open>An upper bound on the steps the pool can still make if nothing more is submitted.\<close>

definition work_left :: "'a pool \<Rightarrow> nat" where
  "work_left p = 2 * length (view (queues p)) + sum_list (map phase_weight (phases p))
     + length (filter Not (stops p))"

lemma weight_update:
  "i < length ws \<Longrightarrow> sum_list (map phase_weight (ws[i := w])) + phase_weight (ws ! i) =
     sum_list (map phase_weight ws) + phase_weight w"
  by (induction ws arbitrary: i) (auto split: nat.splits)

lemma stop_update:
  "i < length bs \<Longrightarrow> \<not> bs ! i \<Longrightarrow> Suc (length (filter Not (bs[i := True]))) = length (filter Not bs)"
  by (induction bs arbitrary: i) (auto split: nat.splits)

lemma section_started:
  assumes "length (queues p) = 3" and "view (queues p) = (k, x) # rest"
  shows "\<exists>qs. length qs = 3 \<and> view qs = rest \<and> worker_section i p =
    p\<lparr>queues := qs, phases := (phases p)[i := Running (Some x)], started := started p @ [Some x]\<rparr>"
  using pq.pop_Some [OF assms] pq.pop_ok [OF assms(1)] has_pending_view [OF assms(1)] assms(2)
  by (auto simp: worker_section_def split: prod.splits)

lemma work_decreases:
  assumes "pool_work p q" and "pool_inv p"
  shows "work_left q < work_left p"
  using assms(1)
proof cases
  case (wake i)
  show ?thesis
  proof (cases "view (queues p)")
    case Nil
    then show ?thesis
      using wake assms(2) weight_update [of i "phases p" Exited]
      by (auto simp: worker_section_def work_left_def pool_inv_def has_pending_view)
  next
    case (Cons s rest)
    obtain k x where "s = (k, x)" by (cases s)
    then obtain qs where "view qs = rest" and "q = p\<lparr>queues := qs,
        phases := (phases p)[i := Running (Some x)], started := started p @ [Some x]\<rparr>"
      using section_started [of p k x rest i] Cons wake(1) assms(2) by (auto simp: pool_inv_def)
    then show ?thesis
      using Cons wake weight_update [of i "phases p" "Running (Some x)"] by (auto simp: work_left_def)
  qed
next
  case (finish i task)
  then show ?thesis
    using weight_update [of i "phases p" Waiting] by (auto simp: worker_finish_def work_left_def)
next
  case (join i)
  then show ?thesis
    using stop_update [of i "stops p"] assms(2)
    by (auto simp: request_stop_def work_left_def pool_inv_def)
qed

lemma work_enabled:
  assumes inv: "pool_inv p" and live: "\<not> all_exited p" and "has_pending (queues p) \<or> destroying p"
  shows "\<exists>q. pool_work p q"
proof -
  obtain i where i: "i < length (phases p)" "phases p ! i \<noteq> Exited"
    using live by (auto simp: all_exited_def list_all_length)
  consider (run) j t where "j < length (phases p)" "phases p ! j = Running t"
    | (stop) j where "j < length (phases p)" "phases p ! j = Waiting" "stops p ! j"
    | (none) "phases p ! i = Waiting" "\<forall>j < length (phases p). stops p ! j \<longrightarrow> phases p ! j = Exited"
    using i by (metis phase.exhaust)
  then show ?thesis
  proof cases
    case run
    then show ?thesis by (blast intro: pool_work.finish)
  next
    case stop
    then show ?thesis by (blast intro: pool_work.wake)
  next
    case none
    then have "\<not> stops p ! i" using i by auto
    with none i assms(3) show ?thesis
      by (blast intro: pool_work.wake pool_work.join)
  qed
qed

lemma sort_key_priority: "sort_key (\<lambda>(pr, x). priority_index pr) xs = sort_key (fst :: task_priority \<times> 'a \<Rightarrow> _) xs"
proof -
  have "insort_key (\<lambda>(pr, x). priority_index pr) y ys = insort_key fst y ys" for y :: "task_priority \<times> 'a" and ys
    by (induction ys) (auto simp: less_eq_task_priority_def split: prod.splits)
  then show ?thesis by (induction xs) simp_all
qed

text \<open>
  C14: Whatever was submitted, and by whichever workers it is taken, a pool serves tasks in strict
  priority and, within a priority, in the order of submission: taking tasks one by one gives the
  stable sort of the submissions by priority, all of them and each once.
\<close>

theorem strict_priority_order:
  "fst (drain dequeue_highest (length subs) (fold (\<lambda>(pr, x). submit_queue x pr) subs empty_queues))
     = map snd (sort_key fst subs)"
proof -
  let ?subs = "map (\<lambda>(pr, x). (priority_index pr, x)) subs"
  let ?q = "fold (\<lambda>(i, x). push_level x i) ?subs empty_queues"
  have q: "fold (\<lambda>(pr, x). submit_queue x pr) subs empty_queues = ?q"
    by (simp add: fold_map comp_def case_prod_unfold submit_queue_level [abs_def])
  have "list_all (\<lambda>(i, x). i < 3) ?subs" by (auto simp: list_all_iff)
  then have "length ?q = 3 \<and> view ?q = sort_key fst ?subs"
    using pq.view_pushes [of empty_queues ?subs] by (simp add: empty_queues_def view3)
  then have "fst (drain dequeue_highest (length subs) ?q) = map snd (sort_key fst ?subs)"
    using pq.drain_view [of ?q "length subs"] by simp
  also have "sort_key fst ?subs = map (\<lambda>(pr, x). (priority_index pr, x)) (sort_key (\<lambda>(pr, x). priority_index pr) subs)"
    by (simp add: sort_key_map comp_def case_prod_unfold)
  finally show ?thesis unfolding q by (simp add: comp_def case_prod_unfold sort_key_priority [unfolded case_prod_unfold])
qed

text \<open>
  C6: When the destructor has joined every worker, each task that was ever submitted - also those
  still queued when it started, and those submitted by tasks while it ran - has been run to its
  end exactly as often as it was submitted, and no null task was run.
\<close>

theorem destructor_drains:
  assumes "pool_reach p" and "all_exited p"
  shows "mset (finished p) = image_mset Some (mset (submitted p))"
proof -
  have inv: "pool_inv p" by (rule pool.reach_inv [OF assms(1)])
  then have "view (queues p) = []"
    using assms(2) has_pending_view by (auto simp: pool_inv_def)
  moreover have "running p = []"
    using assms(2) by (auto simp: running_def all_exited_def list_all_iff)
  ultimately show ?thesis using inv by (simp add: pool_inv_def)
qed

lemma one_task_run:
  "pool_step\<^sup>*\<^sup>* (make_pool 0)
    \<lparr>queues = [[], [], []], phases = [Exited], stops = [True], destroying = True,
     submitted = [7 :: nat], started = [Some 7], finished = [Some 7]\<rparr>" (is "_\<^sup>*\<^sup>* ?p ?q")
proof -
  let ?a = "submit 7 Low ?p" let ?b = "?a\<lparr>destroying := True\<rparr>" let ?c = "request_stop 0 ?b"
  let ?d = "worker_section 0 ?c" let ?e = "worker_finish 0 (Some 7) ?d"
  note evaluate = make_pool_def submit_def submit_queue_def empty_queues_def request_stop_def
    worker_section_def worker_finish_def has_pending_def Let_def
  note [trans] = rtranclp.rtrancl_into_rtrancl
  have "pool_step\<^sup>*\<^sup>* ?p ?a" by (rule r_into_rtranclp, rule submit_outside) (simp add: evaluate)
  also have "pool_step ?a ?b" by (rule destroy)
  also have "pool_step ?b ?c" by (rule work, rule join) (simp_all add: evaluate)
  also have "pool_step ?c ?d" by (rule work, rule wake) (simp_all add: evaluate)
  also have "pool_step ?d ?e" by (rule work, rule finish) (simp_all add: evaluate)
  also have "pool_step ?e (worker_section 0 ?e)" by (rule work, rule wake) (simp_all add: evaluate)
  also have "worker_section 0 ?e = ?q" by (simp add: evaluate)
  finally show ?thesis .
qed

theorem destructor_drains_witness:
  "mset [Some (7 :: nat)] = image_mset Some (mset [7])"
  using destructor_drains [OF reach_steps [OF one_task_run reach_init]]
  by (simp add: all_exited_def)


lemma one_task_reach: "pool_reach (submit (7 :: nat) Low (make_pool 0))"
proof (rule reach_step [of _ _ "make_pool 0"])
  show "pool_reach (make_pool 0)" by (rule reach_init) blast
  show "pool_step (make_pool 0) (submit (7 :: nat) Low (make_pool 0))"
    by (rule submit_outside) (simp add: make_pool_def)
qed


end
