(* ===== verification/Event_Signal.thy ===== *)
theory Event_Signal
  imports Thread_Pool
begin

text \<open>
  \<^verbatim>\<open>core::signal\<close> (core/signal.hpp) and \<^verbatim>\<open>core::event\<close> (core/event.hpp). The list of sinks is a list
  of slots, each with the identity of its list node: an iterator is that identity, and erasing
  through an iterator whose node has left the list is undefined behaviour. Slots are named by tags
  \<open>'f\<close>; what a tag does when it is called is the argument \<open>call\<close> of the emitting operations, a
  function on the whole state, so a listener may connect, disconnect or emit again.
\<close>

record connection =
  conn_node :: nat
  conn_valid :: bool

definition default_connection :: connection where
  "default_connection = \<lparr>conn_node = 0, conn_valid = False\<rparr>"

text \<open>\<open>Once k f\<close> is the closure built by \<^verbatim>\<open>event::once\<close>; \<open>k\<close> is its shared subscription cell.\<close>

datatype 'f slot = Listener 'f | Once nat 'f

fun slot_fn :: "'f slot \<Rightarrow> 'f" where
  "slot_fn (Listener f) = f"
| "slot_fn (Once _ f) = f"

fun is_once :: "'f slot \<Rightarrow> bool" where
  "is_once (Once _ _) = True"
| "is_once (Listener _) = False"

text \<open>
  \<open>sig_alive\<close> says that the control block is still owned by its signal, i.e. that the weak pointer
  of a connection can be locked.
\<close>

record 'f sig =
  sig_alive :: bool
  sinks :: "(nat \<times> 'f slot) list"
  next_node :: nat
  cells :: "nat \<rightharpoonup> connection"
  next_cell :: nat

definition new_signal :: "'f sig" where
  "new_signal = \<lparr>sig_alive = True, sinks = [], next_node = 0, cells = Map.empty, next_cell = 0\<rparr>"

definition connect :: "'f slot \<Rightarrow> ('f, 'z) sig_scheme \<Rightarrow> connection \<times> ('f, 'z) sig_scheme" where
  "connect slot w =
     (\<lparr>conn_node = next_node w, conn_valid = True\<rparr>,
      w\<lparr>sinks := sinks w @ [(next_node w, slot)], next_node := next_node w + 1\<rparr>)"

definition erase_node :: "nat \<Rightarrow> ('f, 'z) sig_scheme \<Rightarrow> ('f, 'z) sig_scheme exec" where
  "erase_node n w =
     (if n \<in> fst ` set (sinks w) then Done (w\<lparr>sinks := filter (\<lambda>(m, _). m \<noteq> n) (sinks w)\<rparr>) else UB)"

definition disconnect ::
  "connection \<Rightarrow> ('f, 'z) sig_scheme \<Rightarrow> (connection \<times> ('f, 'z) sig_scheme) exec" where
  "disconnect c w =
     bind_exec (if sig_alive w \<and> conn_valid c then erase_node (conn_node c) w else Done w)
       (\<lambda>w'. Done (c\<lparr>conn_valid := False\<rparr>, w'))"

definition connected :: "connection \<Rightarrow> ('f, 'z) sig_scheme \<Rightarrow> bool" where
  "connected c w \<longleftrightarrow> conn_valid c \<and> sig_alive w"

definition disconnect_all :: "('f, 'z) sig_scheme \<Rightarrow> ('f, 'z) sig_scheme" where
  "disconnect_all w = w\<lparr>sinks := []\<rparr>"

definition destroy_signal :: "('f, 'z) sig_scheme \<Rightarrow> ('f, 'z) sig_scheme" where
  "destroy_signal w = (disconnect_all w)\<lparr>sig_alive := False\<rparr>"

definition slot_count :: "('f, 'z) sig_scheme \<Rightarrow> nat" where
  "slot_count w = length (sinks w)"

definition snapshot_sinks :: "('f, 'z) sig_scheme \<Rightarrow> 'f slot list" where
  "snapshot_sinks w = map snd (sinks w)"

text \<open>Calling one slot; the closure of \<^verbatim>\<open>once\<close> first disconnects through its shared cell.\<close>

fun call_slot ::
  "('f \<Rightarrow> 'a \<Rightarrow> ('f, 'z) sig_scheme \<Rightarrow> ('f, 'z) sig_scheme exec) \<Rightarrow> 'f slot \<Rightarrow> 'a \<Rightarrow>
   ('f, 'z) sig_scheme \<Rightarrow> ('f, 'z) sig_scheme exec" where
  "call_slot call (Listener f) args w = call f args w"
| "call_slot call (Once k f) args w =
     (case cells w k of None \<Rightarrow> UB
      | Some c \<Rightarrow> bind_exec (disconnect c w)
          (\<lambda>(c', w'). call f args (w'\<lparr>cells := (cells w')(k \<mapsto> c')\<rparr>)))"

fun call_slots ::
  "('f \<Rightarrow> 'a \<Rightarrow> ('f, 'z) sig_scheme \<Rightarrow> ('f, 'z) sig_scheme exec) \<Rightarrow> 'f slot list \<Rightarrow> 'a \<Rightarrow>
   ('f, 'z) sig_scheme \<Rightarrow> ('f, 'z) sig_scheme exec" where
  "call_slots call [] args w = Done w"
| "call_slots call (s # ss) args w =
     bind_exec (call_slot call s args w) (\<lambda>w'. call_slots call ss args w')"

definition emit ::
  "('f \<Rightarrow> 'a \<Rightarrow> ('f, 'z) sig_scheme \<Rightarrow> ('f, 'z) sig_scheme exec) \<Rightarrow> 'a \<Rightarrow>
   ('f, 'z) sig_scheme \<Rightarrow> ('f, 'z) sig_scheme exec" where
  "emit call args w = call_slots call (snapshot_sinks w) args w"

definition emit_async ::
  "task_priority \<Rightarrow> 'a \<Rightarrow> ('f, 'z) sig_scheme \<Rightarrow> ('f slot \<times> 'a) pool \<Rightarrow> ('f slot \<times> 'a) pool" where
  "emit_async priority args w p = fold (\<lambda>s. submit (s, args) priority) (snapshot_sinks w) p"

section \<open>Scoped connections\<close>

text \<open>Each operation returns the wrapper, the wrapper moved from where there is one, and the state.\<close>

definition scoped_move :: "connection \<Rightarrow> connection \<times> connection" where
  "scoped_move other = (other, default_connection)"

definition scoped_assign ::
  "bool \<Rightarrow> connection \<Rightarrow> connection \<Rightarrow> ('f, 'z) sig_scheme \<Rightarrow>
   (connection \<times> connection \<times> ('f, 'z) sig_scheme) exec" where
  "scoped_assign same self other w =
     (if same then Done (self, other, w)
      else bind_exec (disconnect self w) (\<lambda>(_, w'). Done (other, default_connection, w')))"

definition scoped_destroy :: "connection \<Rightarrow> ('f, 'z) sig_scheme \<Rightarrow> ('f, 'z) sig_scheme exec" where
  "scoped_destroy c w = bind_exec (disconnect c w) (\<lambda>(_, w'). Done w')"

section \<open>Events\<close>

definition event_on :: "'f \<Rightarrow> ('f, 'z) sig_scheme \<Rightarrow> ('f, 'z) sig_scheme" where
  "event_on f w = snd (connect (Listener f) w)"

definition event_once :: "'f \<Rightarrow> ('f, 'z) sig_scheme \<Rightarrow> connection \<times> ('f, 'z) sig_scheme" where
  "event_once f w =
     (let k = next_cell w;
          (c, w') = connect (Once k f) (w\<lparr>cells := (cells w)(k \<mapsto> default_connection), next_cell := k + 1\<rparr>)
      in (c, w'\<lparr>cells := (cells w')(k \<mapsto> c)\<rparr>))"

definition off_all :: "('f, 'z) sig_scheme \<Rightarrow> ('f, 'z) sig_scheme" where
  "off_all w = disconnect_all w"

definition listener_count :: "('f, 'z) sig_scheme \<Rightarrow> nat" where
  "listener_count w = slot_count w"

section \<open>Sound handles\<close>

text \<open>
  Nodes are distinct and were all handed out; a valid cell is the handle of the once-listener that
  refers to it, and every once-listener of the list has such a cell.
\<close>

definition handles_ok :: "('f, 'z) sig_scheme \<Rightarrow> bool" where
  "handles_ok w \<longleftrightarrow> sig_alive w \<and> distinct (map fst (sinks w)) \<and> (\<forall>n \<in> fst ` set (sinks w). n < next_node w)
     \<and> (\<forall>k c. cells w k = Some c \<and> conn_valid c \<longrightarrow> (\<exists>f. (conn_node c, Once k f) \<in> set (sinks w)))
     \<and> (\<forall>n k f. (n, Once k f) \<in> set (sinks w) \<longrightarrow> cells w k = Some \<lparr>conn_node = n, conn_valid = True\<rparr>)
     \<and> (\<forall>k \<ge> next_cell w. cells w k = None)"

lemma handles_okD:
  assumes "handles_ok w"
  shows "sig_alive w" and "distinct (map fst (sinks w))"
    and "(n, Once k f) \<in> set (sinks w) \<Longrightarrow> cells w k = Some \<lparr>conn_node = n, conn_valid = True\<rparr>"
    and "cells w k = Some c \<Longrightarrow> conn_valid c \<Longrightarrow> \<exists>f. (conn_node c, Once k f) \<in> set (sinks w)"
    and "cells w k = Some c \<Longrightarrow> k < next_cell w"
    and "(n, s) \<in> set (sinks w) \<Longrightarrow> n < next_node w"
  using assms unfolding handles_ok_def by (blast, blast, blast, blast, metis not_le option.distinct(1), force)

lemma new_signal_ok [simp]: "handles_ok new_signal"
  by (simp add: handles_ok_def new_signal_def)

lemma event_on_ok: "handles_ok w \<Longrightarrow> handles_ok (event_on f w)"
  by (force simp: handles_ok_def event_on_def connect_def)

lemma event_once_ok: "handles_ok w \<Longrightarrow> handles_ok (snd (event_once f w))"
  by (force simp: handles_ok_def event_once_def connect_def Let_def)

text \<open>What a once-listener does first: leave the list, and mark the shared cell.\<close>

definition leave :: "nat \<Rightarrow> connection \<Rightarrow> ('f, 'z) sig_scheme \<Rightarrow> ('f, 'z) sig_scheme" where
  "leave k c w =
     w\<lparr>sinks := (if conn_valid c then filter (\<lambda>(m, _). m \<noteq> conn_node c) (sinks w) else sinks w),
       cells := (cells w)(k \<mapsto> c\<lparr>conn_valid := False\<rparr>)\<rparr>"

lemma call_once:
  assumes ok: "handles_ok w" and c: "cells w k = Some c"
  shows "call_slot call (Once k f) a w = call f a (leave k c w)"
proof -
  have "conn_valid c \<Longrightarrow> conn_node c \<in> fst ` set (sinks w)" and "sig_alive w"
    using ok c by (force simp: handles_ok_def)+
  then show ?thesis
    by (simp add: c disconnect_def erase_node_def leave_def)
qed

lemma leave_ok:
  assumes ok: "handles_ok w" and c: "cells w k = Some c"
  shows "handles_ok (leave k c w)"
proof -
  note d = handles_okD(2) [OF ok] and below = handles_okD(5) [OF ok c]
    and own = handles_okD(4) [OF ok c] and cell = handles_okD(3) [OF ok] and valid = handles_okD(4) [OF ok]
  have same: "s = t" if "(n, s) \<in> set (sinks w)" "(n, t) \<in> set (sinks w)" for n s t
    using d that by (metis eq_key_imp_eq_value)
  have "conn_node e \<noteq> conn_node c" if "conn_valid c" "cells w l = Some e" "conn_valid e" "l \<noteq> k" for l e
    using own valid same that by (metis slot.inject(2))
  moreover have "conn_valid c \<and> n = conn_node c" if "(n, Once k g) \<in> set (sinks w)" for n g
    using cell [OF that] c by auto
  ultimately show ?thesis
    using ok below unfolding handles_ok_def leave_def
    by (auto simp: distinct_map_filter)
qed

record ('f, 'a) logged = "'f sig" + call_log :: "('f \<times> 'a) list"

text \<open>
  Listeners that return, leave sound handles sound and record that they were called. They may add
  listeners of either kind, remove listeners through live handles, and change anything else.
\<close>

definition listeners_ok ::
  "('f \<Rightarrow> 'a \<Rightarrow> ('f, 'a, 'z) logged_scheme \<Rightarrow> ('f, 'a, 'z) logged_scheme exec) \<Rightarrow> bool" where
  "listeners_ok call \<longleftrightarrow> (\<forall>f a w. handles_ok w \<longrightarrow>
     (\<exists>w'. call f a w = Done w' \<and> handles_ok w' \<and> dom (cells w) \<subseteq> dom (cells w')
        \<and> call_log w' = call_log w @ [(f, a)]))"

fun slot_live :: "('f, 'z) sig_scheme \<Rightarrow> 'f slot \<Rightarrow> bool" where
  "slot_live w (Once k _) \<longleftrightarrow> k \<in> dom (cells w)"
| "slot_live w (Listener _) \<longleftrightarrow> True"

lemma slot_live_mono: "slot_live w s \<Longrightarrow> dom (cells w) \<subseteq> dom (cells w') \<Longrightarrow> slot_live w' s"
  by (cases s) auto

lemma call_slot_ok:
  assumes call: "listeners_ok call" and ok: "handles_ok w" and live: "slot_live w s"
  shows "\<exists>w'. call_slot call s a w = Done w' \<and> handles_ok w' \<and> dom (cells w) \<subseteq> dom (cells w')
    \<and> call_log w' = call_log w @ [(slot_fn s, a)]"
proof (cases s)
  case (Listener f)
  then show ?thesis using call ok by (auto simp: listeners_ok_def)
next
  case (Once k f)
  then obtain c where c: "cells w k = Some c" using live by auto
  let ?v = "leave k c w"
  have "dom (cells ?v) = dom (cells w)" "call_log ?v = call_log w"
    using c by (auto simp: leave_def)
  moreover obtain w' where "call f a ?v = Done w'" "handles_ok w'" "dom (cells ?v) \<subseteq> dom (cells w')"
    "call_log w' = call_log ?v @ [(f, a)]"
    using call leave_ok [OF ok c] unfolding listeners_ok_def by blast
  ultimately show ?thesis
    by (simp add: Once call_once [OF ok c] del: call_slot.simps)
qed

lemma call_slots_ok:
  "listeners_ok call \<Longrightarrow> handles_ok w \<Longrightarrow> list_all (slot_live w) ss \<Longrightarrow>
   \<exists>w'. call_slots call ss a w = Done w' \<and> handles_ok w'
     \<and> call_log w' = call_log w @ map (\<lambda>s. (slot_fn s, a)) ss"
proof (induction ss arbitrary: w)
  case Nil
  then show ?case by simp
next
  case (Cons s ss)
  then obtain v where v: "call_slot call s a w = Done v" "handles_ok v"
    "dom (cells w) \<subseteq> dom (cells v)" "call_log v = call_log w @ [(slot_fn s, a)]"
    using call_slot_ok [of call w s a] by auto
  then have "list_all (slot_live v) ss"
    using Cons.prems(3) by (auto simp: list_all_iff intro: slot_live_mono)
  from Cons.IH [OF Cons.prems(1) v(2) this] show ?case
    using v by (auto)
qed

lemma snapshot_live: "handles_ok w \<Longrightarrow> list_all (slot_live w) (snapshot_sinks w)"
proof -
  assume "handles_ok w"
  then have "slot_live w s" if "(n, s) \<in> set (sinks w)" for n s
    using that by (cases s) (auto dest: handles_okD(3))
  then show ?thesis by (auto simp: list_all_iff snapshot_sinks_def)
qed


text \<open>Listeners of the witness: each adds another listener, the first also a once-listener.\<close>

definition growing_call :: "nat \<Rightarrow> nat \<Rightarrow> (nat, nat) logged \<Rightarrow> (nat, nat) logged exec" where
  "growing_call f a w =
     Done ((if f = 0 then snd (event_once 5 (event_on 4 w)) else event_on 4 w)\<lparr>call_log := call_log w @ [(f, a)]\<rparr>)"

lemma handles_ok_log [simp]: "handles_ok (w\<lparr>call_log := l\<rparr>) = handles_ok w"
  by (simp add: handles_ok_def)

lemma event_log [simp]: "call_log (event_on f w) = call_log w" "call_log (snd (event_once f w)) = call_log w"
  by (simp_all add: event_on_def event_once_def connect_def Let_def)

lemma event_cells [simp]:
  "cells (event_on f w) = cells w" "dom (cells w) \<subseteq> dom (cells (snd (event_once f w)))"
  by (auto simp: event_on_def event_once_def connect_def Let_def)

lemma growing_ok: "listeners_ok growing_call"
  using event_cells(2) [of "event_on 4 _" 5]
  by (auto simp: listeners_ok_def growing_call_def event_on_ok event_once_ok)

definition two_listeners :: "(nat, nat) logged" where
  "two_listeners = snd (event_once 1 (event_on 0 (sig.extend new_signal \<lparr>call_log = []\<rparr>)))"

lemma two_listeners_ok: "handles_ok two_listeners"
  unfolding two_listeners_def
  by (intro event_once_ok event_on_ok) (simp add: handles_ok_def new_signal_def sig.defs)


section \<open>Once-listeners and stale handles\<close>

fun slot_cell :: "'f slot \<Rightarrow> nat option" where
  "slot_cell (Once k _) = Some k"
| "slot_cell (Listener _) = None"

lemma leave_sinks:
  assumes ok: "handles_ok w" and c: "cells w k = Some c"
  shows "sinks (leave k c w) = filter (\<lambda>(_, s). slot_cell s \<noteq> Some k) (sinks w)"
proof -
  have "(conn_valid c \<longrightarrow> n \<noteq> conn_node c) \<longleftrightarrow> slot_cell s \<noteq> Some k" if s: "(n, s) \<in> set (sinks w)" for n s
  proof (cases "slot_cell s = Some k")
    case True
    then obtain f where "s = Once k f" by (cases s) auto
    with handles_okD(3) [OF ok] s c True show ?thesis by auto
  next
    case False
    have "n \<noteq> conn_node c" if "conn_valid c"
    proof
      assume "n = conn_node c"
      with handles_okD(4) [OF ok c that] obtain f where "(n, Once k f) \<in> set (sinks w)" by auto
      with s handles_okD(2) [OF ok] have "s = Once k f" by (metis eq_key_imp_eq_value)
      with False show False by simp
    qed
    with False show ?thesis by simp
  qed
  then show ?thesis
    by (cases "conn_valid c") (auto simp: leave_def intro!: filter_cong filter_True [symmetric])
qed

text \<open>Listeners that do nothing to the event itself.\<close>

definition record_call ::
  "'f \<Rightarrow> 'a \<Rightarrow> ('f, 'a, 'z) logged_scheme \<Rightarrow> ('f, 'a, 'z) logged_scheme exec" where
  "record_call f a w = Done (w\<lparr>call_log := call_log w @ [(f, a)]\<rparr>)"

lemma record_call_ok: "listeners_ok record_call"
  by (simp add: listeners_ok_def record_call_def)

lemma record_slots:
  "handles_ok w \<Longrightarrow> list_all (slot_live w) ss \<Longrightarrow> call_slots record_call ss a w = Done w' \<Longrightarrow>
   sinks w' = filter (\<lambda>(_, s). \<forall>k. slot_cell s = Some k \<longrightarrow> Some k \<notin> slot_cell ` set ss) (sinks w)
   \<and> sig_alive w'"
proof (induction ss arbitrary: w)
  case Nil
  then show ?case by (auto simp: handles_okD(1))
next
  case (Cons s ss)
  obtain v where v: "call_slot record_call s a w = Done v" "handles_ok v"
    "dom (cells w) \<subseteq> dom (cells v)"
    using call_slot_ok [OF record_call_ok Cons.prems(1), of s a] Cons.prems(2) by auto
  have "sinks v = filter (\<lambda>(_, t). \<forall>k. slot_cell t = Some k \<longrightarrow> Some k \<noteq> slot_cell s) (sinks w)"
  proof (cases s)
    case (Listener f)
    with v(1) show ?thesis by (auto simp: record_call_def)
  next
    case (Once k f)
    then obtain c where c: "cells w k = Some c" using Cons.prems(2) by auto
    have "v = leave k c w\<lparr>call_log := call_log (leave k c w) @ [(f, a)]\<rparr>"
      using v(1) by (simp add: Once call_once [OF Cons.prems(1) c] record_call_def del: call_slot.simps)
    then show ?thesis
      using leave_sinks [OF Cons.prems(1) c] by (auto simp: Once intro!: filter_cong)
  qed
  moreover have "list_all (slot_live v) ss"
    using Cons.prems(2) v(3) by (auto simp: list_all_iff intro: slot_live_mono)
  ultimately show ?case
    using Cons.IH [OF v(2)] Cons.prems(3) v(1) by (auto intro!: filter_cong)
qed

lemma emit_record_sinks:
  assumes "handles_ok w"
  obtains w' where "emit record_call a w = Done w'" "handles_ok w'"
    "sinks w' = filter (\<lambda>(_, s). \<not> is_once s) (sinks w)"
    "call_log w' = call_log w @ map (\<lambda>(_, s). (slot_fn s, a)) (sinks w)"
proof -
  obtain w' where w': "emit record_call a w = Done w'" "handles_ok w'"
    "call_log w' = call_log w @ map (\<lambda>(_, s). (slot_fn s, a)) (sinks w)"
    using call_slots_ok [OF record_call_ok assms snapshot_live [OF assms], of a]
    by (auto simp: emit_def snapshot_sinks_def comp_def case_prod_unfold)
  have "(\<forall>k. slot_cell s = Some k \<longrightarrow> Some k \<notin> slot_cell ` set (snapshot_sinks w)) \<longleftrightarrow> \<not> is_once s"
    if "(n, s) \<in> set (sinks w)" for n s
    using that by (cases s) (force simp: snapshot_sinks_def image_iff)+
  then have "sinks w' = filter (\<lambda>(_, s). \<not> is_once s) (sinks w)"
    using record_slots [OF assms snapshot_live [OF assms] w'(1) [unfolded emit_def]]
    by (auto intro!: filter_cong)
  with w' that show ?thesis by blast
qed

text \<open>
  C34: A once-listener removes itself when it fires: the first emission calls every listener,
  leaves exactly the listeners that were not connected with \<^verbatim>\<open>once\<close>, in order, and the next
  emission calls only those.
\<close>

theorem once_fires_once:
  assumes "handles_ok w"
  shows "\<exists>w1 w2. emit record_call a w = Done w1 \<and> emit record_call b w1 = Done w2
    \<and> sinks w1 = filter (\<lambda>(_, s). \<not> is_once s) (sinks w)
    \<and> call_log w2 = call_log w @ map (\<lambda>(_, s). (slot_fn s, a)) (sinks w)
        @ map (\<lambda>(_, s). (slot_fn s, b)) (filter (\<lambda>(_, s). \<not> is_once s) (sinks w))"
proof -
  obtain w1 where "emit record_call a w = Done w1" "handles_ok w1"
    "sinks w1 = filter (\<lambda>(_, s). \<not> is_once s) (sinks w)"
    "call_log w1 = call_log w @ map (\<lambda>(_, s). (slot_fn s, a)) (sinks w)"
    by (rule emit_record_sinks [OF assms])
  moreover from this(2) obtain w2 where "emit record_call b w1 = Done w2"
    "call_log w2 = call_log w1 @ map (\<lambda>(_, s). (slot_fn s, b)) (sinks w1)"
    by (rule emit_record_sinks)
  ultimately show ?thesis by auto
qed

theorem once_fires_once_witness:
  "\<exists>w1 w2. emit record_call 9 two_listeners = Done w1 \<and> emit record_call 8 w1 = Done w2
    \<and> call_log w2 = [(0, 9), (1, 9), (0, 8)]"
  using once_fires_once [OF two_listeners_ok, of 9 8]
  by (auto simp: two_listeners_def event_on_def event_once_def connect_def Let_def sig.defs new_signal_def)

lemma filter_node:
  assumes "distinct (map fst (pre @ (n, s) # post))"
  shows "filter (\<lambda>(m, _). m \<noteq> n) (pre @ (n, s) # post) = pre @ post"
proof -
  have "filter (\<lambda>(m, _). m \<noteq> n) xs = xs" if "n \<notin> fst ` set xs" for xs :: "('a \<times> 'b) list"
    using that by (induction xs) auto
  with assms show ?thesis by simp
qed

text \<open>
  The handle of a connected slot removes exactly that slot and keeps the order of the others;
  the handle is dead afterwards and disconnecting it again changes nothing. A handle that outlives
  its signal can be disconnected as well.
\<close>

theorem disconnect_exact:
  assumes "handles_ok w" and "sinks w = pre @ (conn_node c, s) # post" and "conn_valid c"
  shows "\<exists>c' w'. disconnect c w = Done (c', w') \<and> sinks w' = pre @ post
    \<and> \<not> connected c' w' \<and> disconnect c' w' = Done (c', w')
    \<and> disconnect c (destroy_signal w) = Done (c', destroy_signal w)"
  using assms handles_okD(1,2) [OF assms(1)] filter_node [of pre "conn_node c" s post]
  by (auto simp: disconnect_def erase_node_def connected_def destroy_signal_def disconnect_all_def)

theorem disconnect_exact_witness:
  "\<exists>c' w'. disconnect \<lparr>conn_node = 0, conn_valid = True\<rparr> two_listeners = Done (c', w')
    \<and> sinks w' = [(1, Once 0 1)]"
  using disconnect_exact [OF two_listeners_ok, of "[]" "\<lparr>conn_node = 0, conn_valid = True\<rparr>"
      "Listener 0" "[(1, Once 0 1)]"]
  by (auto simp: two_listeners_def event_on_def event_once_def connect_def Let_def sig.defs new_signal_def)

text \<open>
  A handle does not notice when its slot leaves the list in another way. The handle returned by
  \<^verbatim>\<open>once\<close> still reads as connected after the listener has fired, and any handle after
  \<^verbatim>\<open>off_all\<close>; disconnecting it then erases through a dangling iterator.
\<close>

theorem stale_handle_undefined:
  assumes "handles_ok w" and "event_once f w = (c, w1)"
  shows "(\<exists>w2. emit record_call a w1 = Done w2 \<and> connected c w2 \<and> disconnect c w2 = UB)
    \<and> connected c (off_all w1) \<and> disconnect c (off_all w1) = UB"
proof -
  have w1: "sinks w1 = sinks w @ [(conn_node c, Once (next_cell w) f)]" "sig_alive w1" "conn_valid c"
    using assms handles_okD(1) [OF assms(1)] by (auto simp: event_once_def connect_def Let_def)
  have ok: "handles_ok w1" using event_once_ok [OF assms(1), of f] assms(2) by simp
  obtain w2 where w2: "emit record_call a w1 = Done w2" "handles_ok w2"
    "sinks w2 = filter (\<lambda>(_, s). \<not> is_once s) (sinks w1)"
    by (rule emit_record_sinks [OF ok])
  moreover have "conn_node c \<notin> fst ` set (sinks w2)"
    using handles_okD(2) [OF ok] w2(3) w1(1) by force
  ultimately show ?thesis
    using w1 handles_okD(1) [OF w2(2)]
    by (auto simp: connected_def disconnect_def erase_node_def off_all_def disconnect_all_def)
qed

theorem stale_handle_undefined_witness:
  "disconnect \<lparr>conn_node = 2, conn_valid = True\<rparr> (off_all (snd (event_once 3 two_listeners))) = UB"
  using stale_handle_undefined [OF two_listeners_ok, of 3 "\<lparr>conn_node = 2, conn_valid = True\<rparr>"
      "snd (event_once 3 two_listeners)"]
  by (simp add: two_listeners_def event_on_def event_once_def connect_def Let_def sig.defs new_signal_def)

text \<open>Listener 0 emits the event again, once; its emission runs listeners that only record.\<close>

definition reentrant_call :: "nat \<Rightarrow> nat \<Rightarrow> (nat, nat) logged \<Rightarrow> (nat, nat) logged exec" where
  "reentrant_call f a w =
     bind_exec (record_call f a w) (\<lambda>w'. if f = 0 then emit record_call a w' else Done w')"

text \<open>
  A once-listener fires twice when an earlier listener of the same emission emits the event
  again: the inner emission fires and disconnects it, and the outer one calls it from its snapshot.
\<close>

theorem once_reentrant_twice:
  "\<exists>w'. emit reentrant_call 9 two_listeners = Done w' \<and> call_log w' = [(0, 9), (0, 9), (1, 9), (1, 9)]
    \<and> sinks w' = [(0, Listener 0)]"
  by (simp add: two_listeners_def event_on_def event_once_def connect_def Let_def sig.defs new_signal_def
      emit_def snapshot_sinks_def reentrant_call_def record_call_def disconnect_def erase_node_def)

text \<open>An asynchronous emission submits one task per connected slot, in order.\<close>

lemma fold_submit:
  "submitted (fold (\<lambda>s. submit (s, a) pr) ss p) = submitted p @ map (\<lambda>s. (s, a)) ss"
  by (induction ss arbitrary: p) (auto simp: submit_def)

lemma emit_async_submits:
  "submitted (emit_async pr a w p) = submitted p @ map (\<lambda>s. (s, a)) (snapshot_sinks w)"
  by (simp add: emit_async_def fold_submit)

end
