(* ===== verification/Task.thy ===== *)
theory Task
  imports Prelude
begin

text \<open>
  \<^verbatim>\<open>core::task\<close> (core/task.hpp): one dedicated thread that repeats a loop function. Callers and
  loop threads interleave; a step is a critical section on \<^verbatim>\<open>mutex_\<close>, an operation on the
  \<^verbatim>\<open>jthread\<close> member, or the loop function. The threads a task has spawned are kept in a list, each
  with its stop token, and \<open>handle\<close> is the one that \<^verbatim>\<open>thread_\<close> owns.
\<close>

text \<open>
  Where \<^verbatim>\<open>task::run\<close> is: at the loop's test, in the pause gate, at the test after it, in the loop
  function, or returned.
\<close>

datatype loop_pc = Top | Gate | Check | Body | Ended

text \<open>
  Where a caller is: outside, in \<^verbatim>\<open>start\<close> before it spawns and before it assigns \<^verbatim>\<open>thread_\<close> (joining
  the thread owned before, if any), in \<^verbatim>\<open>stop\<close> after its critical section and in its join.
\<close>

datatype caller_pc = Idle | Starting | Assigning nat | Replacing nat nat | Stopping | Joining nat

record task =
  running :: bool
  paused :: bool
  threads :: "(loop_pc \<times> bool) list"
  handle :: "nat option"
  callers :: "caller_pc list"
  iterations :: nat

definition make_task :: "nat \<Rightarrow> task" where
  "make_task n = \<lparr>running = False, paused = False, threads = [], handle = None,
     callers = replicate n Idle, iterations = 0\<rparr>"

definition set_caller :: "nat \<Rightarrow> caller_pc \<Rightarrow> task \<Rightarrow> task" where
  "set_caller c pc s = s\<lparr>callers := (callers s)[c := pc]\<rparr>"

definition request_thread_stop :: "nat \<Rightarrow> task \<Rightarrow> task" where
  "request_thread_stop i s = s\<lparr>threads := (threads s)[i := (fst (threads s ! i), True)]\<rparr>"

definition start_lock :: "nat \<Rightarrow> task \<Rightarrow> task" where
  "start_lock c s =
     (if running s then s else set_caller c Starting (s\<lparr>running := True, paused := False\<rparr>))"

definition start_spawn :: "nat \<Rightarrow> task \<Rightarrow> task" where
  "start_spawn c s = set_caller c (Assigning (length (threads s))) (s\<lparr>threads := threads s @ [(Top, False)]\<rparr>)"

definition start_assign :: "nat \<Rightarrow> nat \<Rightarrow> task \<Rightarrow> task" where
  "start_assign c j s =
     (case handle s of None \<Rightarrow> set_caller c Idle (s\<lparr>handle := Some j\<rparr>)
      | Some i \<Rightarrow> set_caller c (Replacing i j) (request_thread_stop i s))"

definition pause :: "task \<Rightarrow> task" where
  "pause s = s\<lparr>paused := True\<rparr>"

definition resume :: "task \<Rightarrow> task" where
  "resume s = s\<lparr>paused := False\<rparr>"

definition stop_lock :: "nat \<Rightarrow> task \<Rightarrow> task" where
  "stop_lock c s =
     (if \<not> running s then s else set_caller c Stopping (s\<lparr>running := False, paused := False\<rparr>))"

definition stop_request :: "nat \<Rightarrow> task \<Rightarrow> task" where
  "stop_request c s =
     (case handle s of None \<Rightarrow> set_caller c Idle s
      | Some i \<Rightarrow> set_caller c (Joining i) (request_thread_stop i s))"

text \<open>One step of \<^verbatim>\<open>task::run\<close>, where it can make one: the gate blocks while paused.\<close>

definition run_step :: "bool \<Rightarrow> bool \<Rightarrow> loop_pc \<Rightarrow> loop_pc option" where
  "run_step is_paused stop_requested pc =
     (case pc of
        Top \<Rightarrow> Some (if stop_requested then Ended else Gate)
      | Gate \<Rightarrow> if \<not> is_paused \<or> stop_requested then Some Check else None
      | Check \<Rightarrow> Some (if stop_requested then Ended else Body)
      | Body \<Rightarrow> Some Top
      | Ended \<Rightarrow> None)"

definition move_thread :: "nat \<Rightarrow> loop_pc \<Rightarrow> task \<Rightarrow> task" where
  "move_thread i pc s =
     s\<lparr>threads := (threads s)[i := (pc, snd (threads s ! i))],
       iterations := iterations s + (if pc = Body then 1 else 0)\<rparr>"

inductive loop_step :: "task \<Rightarrow> task \<Rightarrow> bool" where
  loop: "i < length (threads s) \<Longrightarrow> run_step (paused s) (snd (threads s ! i)) (fst (threads s ! i)) = Some pc \<Longrightarrow>
    loop_step s (move_thread i pc s)"

inductive task_step :: "task \<Rightarrow> task \<Rightarrow> bool" where
  run: "loop_step s t \<Longrightarrow> task_step s t"
| start: "c < length (callers s) \<Longrightarrow> callers s ! c = Idle \<Longrightarrow> task_step s (start_lock c s)"
| spawn: "c < length (callers s) \<Longrightarrow> callers s ! c = Starting \<Longrightarrow> task_step s (start_spawn c s)"
| assign: "c < length (callers s) \<Longrightarrow> callers s ! c = Assigning j \<Longrightarrow> task_step s (start_assign c j s)"
| replace: "c < length (callers s) \<Longrightarrow> callers s ! c = Replacing i j \<Longrightarrow> fst (threads s ! i) = Ended \<Longrightarrow>
    task_step s (set_caller c Idle (s\<lparr>handle := Some j\<rparr>))"
| pause: "c < length (callers s) \<Longrightarrow> callers s ! c = Idle \<Longrightarrow> task_step s (pause s)"
| resume: "c < length (callers s) \<Longrightarrow> callers s ! c = Idle \<Longrightarrow> task_step s (resume s)"
| stop: "c < length (callers s) \<Longrightarrow> callers s ! c = Idle \<Longrightarrow> task_step s (stop_lock c s)"
| request: "c < length (callers s) \<Longrightarrow> callers s ! c = Stopping \<Longrightarrow> task_step s (stop_request c s)"
| joined: "c < length (callers s) \<Longrightarrow> callers s ! c = Joining i \<Longrightarrow> fst (threads s ! i) = Ended \<Longrightarrow>
    task_step s (set_caller c Idle (s\<lparr>handle := None\<rparr>))"

inductive_cases loop_stepE: "loop_step s t"
inductive_cases task_stepE: "task_step s t"

section \<open>A task driven by one caller\<close>

definition live :: "task \<Rightarrow> nat \<Rightarrow> bool" where
  "live s i \<longleftrightarrow> i < length (threads s) \<and> fst (threads s ! i) \<noteq> Ended"

fun caller_inv :: "task \<Rightarrow> caller_pc \<Rightarrow> bool" where
  "caller_inv s Idle \<longleftrightarrow> (if running s then \<exists>j. handle s = Some j \<and> (\<forall>i. live s i \<longrightarrow> i = j)
     else handle s = None \<and> (\<forall>i. \<not> live s i))"
| "caller_inv s Starting \<longleftrightarrow> running s \<and> handle s = None \<and> (\<forall>i. \<not> live s i)"
| "caller_inv s (Assigning j) \<longleftrightarrow> running s \<and> handle s = None \<and> j < length (threads s) \<and> (\<forall>i. live s i \<longrightarrow> i = j)"
| "caller_inv s (Replacing i j) \<longleftrightarrow> False"
| "caller_inv s Stopping \<longleftrightarrow> \<not> running s \<and> \<not> paused s \<and> (\<exists>j. handle s = Some j \<and> (\<forall>i. live s i \<longrightarrow> i = j))"
| "caller_inv s (Joining j) \<longleftrightarrow> \<not> running s \<and> \<not> paused s \<and> handle s = Some j \<and> j < length (threads s)
     \<and> snd (threads s ! j) \<and> (\<forall>i. live s i \<longrightarrow> i = j)"

definition task_inv :: "task \<Rightarrow> bool" where
  "task_inv s \<longleftrightarrow> (\<exists>pc. callers s = [pc] \<and> caller_inv s pc)
     \<and> (\<forall>j. handle s = Some j \<longrightarrow> j < length (threads s))"

lemma live_move:
  "run_step p b (fst (threads s ! i)) = Some pc \<Longrightarrow> live (move_thread i pc s) k \<Longrightarrow> live s k"
  by (cases "k = i") (auto simp: live_def move_thread_def run_step_def)

lemma move_fields [simp]:
  "callers (move_thread i pc s) = callers s" "handle (move_thread i pc s) = handle s"
  "running (move_thread i pc s) = running s" "paused (move_thread i pc s) = paused s"
  "length (threads (move_thread i pc s)) = length (threads s)"
  by (simp_all add: move_thread_def)

lemma move_stop [simp]:
  "i < length (threads s) \<Longrightarrow> snd (threads (move_thread i pc s) ! k) = snd (threads s ! k)"
  by (cases "k = i") (simp_all add: move_thread_def)

lemma loop_inv:
  assumes "loop_step s t" and "task_inv s"
  shows "task_inv t"
  using assms(1)
proof cases
  case (loop i pc)
  obtain c where c: "callers s = [c]" "caller_inv s c" using assms(2) by (auto simp: task_inv_def)
  have "live t k \<Longrightarrow> live s k" for k
    using live_move loop by blast
  then have "caller_inv t c"
    using c(2) loop by (cases c) (auto split: if_splits)
  then show ?thesis using assms(2) c(1) loop(1) by (auto simp: task_inv_def)
qed

lemmas caller_defs = start_lock_def start_spawn_def start_assign_def pause_def resume_def stop_lock_def
  stop_request_def set_caller_def

lemma live_spawn [simp]: "live (s\<lparr>threads := threads s @ [(Top, False)]\<rparr>) i \<longleftrightarrow> live s i \<or> i = length (threads s)"
  by (auto simp: live_def nth_append)

lemma live_request [simp]: "live (request_thread_stop j s) i \<longleftrightarrow> live s i"
  by (cases "i = j") (auto simp: live_def request_thread_stop_def)

lemma live_update [simp]:
  "live (s\<lparr>callers := cs\<rparr>) i = live s i" "live (s\<lparr>handle := h\<rparr>) i = live s i"
  "live (s\<lparr>running := b\<rparr>) i = live s i" "live (s\<lparr>paused := p\<rparr>) i = live s i"
  by (simp_all add: live_def)

lemma request_fields [simp]:
  "callers (request_thread_stop i s) = callers s" "handle (request_thread_stop i s) = handle s"
  "running (request_thread_stop i s) = running s" "paused (request_thread_stop i s) = paused s"
  "length (threads (request_thread_stop i s)) = length (threads s)"
  "i < length (threads s) \<Longrightarrow> snd (threads (request_thread_stop i s) ! i)"
  by (simp_all add: request_thread_stop_def)

lemma caller_step_inv:
  assumes "task_step s t" and "\<not> loop_step s t" and "task_inv s"
  shows "task_inv t"
proof -
  obtain pc where pc: "callers s = [pc]" "caller_inv s pc"
    and h: "\<And>j. handle s = Some j \<Longrightarrow> j < length (threads s)"
    using assms(3) by (auto simp: task_inv_def)
  have ended: "\<not> live s i" if "caller_inv s (Joining j)" "fst (threads s ! j) = Ended" for i j
    using that by (auto simp: live_def)
  from assms(1) show ?thesis
  proof cases
    case (joined c i)
    with pc ended [of i] show ?thesis by (auto simp: task_inv_def caller_defs)
  qed (use assms(2) pc h in \<open>auto simp: task_inv_def caller_defs split: if_splits option.splits\<close>)
qed

interpretation one_caller: invariant "\<lambda>s. s = make_task 1" task_step task_inv
proof
  show "s = make_task 1 \<Longrightarrow> task_inv s" for s
    by (simp add: make_task_def task_inv_def live_def)
  show "task_inv s \<Longrightarrow> task_step s t \<Longrightarrow> task_inv t" for s t
    by (cases "loop_step s t") (auto intro: loop_inv caller_step_inv)
qed

fun pc_rank :: "loop_pc \<Rightarrow> nat" where
  "pc_rank Body = 4"
| "pc_rank Top = 3"
| "pc_rank Gate = 2"
| "pc_rank Check = 1"
| "pc_rank Ended = 0"

text \<open>
  C13: A task driven by one caller runs at most one loop thread at a time; once \<^verbatim>\<open>stop\<close> has returned
  no loop thread is left, paused or not; and while \<^verbatim>\<open>stop\<close> waits, the loop thread is never blocked
  and comes closer to its end with each of its steps, so \<^verbatim>\<open>stop\<close> returns.
\<close>

theorem stop_quiesces:
  assumes "reach (\<lambda>s. s = make_task 1) task_step s"
  shows "(callers s = [Idle] \<and> \<not> running s \<longrightarrow> (\<forall>i < length (threads s). fst (threads s ! i) = Ended))
    \<and> (\<forall>j. callers s = [Joining j] \<longrightarrow> fst (threads s ! j) = Ended \<or>
        (\<exists>pc. run_step (paused s) (snd (threads s ! j)) (fst (threads s ! j)) = Some pc
           \<and> pc_rank pc < pc_rank (fst (threads s ! j))))
    \<and> (\<forall>i k. live s i \<and> live s k \<longrightarrow> i = k)"
proof -
  obtain c where c: "callers s = [c]" "caller_inv s c"
    using one_caller.reach_inv [OF assms] by (auto simp: task_inv_def)
  have "live s i \<Longrightarrow> live s k \<Longrightarrow> i = k" for i k
    using c(2) by (cases c) (auto split: if_splits)
  with c show ?thesis
    by (cases c) (auto simp: run_step_def live_def split: loop_pc.splits)
qed

definition stopped_task :: task where
  "stopped_task = \<lparr>running = False, paused = False, threads = [(Ended, True)], handle = None,
     callers = [Idle], iterations = 0\<rparr>"

lemma stopped_reach: "reach (\<lambda>s. s = make_task 1) task_step stopped_task"
proof -
  let ?a = "start_lock 0 (make_task 1)" let ?b = "start_spawn 0 ?a" let ?c = "start_assign 0 0 ?b"
  let ?d = "stop_lock 0 ?c" let ?e = "stop_request 0 ?d" let ?f = "move_thread 0 Ended ?e"
  let ?g = "set_caller 0 Idle (?f\<lparr>handle := None\<rparr>)"
  note evaluate = make_task_def caller_defs request_thread_stop_def move_thread_def run_step_def
  let ?R = "reach (\<lambda>s. s = make_task 1) task_step"
  have "?R ?a" by (rule reach_step [OF reach_start], rule task_step.start) (simp_all add: evaluate)
  then have "?R ?b" by (rule reach_step, intro task_step.spawn) (simp_all add: evaluate)
  then have "?R ?c" by (rule reach_step, intro task_step.assign) (simp_all add: evaluate)
  then have "?R ?d" by (rule reach_step, intro task_step.stop) (simp_all add: evaluate)
  then have "?R ?e" by (rule reach_step, intro task_step.request) (simp_all add: evaluate)
  then have "?R ?f" by (rule reach_step, intro task_step.run loop_step.loop) (simp_all add: evaluate)
  then have "?R ?g" by (rule reach_step, intro task_step.joined [of 0 _ 0]) (simp_all add: evaluate)
  then show ?thesis by (simp add: evaluate stopped_task_def)
qed

theorem stop_quiesces_witness: "fst (threads stopped_task ! 0) = Ended"
  using stop_quiesces [OF stopped_reach] by (simp add: stopped_task_def)

lemma paused_steps:
  assumes "loop_step\<^sup>*\<^sup>* s t" and "paused s" and "threads s = [(pc, False)]"
  shows "paused t \<and> (\<exists>pc'. threads t = [(pc', False)] \<and>
    iterations t + (if pc' = Check then 1 else 0) = iterations s + (if pc = Check then 1 else 0))"
  using assms(1)
proof (induction rule: rtranclp_induct)
  case base
  then show ?case using assms by simp
next
  case (step u v)
  then obtain pc' where u: "paused u" "threads u = [(pc', False)]"
    "iterations u + (if pc' = Check then 1 else 0) = iterations s + (if pc = Check then 1 else 0)"
    by auto
  with step(2) obtain pc'' where "run_step True False pc' = Some pc''" "v = move_thread 0 pc'' u"
    by (auto elim: loop_stepE)
  with u show ?case
    by (cases pc') (auto simp: move_thread_def run_step_def)
qed

text \<open>
  C35: A paused task starts no iteration, except one for which its loop thread had already passed
  the pause gate; it holds at the gate until it is resumed or stopped.
\<close>

theorem pause_holds:
  assumes "threads s = [(pc, False)]" and "loop_step\<^sup>*\<^sup>* (pause s) t"
  shows "iterations t \<le> iterations s + (if pc = Check then 1 else 0)
    \<and> (threads t = [(Gate, False)] \<longrightarrow> (\<nexists>u. loop_step t u))"
proof -
  have "iterations t \<le> iterations s + (if pc = Check then 1 else 0)" and "paused t"
    using paused_steps [OF assms(2), of pc] assms(1) by (auto simp: pause_def split: if_splits)
  then show ?thesis
    by (auto elim!: loop_stepE simp: run_step_def)
qed

theorem pause_holds_witness:
  "\<nexists>u. loop_step (pause \<lparr>running = True, paused = False, threads = [(Gate, False)], handle = Some 0,
     callers = [Idle], iterations = 3\<rparr>) u"
  using pause_holds [of "\<lparr>running = True, paused = False, threads = [(Gate, False)], handle = Some 0,
     callers = [Idle], iterations = 3\<rparr>" Gate, OF _ rtranclp.rtrancl_refl]
  by (simp add: pause_def)

section \<open>Two callers\<close>

text \<open>
  With two callers, \<^verbatim>\<open>stop\<close> can run between the critical section of \<^verbatim>\<open>start\<close> and its assignment
  of \<^verbatim>\<open>thread_\<close>: it finds nothing to join and returns, the loop then runs in a task that counts as
  stopped, and further calls of \<^verbatim>\<open>stop\<close>, the destructor's included, do nothing.
\<close>

theorem start_stop_race:
  "\<exists>s. reach (\<lambda>s. s = make_task 2) task_step s \<and> callers s = [Idle, Idle] \<and> \<not> running s
    \<and> threads s = [(Body, False)] \<and> (\<forall>c. stop_lock c s = s)"
proof -
  let ?a = "start_lock 0 (make_task 2)" let ?b = "stop_lock 1 ?a" let ?c = "stop_request 1 ?b"
  let ?d = "start_spawn 0 ?c" let ?e = "start_assign 0 0 ?d"
  let ?f = "move_thread 0 Gate ?e" let ?g = "move_thread 0 Check ?f" let ?h = "move_thread 0 Body ?g"
  note evaluate = make_task_def caller_defs request_thread_stop_def move_thread_def eval_nat_numeral run_step_def
  let ?R = "reach (\<lambda>s. s = make_task 2) task_step"
  have "?R ?a" by (rule reach_step [OF reach_start], rule task_step.start) (simp_all add: evaluate)
  then have "?R ?b" by (rule reach_step, intro task_step.stop) (simp_all add: evaluate)
  then have "?R ?c" by (rule reach_step, intro task_step.request) (simp_all add: evaluate)
  then have "?R ?d" by (rule reach_step, intro task_step.spawn) (simp_all add: evaluate)
  then have "?R ?e" by (rule reach_step, intro task_step.assign) (simp_all add: evaluate)
  then have "?R ?f" by (rule reach_step, intro task_step.run loop_step.loop) (simp_all add: evaluate)
  then have "?R ?g" by (rule reach_step, intro task_step.run loop_step.loop) (simp_all add: evaluate)
  then have "?R ?h" by (rule reach_step, intro task_step.run loop_step.loop) (simp_all add: evaluate)
  then show ?thesis by (intro exI [of _ ?h]) (simp add: evaluate)
qed

end
