(* ===== verification/Descriptor.thy ===== *)
theory Descriptor
  imports Prelude "HOL-Library.Multiset"
begin

text \<open>
  \<^verbatim>\<open>core::descriptor\<close>: the owner of one operating-system handle (core/descriptor.hpp) with its two
  backends (core/impl/posix/descriptor.hpp, core/impl/standalone/descriptor.hpp). Operations return
  the handles they hand to \<^verbatim>\<open>::close\<close>, in order, next to the owners they leave behind.
\<close>

section \<open>POSIX backend\<close>

record descriptor = owned_fd :: int

definition invalid_handle :: int where
  "invalid_handle = -1"

definition null_descriptor :: descriptor where
  "null_descriptor = \<lparr>owned_fd = invalid_handle\<rparr>"

definition adopt :: "int \<Rightarrow> descriptor" where
  "adopt fd = \<lparr>owned_fd = fd\<rparr>"

definition valid :: "descriptor \<Rightarrow> bool" where
  "valid d \<longleftrightarrow> owned_fd d \<ge> 0"

definition native :: "descriptor \<Rightarrow> int" where
  "native d = owned_fd d"

definition release :: "descriptor \<Rightarrow> int \<times> descriptor" where
  "release d = (owned_fd d, d\<lparr>owned_fd := invalid_handle\<rparr>)"

definition reset :: "descriptor \<Rightarrow> descriptor \<times> int list" where
  "reset d = (if owned_fd d \<ge> 0 then (d\<lparr>owned_fd := invalid_handle\<rparr>, [owned_fd d]) else (d, []))"

definition move_construct :: "descriptor \<Rightarrow> descriptor \<times> descriptor" where
  "move_construct other = (let (h, other') = release other in (\<lparr>owned_fd = h\<rparr>, other'))"

text \<open>Move assignment between distinct objects; assigning an object to itself changes nothing.\<close>

definition move_assign :: "descriptor \<Rightarrow> descriptor \<Rightarrow> descriptor \<times> descriptor \<times> int list" where
  "move_assign self other =
     (let (self', closed) = reset self; (h, other') = release other in (self'\<lparr>owned_fd := h\<rparr>, other', closed))"

text \<open>\<open>n\<close> and \<open>err\<close> are what \<^verbatim>\<open>::read\<close> or \<^verbatim>\<open>::write\<close> returned, and \<^verbatim>\<open>errno\<close>.\<close>

record io_result =
  io_count :: int
  io_error :: nat

definition rw_result :: "int \<Rightarrow> nat \<Rightarrow> io_result" where
  "rw_result n err = (if n < 0 then \<lparr>io_count = -1, io_error = err\<rparr> else \<lparr>io_count = n, io_error = 0\<rparr>)"

text \<open>Error numbers are the host's: both names of the would-block condition are 11 on Linux.\<close>

definition EAGAIN :: nat where
  "EAGAIN = 11"

definition EWOULDBLOCK :: nat where
  "EWOULDBLOCK = 11"

definition would_block :: "nat \<Rightarrow> bool" where
  "would_block e \<longleftrightarrow> e = EWOULDBLOCK \<or> e = EAGAIN"

section \<open>Standalone backend\<close>

record sa_descriptor = owned_handle :: u64

definition sa_invalid :: u64 where
  "sa_invalid = 0"

definition sa_adopt :: "u64 \<Rightarrow> sa_descriptor" where
  "sa_adopt h = \<lparr>owned_handle = h\<rparr>"

definition sa_valid :: "sa_descriptor \<Rightarrow> bool" where
  "sa_valid d \<longleftrightarrow> owned_handle d \<noteq> sa_invalid"

definition sa_native :: "sa_descriptor \<Rightarrow> u64" where
  "sa_native d = owned_handle d"

definition sa_release :: "sa_descriptor \<Rightarrow> u64 \<times> sa_descriptor" where
  "sa_release d = (owned_handle d, d\<lparr>owned_handle := sa_invalid\<rparr>)"

text \<open>There is no kernel to return a handle to: the handles listed are those given up.\<close>

definition sa_reset :: "sa_descriptor \<Rightarrow> sa_descriptor \<times> u64 list" where
  "sa_reset d = (d\<lparr>owned_handle := sa_invalid\<rparr>, if sa_valid d then [owned_handle d] else [])"

definition sa_move_assign ::
  "sa_descriptor \<Rightarrow> sa_descriptor \<Rightarrow> sa_descriptor \<times> sa_descriptor \<times> u64 list" where
  "sa_move_assign self other =
     (let (h, other') = sa_release other in (self\<lparr>owned_handle := h\<rparr>, other', if sa_valid self then [owned_handle self] else []))"

section \<open>The backend contract\<close>

text \<open>
  A program that uses owners holds them in variables: it adopts handles, assigns one variable to
  another, closes, and releases.
\<close>

datatype 'h owner_op = Adopt nat 'h | Assign nat nat | Close nat | Release nat

text \<open>\<open>adopted\<close>, \<open>gone\<close> and \<open>released\<close> list the handles taken in, given up and handed back.\<close>

record ('d, 'h) owners =
  vars :: "'d list"
  adopted :: "'h list"
  gone :: "'h list"
  released :: "'h list"

definition owned :: "('d \<Rightarrow> bool) \<Rightarrow> ('d \<Rightarrow> 'h) \<Rightarrow> 'd \<Rightarrow> 'h list" where
  "owned vld nat_h d = (if vld d then [nat_h d] else [])"

fun owner_step ::
  "('d \<Rightarrow> bool) \<Rightarrow> ('d \<Rightarrow> 'h) \<Rightarrow> ('h \<Rightarrow> 'd) \<Rightarrow> ('d \<Rightarrow> 'd \<Rightarrow> 'd \<times> 'd \<times> 'h list) \<Rightarrow> ('d \<Rightarrow> 'd \<times> 'h list) \<Rightarrow>
   ('d \<Rightarrow> 'h \<times> 'd) \<Rightarrow> 'h owner_op \<Rightarrow> ('d, 'h) owners \<Rightarrow> ('d, 'h) owners" where
  "owner_step vld nat_h mk asg cls rel (Adopt i h) s =
     (if i < length (vars s) then
        let (d, _, xs) = asg (vars s ! i) (mk h) in
        s\<lparr>vars := (vars s)[i := d], gone := gone s @ xs, adopted := adopted s @ owned vld nat_h (mk h)\<rparr>
      else s)"
| "owner_step vld nat_h mk asg cls rel (Assign i j) s =
     (if i < length (vars s) \<and> j < length (vars s) \<and> i \<noteq> j then
        let (d, e, xs) = asg (vars s ! i) (vars s ! j) in
        s\<lparr>vars := (vars s)[i := d, j := e], gone := gone s @ xs\<rparr>
      else s)"
| "owner_step vld nat_h mk asg cls rel (Close i) s =
     (if i < length (vars s) then
        let (d, xs) = cls (vars s ! i) in s\<lparr>vars := (vars s)[i := d], gone := gone s @ xs\<rparr>
      else s)"
| "owner_step vld nat_h mk asg cls rel (Release i) s =
     (if i < length (vars s) then
        let (h, d) = rel (vars s ! i) in
        s\<lparr>vars := (vars s)[i := d], released := released s @ (if vld (vars s ! i) then [h] else [])\<rparr>
      else s)"

lemma mset_exchange: "a + x = b + h \<Longrightarrow> b + y = x \<Longrightarrow> h = a + y" for a :: "'h multiset"
  by (metis add.left_commute add_left_cancel)

locale descriptor_backend =
  fixes vld :: "'d \<Rightarrow> bool" and nat_h :: "'d \<Rightarrow> 'h" and mk :: "'h \<Rightarrow> 'd"
    and asg :: "'d \<Rightarrow> 'd \<Rightarrow> 'd \<times> 'd \<times> 'h list" and cls :: "'d \<Rightarrow> 'd \<times> 'h list" and rel :: "'d \<Rightarrow> 'h \<times> 'd"
  assumes native_adopt: "nat_h (mk h) = h"
    and assign_owned: "asg d e = (d', e', xs) \<Longrightarrow>
      owned vld nat_h d' = owned vld nat_h e \<and> \<not> vld e' \<and> xs = owned vld nat_h d"
    and close_owned: "cls d = (d', xs) \<Longrightarrow> \<not> vld d' \<and> xs = owned vld nat_h d"
    and release_owned: "rel d = (h, d') \<Longrightarrow> \<not> vld d' \<and> h = nat_h d"
begin

abbreviation held :: "'d list \<Rightarrow> 'h multiset" where
  "held ds \<equiv> mset (concat (map (owned vld nat_h) ds))"

definition balanced :: "('d, 'h) owners \<Rightarrow> bool" where
  "balanced s \<longleftrightarrow> mset (adopted s) = held (vars s) + mset (gone s) + mset (released s)"

lemma held_update:
  "i < length ds \<Longrightarrow> held (ds[i := d]) + mset (owned vld nat_h (ds ! i)) = held ds + mset (owned vld nat_h d)"
  by (induction ds arbitrary: i) (auto split: nat.splits simp: ac_simps)

lemma step_balanced:
  assumes "balanced s"
  shows "balanced (owner_step vld nat_h mk asg cls rel op s)"
proof (cases op)
  case (Adopt i h)
  obtain d e xs where a: "asg (vars s ! i) (mk h) = (d, e, xs)" by (metis surj_pair)
  show ?thesis
    using assms held_update [of i "vars s" d] assign_owned [OF a] a
    by (auto simp: Adopt balanced_def ac_simps)
next
  case (Assign i j)
  obtain d e xs where a: "asg (vars s ! i) (vars s ! j) = (d, e, xs)" by (metis surj_pair)
  have "owned vld nat_h e = []" using assign_owned [OF a] by (simp add: owned_def)
  then show ?thesis
    using assms held_update [of i "vars s" d] held_update [of j "(vars s)[i := d]" e] assign_owned [OF a] a
    by (auto simp: Assign balanced_def ac_simps dest: mset_exchange)
next
  case (Close i)
  obtain d xs where a: "cls (vars s ! i) = (d, xs)" by (metis surj_pair)
  show ?thesis
    using assms held_update [of i "vars s" d] close_owned [OF a] a
    by (auto simp: Close balanced_def owned_def ac_simps)
next
  case (Release i)
  obtain h d where a: "rel (vars s ! i) = (h, d)" by (metis surj_pair)
  show ?thesis
    using assms held_update [of i "vars s" d] release_owned [OF a] a
    by (auto simp: Release balanced_def owned_def ac_simps)
qed

lemma run_balanced: "balanced s \<Longrightarrow> balanced (fold (owner_step vld nat_h mk asg cls rel) ops s)"
  by (induction ops arbitrary: s) (auto intro: step_balanced)

end

interpretation posix: descriptor_backend valid native adopt move_assign reset release
  by unfold_locales
    (auto simp: owned_def valid_def native_def adopt_def move_assign_def reset_def release_def
      invalid_handle_def Let_def split: if_splits)

interpretation standalone: descriptor_backend sa_valid sa_native sa_adopt sa_move_assign sa_reset sa_release
  by unfold_locales
    (auto simp: owned_def sa_valid_def sa_native_def sa_adopt_def sa_move_assign_def sa_reset_def
      sa_release_def sa_invalid_def Let_def split: if_splits)

definition no_owners :: "'d \<Rightarrow> nat \<Rightarrow> ('d, 'h) owners" where
  "no_owners null n = \<lparr>vars = replicate n null, adopted = [], gone = [], released = []\<rparr>"

definition posix_run :: "nat \<Rightarrow> int owner_op list \<Rightarrow> (descriptor, int) owners" where
  "posix_run n ops =
     fold (owner_step valid native adopt move_assign reset release) ops (no_owners null_descriptor n)"

abbreviation held_fds :: "(descriptor, int) owners \<Rightarrow> int list" where
  "held_fds s \<equiv> concat (map (owned valid native) (vars s))"

text \<open>
  C28: Descriptors neither leak nor close twice. After any sequence of adoptions, move assignments,
  closes and releases, every handle adopted is held by exactly one owner, was passed to
  \<^verbatim>\<open>::close\<close> exactly once, or was released; if the kernel never gave out a handle twice, no handle
  was closed twice and none that is still held was closed.
\<close>

theorem descriptor_ownership:
  "mset (adopted (posix_run n ops)) =
     mset (held_fds (posix_run n ops)) + mset (gone (posix_run n ops)) + mset (released (posix_run n ops))
   \<and> (distinct (adopted (posix_run n ops)) \<longrightarrow> distinct (gone (posix_run n ops))
        \<and> set (gone (posix_run n ops)) \<inter> set (held_fds (posix_run n ops)) = {})"
proof -
  let ?s = "posix_run n ops" let ?all = "held_fds ?s @ gone ?s @ released ?s"
  have "posix.balanced (no_owners null_descriptor n)"
    by (simp add: posix.balanced_def no_owners_def owned_def valid_def null_descriptor_def invalid_handle_def)
  then have eq: "mset (adopted ?s) = mset ?all"
    unfolding posix_run_def using posix.run_balanced by (simp add: posix.balanced_def)
  then have "distinct (adopted ?s) \<Longrightarrow> distinct ?all"
    by (metis mset_eq_imp_distinct_iff)
  with eq show ?thesis by auto
qed

theorem descriptor_ownership_witness:
  "gone (posix_run 2 [Adopt 0 7, Adopt 1 8, Assign 0 1, Close 0, Close 1]) = [7, 8]
   \<and> distinct (gone (posix_run 2 [Adopt 0 7, Adopt 1 8, Assign 0 1, Close 0, Close 1]))"
  using descriptor_ownership [of 2 "[Adopt 0 7, Adopt 1 8, Assign 0 1, Close 0, Close 1]"]
  by (simp add: posix_run_def no_owners_def null_descriptor_def invalid_handle_def owned_def valid_def
      native_def adopt_def move_assign_def reset_def release_def eval_nat_numeral)

end
