(* ===== verification/Poller.thy ===== *)
theory Poller
  imports Descriptor
begin

text \<open>
  \<^verbatim>\<open>core::poller\<close>: readiness of many handles and the wake channel of the loop (core/poller.hpp,
  core/poller_events.hpp), with the backends core/impl/posix/poller.hpp and
  core/impl/standalone/poller.hpp. The system call \<^verbatim>\<open>poll(2)\<close> is the argument \<open>poll\<close> of the wait
  operation; the wake channel, an eventfd, is its 64-bit counter.
\<close>

unbundle bit_operations_syntax

section \<open>Vocabulary\<close>

type_synonym interest = "32 word"

definition interest_none :: interest where
  "interest_none = 0"

definition interest_read :: interest where
  "interest_read = 1"

definition interest_write :: interest where
  "interest_write = 2"

definition interest_or :: "interest \<Rightarrow> interest \<Rightarrow> interest" where
  "interest_or a b = a OR b"

definition has :: "interest \<Rightarrow> interest \<Rightarrow> bool" where
  "has is i \<longleftrightarrow> (is AND i) \<noteq> 0"

record ready =
  readable :: bool
  writable :: bool
  error :: bool
  hangup :: bool

record 'h pevent =
  ev_handle :: 'h
  ev_what :: ready

section \<open>POSIX backend\<close>

definition POLLIN :: u16 where "POLLIN = 1"
definition POLLOUT :: u16 where "POLLOUT = 4"
definition POLLERR :: u16 where "POLLERR = 8"
definition POLLHUP :: u16 where "POLLHUP = 16"
definition POLLNVAL :: u16 where "POLLNVAL = 32"

lemmas poll_flags = POLLIN_def POLLOUT_def POLLERR_def POLLHUP_def POLLNVAL_def

definition to_poll_mask :: "interest \<Rightarrow> u16" where
  "to_poll_mask i =
     (let m = 0;
          m = (if has i interest_read then m OR POLLIN else m);
          m = (if has i interest_write then m OR POLLOUT else m)
      in m)"

record poller =
  wake_fd :: int
  wake_count :: nat
  fds :: "(int \<times> u16) list"

definition make_poller :: "int \<Rightarrow> poller" where
  "make_poller fd = \<lparr>wake_fd = fd, wake_count = 0, fds = []\<rparr>"

text \<open>The destructor closes the eventfd, if there is one; the result is what it closes.\<close>

definition poller_destroy :: "poller \<Rightarrow> int list" where
  "poller_destroy p = (if wake_fd p \<ge> 0 then [wake_fd p] else [])"

definition set_mask :: "int \<Rightarrow> u16 \<Rightarrow> poller \<Rightarrow> poller" where
  "set_mask fd bits p = p\<lparr>fds := map_put fd bits (fds p)\<rparr>"

definition set_if_present :: "int \<Rightarrow> u16 \<Rightarrow> poller \<Rightarrow> poller" where
  "set_if_present fd bits p = (if map_of (fds p) fd \<noteq> None then p\<lparr>fds := map_put fd bits (fds p)\<rparr> else p)"

definition erase_fd :: "int \<Rightarrow> poller \<Rightarrow> poller" where
  "erase_fd fd p = p\<lparr>fds := map_erase fd (fds p)\<rparr>"

text \<open>
  The result of the write is not looked at: it fails, and changes nothing, if the constructor got no
  eventfd or if the counter would pass \<open>2 ^ 64 - 2\<close>.
\<close>

definition poke :: "poller \<Rightarrow> poller" where
  "poke p = (if 0 \<le> wake_fd p \<and> wake_count p + 1 \<le> 2 ^ 64 - 2 then p\<lparr>wake_count := wake_count p + 1\<rparr> else p)"

definition eventfd_read :: "nat \<Rightarrow> int \<times> nat" where
  "eventfd_read cnt = (if cnt > 0 then (8, 0) else (-1, cnt))"

function drain_wake :: "nat \<Rightarrow> nat" where
  "drain_wake cnt = (let (n, cnt') = eventfd_read cnt in if n > 0 then drain_wake cnt' else cnt')"
  by pat_completeness auto

termination
  by (relation "measure id") (auto simp: eventfd_read_def split: if_splits)

declare drain_wake.simps [simp del]

text \<open>The events of the wake channel, which is polled first, and those of the watched handles.\<close>

datatype poll_outcome = Poll_eintr | Poll_error | Poll_ready u16 "u16 list"

type_synonym poll_call = "(int \<times> u16) list \<Rightarrow> int \<Rightarrow> poll_outcome"

definition poll_set :: "poller \<Rightarrow> (int \<times> u16) list" where
  "poll_set p = (wake_fd p, POLLIN) # fds p"

text \<open>The count of milliseconds is a 64-bit integer, the argument of \<^verbatim>\<open>poll(2)\<close> a 32-bit one.\<close>

definition timeout_arg :: "int option \<Rightarrow> int" where
  "timeout_arg timeout = (case timeout of Some t \<Rightarrow> sint (word_of_int t :: 32 word) | None \<Rightarrow> -1)"

definition to_ready :: "u16 \<Rightarrow> ready" where
  "to_ready re = \<lparr>readable = (re AND POLLIN) \<noteq> 0, writable = (re AND POLLOUT) \<noteq> 0,
     error = (re AND POLLERR) \<noteq> 0, hangup = (re AND POLLHUP) \<noteq> 0\<rparr>"

fun collect :: "(int \<times> u16) list \<Rightarrow> u16 list \<Rightarrow> int pevent list" where
  "collect ((fd, _) # pfds) (re # res) =
     (if re = 0 then collect pfds res else \<lparr>ev_handle = fd, ev_what = to_ready re\<rparr> # collect pfds res)"
| "collect _ _ = []"

definition poller_run ::
  "poll_call \<Rightarrow> poller \<Rightarrow> int pevent list \<Rightarrow> int option \<Rightarrow> int \<times> poller \<times> int pevent list" where
  "poller_run poll p out timeout =
     (case poll (poll_set p) (timeout_arg timeout) of
        Poll_eintr \<Rightarrow> (0, p, out)
      | Poll_error \<Rightarrow> (-1, p, out)
      | Poll_ready wake_re res \<Rightarrow>
          let p' = (if (wake_re AND POLLIN) \<noteq> 0 then p\<lparr>wake_count := drain_wake (wake_count p)\<rparr> else p);
              out' = collect (fds p) res
          in (int (length out'), p', out'))"

definition add :: "int \<Rightarrow> interest \<Rightarrow> poller \<Rightarrow> poller" where
  "add h i p = poke (set_mask h (to_poll_mask i) p)"

definition update :: "int \<Rightarrow> interest \<Rightarrow> poller \<Rightarrow> poller" where
  "update h i p = poke (set_if_present h (to_poll_mask i) p)"

definition drop_fd :: "int \<Rightarrow> poller \<Rightarrow> poller" where
  "drop_fd h p = poke (erase_fd h p)"

definition interrupt :: "poller \<Rightarrow> poller" where
  "interrupt p = poke p"

section \<open>Standalone backend\<close>

record sa_poller =
  poked :: bool
  sa_fds :: "(u64 \<times> interest) list"

definition make_sa_poller :: sa_poller where
  "make_sa_poller = \<lparr>poked = False, sa_fds = []\<rparr>"

definition sa_interrupt :: "sa_poller \<Rightarrow> sa_poller" where
  "sa_interrupt p = p\<lparr>poked := True\<rparr>"

definition sa_add :: "u64 \<Rightarrow> interest \<Rightarrow> sa_poller \<Rightarrow> sa_poller" where
  "sa_add h i p = sa_interrupt (p\<lparr>sa_fds := map_put h i (sa_fds p)\<rparr>)"

definition sa_update :: "u64 \<Rightarrow> interest \<Rightarrow> sa_poller \<Rightarrow> sa_poller" where
  "sa_update h i p =
     sa_interrupt (if map_of (sa_fds p) h \<noteq> None then p\<lparr>sa_fds := map_put h i (sa_fds p)\<rparr> else p)"

definition sa_drop :: "u64 \<Rightarrow> sa_poller \<Rightarrow> sa_poller" where
  "sa_drop h p = sa_interrupt (p\<lparr>sa_fds := map_erase h (sa_fds p)\<rparr>)"

text \<open>\<open>expired\<close>: the timeout ran out first. The wait blocks, i.e. gives nothing, until then or a poke.\<close>

definition sa_wait :: "bool \<Rightarrow> sa_poller \<Rightarrow> u64 pevent list \<Rightarrow> (int \<times> sa_poller \<times> u64 pevent list) option" where
  "sa_wait expired p out = (if poked p \<or> expired then Some (0, p\<lparr>poked := False\<rparr>, []) else None)"

section \<open>The backend contract\<close>

text \<open>
  What the event loop relies on: the registered interests are a map changed by \<^verbatim>\<open>add\<close>, \<^verbatim>\<open>update\<close>
  and \<^verbatim>\<open>drop\<close>, and each of these, like \<^verbatim>\<open>interrupt\<close>, leaves the wake channel signalled so that a
  blocked wait returns, if there is a wake channel. \<open>repr\<close> is how the backend stores an interest.
\<close>

locale poller_backend =
  fixes interests :: "'p \<Rightarrow> 'h \<rightharpoonup> 'm" and wakeable :: "'p \<Rightarrow> bool" and woken :: "'p \<Rightarrow> bool"
    and repr :: "interest \<Rightarrow> 'm"
    and p_add :: "'h \<Rightarrow> interest \<Rightarrow> 'p \<Rightarrow> 'p" and p_update :: "'h \<Rightarrow> interest \<Rightarrow> 'p \<Rightarrow> 'p"
    and p_drop :: "'h \<Rightarrow> 'p \<Rightarrow> 'p" and p_interrupt :: "'p \<Rightarrow> 'p"
  assumes interests_add: "interests (p_add h i p) = (interests p)(h \<mapsto> repr i)"
    and interests_update: "interests (p_update h i p) =
      (if interests p h = None then interests p else (interests p)(h \<mapsto> repr i))"
    and interests_drop: "interests (p_drop h p) = (interests p)(h := None)"
    and interests_interrupt: "interests (p_interrupt p) = interests p"
    and wakes: "wakeable p \<Longrightarrow> woken (p_add h i p)" "wakeable p \<Longrightarrow> woken (p_update h i p)"
      "wakeable p \<Longrightarrow> woken (p_drop h p)" "wakeable p \<Longrightarrow> woken (p_interrupt p)"
begin

text \<open>The poller agrees with a table of watches kept beside it.\<close>

definition agrees :: "('h \<rightharpoonup> interest) \<Rightarrow> 'p \<Rightarrow> bool" where
  "agrees table p \<longleftrightarrow> interests p = map_option repr \<circ> table"

lemma agrees_add: "agrees table p \<Longrightarrow> agrees (table(h \<mapsto> i)) (p_add h i p)"
  by (auto simp: agrees_def interests_add)

lemma agrees_update: "agrees table p \<Longrightarrow> table h \<noteq> None \<Longrightarrow> agrees (table(h \<mapsto> i)) (p_update h i p)"
  by (auto simp: agrees_def interests_update)

lemma agrees_drop: "agrees table p \<Longrightarrow> agrees (table(h := None)) (p_drop h p)"
  by (auto simp: agrees_def interests_drop)

lemma agrees_interrupt: "agrees table p \<Longrightarrow> agrees table (p_interrupt p)"
  by (simp add: agrees_def interests_interrupt)

end

lemma poke_fields [simp]:
  "fds (poke p) = fds p" "wake_fd (poke p) = wake_fd p" "0 \<le> wake_fd p \<Longrightarrow> wake_count (poke p) > 0"
  by (auto simp: poke_def)

lemmas poller_defs = add_def update_def drop_fd_def interrupt_def set_mask_def set_if_present_def erase_fd_def

interpretation posix_poller: poller_backend "\<lambda>p. map_of (fds p)" "\<lambda>p. 0 \<le> wake_fd p" "\<lambda>p. wake_count p > 0"
  to_poll_mask
  add update drop_fd interrupt
  by unfold_locales (auto simp: poller_defs)

interpretation standalone_poller: poller_backend "\<lambda>p. map_of (sa_fds p)" "\<lambda>_. True" poked id
  sa_add sa_update sa_drop sa_interrupt
  by unfold_locales (auto simp: sa_add_def sa_update_def sa_drop_def sa_interrupt_def)

section \<open>Waiting\<close>

lemma drain_wake_zero [simp]: "drain_wake n = 0"
  by (induction n rule: drain_wake.induct) (subst drain_wake.simps, auto simp: eventfd_read_def split: if_splits)

text \<open>
  The documented behaviour of \<^verbatim>\<open>poll(2)\<close>: one result per entry, which has only the requested
  events and the three that need no request.
\<close>

definition poll_contract :: "poll_call \<Rightarrow> bool" where
  "poll_contract poll \<longleftrightarrow> (\<forall>w pfds ms re res. poll (w # pfds) ms = Poll_ready re res \<longrightarrow>
     list_all2 (\<lambda>(_, bits) r. (r AND NOT (bits OR POLLERR OR POLLHUP OR POLLNVAL)) = 0) pfds res)"

lemma and_flag: "(r AND POLLIN) \<noteq> 0 \<longleftrightarrow> bit r 0" "(r AND POLLOUT) \<noteq> 0 \<longleftrightarrow> bit r 2"
  using bit_iff_and_push_bit_not_eq_0 [of r 0] bit_iff_and_push_bit_not_eq_0 [of r 2]
  by (simp_all add: poll_flags)

lemma requested_only:
  assumes "(r AND NOT (bits OR POLLERR OR POLLHUP OR POLLNVAL)) = 0"
  shows "bit r 0 \<Longrightarrow> bit bits 0" and "bit r 2 \<Longrightarrow> bit bits 2"
proof -
  have "\<not> bit (r AND NOT (bits OR POLLERR OR POLLHUP OR POLLNVAL)) n" for n
    using assms by simp
  from this [of 0] this [of 2] show "bit r 0 \<Longrightarrow> bit bits 0" and "bit r 2 \<Longrightarrow> bit bits 2"
    by (auto simp: bit_simps poll_flags)
qed

lemma collect_eq:
  "length pfds = length res \<Longrightarrow> collect pfds res =
     map (\<lambda>((fd, _), r). \<lparr>ev_handle = fd, ev_what = to_ready r\<rparr>) (filter (\<lambda>(_, r). r \<noteq> 0) (zip pfds res))"
  by (induction pfds res rule: list_induct2) auto

lemma sorted_collect:
  assumes "map_wf pfds" and "length pfds = length res"
  shows "sorted_wrt (<) (map ev_handle (collect pfds res))"
proof -
  have "sorted_wrt (\<lambda>x y. fst (fst x) < fst (fst y)) (zip pfds res)"
    using assms by (simp add: sorted_wrt_iff_nth_less)
  then have "sorted_wrt (\<lambda>x y. fst (fst x) < fst (fst y)) (filter (\<lambda>(_, r). r \<noteq> 0) (zip pfds res))"
    by (rule sorted_wrt_filter)
  then show ?thesis
    by (simp add: collect_eq [OF assms(2)] sorted_wrt_map case_prod_unfold)
qed

lemma map_of_wf: "map_wf m \<Longrightarrow> (k, v) \<in> set m \<Longrightarrow> map_of m k = Some v"
  by (simp add: strict_sorted_iff)

text \<open>
  C29: A wait reports exactly the watched handles for which \<^verbatim>\<open>poll\<close> returned an event, once each and
  in increasing order, never its own wake channel; it reports a handle readable or writable only if
  that was asked for, leaves the registrations alone, and clears the wake channel it saw signalled.
\<close>

theorem wait_reports:
  assumes "poll_contract poll" and "map_wf (fds p)"
    and "poll (poll_set p) (timeout_arg t) = Poll_ready re res"
  shows "\<exists>p' evs. poller_run poll p out t = (int (length evs), p', evs) \<and> fds p' = fds p
    \<and> wake_count p' = (if (re AND POLLIN) \<noteq> 0 then 0 else wake_count p)
    \<and> sorted_wrt (<) (map ev_handle evs)
    \<and> set evs = {\<lparr>ev_handle = h, ev_what = to_ready r\<rparr> | h bits r. ((h, bits), r) \<in> set (zip (fds p) res) \<and> r \<noteq> 0}
    \<and> (\<forall>ev \<in> set evs. \<exists>bits. map_of (fds p) (ev_handle ev) = Some bits
        \<and> (readable (ev_what ev) \<longrightarrow> (bits AND POLLIN) \<noteq> 0) \<and> (writable (ev_what ev) \<longrightarrow> (bits AND POLLOUT) \<noteq> 0))"
proof -
  let ?evs = "collect (fds p) res"
  have con: "list_all2 (\<lambda>(_, bits) r. (r AND NOT (bits OR POLLERR OR POLLHUP OR POLLNVAL)) = 0) (fds p) res"
    using assms(1,3) unfolding poll_contract_def poll_set_def by blast
  then have len: "length (fds p) = length res" by (rule list_all2_lengthD)
  have req: "(bit r 0 \<longrightarrow> bit bits 0) \<and> (bit r 2 \<longrightarrow> bit bits 2)" if "((h, bits), r) \<in> set (zip (fds p) res)" for h bits r
    using con that requested_only [of r bits] by (auto simp: list_all2_iff)
  have evs: "set ?evs = {\<lparr>ev_handle = h, ev_what = to_ready r\<rparr> | h bits r. ((h, bits), r) \<in> set (zip (fds p) res) \<and> r \<noteq> 0}"
    by (force simp: collect_eq [OF len])
  have "\<exists>bits. map_of (fds p) (ev_handle ev) = Some bits
      \<and> (readable (ev_what ev) \<longrightarrow> (bits AND POLLIN) \<noteq> 0) \<and> (writable (ev_what ev) \<longrightarrow> (bits AND POLLOUT) \<noteq> 0)"
    if "ev \<in> set ?evs" for ev
  proof -
    from that obtain h bits r where e: "ev = \<lparr>ev_handle = h, ev_what = to_ready r\<rparr>"
      "((h, bits), r) \<in> set (zip (fds p) res)" unfolding evs by blast
    then show ?thesis
      using map_of_wf [OF assms(2) set_zip_leftD [OF e(2)]] req [OF e(2)] by (simp add: to_ready_def and_flag)
  qed
  moreover have "poller_run poll p out t = (int (length ?evs),
      if (re AND POLLIN) \<noteq> 0 then p\<lparr>wake_count := 0\<rparr> else p, ?evs)"
    by (simp add: poller_run_def assms(3) Let_def)
  ultimately show ?thesis
    using sorted_collect [OF assms(2) len] evs
    by (intro exI [of _ "if (re AND POLLIN) \<noteq> 0 then p\<lparr>wake_count := 0\<rparr> else p"] exI [of _ ?evs]) simp
qed

text \<open>A kernel for which every watched handle is ready in all that was asked for.\<close>

definition poll_all_ready :: poll_call where
  "poll_all_ready pfds ms = (case pfds of [] \<Rightarrow> Poll_error | _ # rest \<Rightarrow> Poll_ready 0 (map snd rest))"

lemma poll_all_ready_contract: "poll_contract poll_all_ready"
proof -
  have "(bits AND NOT (bits OR POLLERR OR POLLHUP OR POLLNVAL)) = 0" for bits :: u16
    by (rule bit_eqI) (auto simp: bit_simps)
  then show ?thesis
    unfolding poll_contract_def poll_all_ready_def list_all2_conv_all_nth by (auto simp del: bit.de_Morgan_disj split: prod.splits)
qed

theorem wait_reports_witness:
  "\<exists>p' evs. poller_run poll_all_ready (add 9 interest_write (add 5 interest_read (make_poller 3))) [] None = (2, p', evs)
    \<and> map ev_handle evs = [5, 9]"
  using wait_reports [OF poll_all_ready_contract,
      of "add 9 interest_write (add 5 interest_read (make_poller 3))" None 0 "[POLLIN, POLLOUT]" "[]"]
  by (simp add: poller_defs make_poller_def to_poll_mask_def has_def interest_read_def interest_write_def
      poll_set_def poll_all_ready_def poller_run_def poll_flags)

lemma sint_32: "sint (word_of_int t :: 32 word) = (t + 2 ^ 31) mod 2 ^ 32 - 2 ^ 31"
  by (simp add: int_word_sint)

text \<open>
  The timeout given to \<^verbatim>\<open>poll(2)\<close> is the one asked for exactly when it fits 32 bits; from
  \<open>2 ^ 31\<close> milliseconds, a little under 25 days, to twice that it is negative, which \<^verbatim>\<open>poll(2)\<close> takes
  as no timeout at all.
\<close>

theorem timeout_narrowed:
  "(timeout_arg (Some t) = t \<longleftrightarrow> - (2 ^ 31) \<le> t \<and> t < 2 ^ 31)
   \<and> (2 ^ 31 \<le> t \<and> t < 2 ^ 32 \<longrightarrow> timeout_arg (Some t) < 0)"
proof -
  have "(t + 2 ^ 31) mod 2 ^ 32 = t + 2 ^ 31 \<longleftrightarrow> - (2 ^ 31) \<le> t \<and> t < 2 ^ 31"
    by (auto simp: mod_pos_pos_trivial)
  moreover have "(t + 2 ^ 31) mod 2 ^ 32 = t - 2 ^ 31" if "2 ^ 31 \<le> t" "t < 2 ^ 32"
    using that mod_add_self2 [of "t - 2 ^ 31" "2 ^ 32"] by (simp add: mod_pos_pos_trivial add.commute)
  ultimately show ?thesis
    by (auto simp: timeout_arg_def sint_32)
qed

theorem timeout_narrowed_witness: "timeout_arg (Some 2147483648) < 0"
  using timeout_narrowed [of 2147483648] by simp

end
