(* ===== verification/Event_Loop.thy ===== *)
theory Event_Loop
  imports Poller "HOL-Library.Sublist"
begin

text \<open>
  \<^verbatim>\<open>core::event_loop\<close> (core/event_loop.hpp): watches, deferred functions and timers, run by one loop
  thread, one poller cycle per call of \<^verbatim>\<open>iterate\<close>. Callbacks are tags \<open>'f\<close>; \<open>run_fn\<close> and \<open>run_io\<close> say
  what calling them does to the whole state, so a callback may use the loop it runs on. Points of
  time are integers in nanoseconds; each reading of the clock is an argument. The POSIX poller is
  the one in use.
\<close>

record 'f watch_entry =
  we_events :: interest
  we_cb :: 'f

record 'f timer =
  tm_id :: u64
  tm_when :: int
  tm_fn :: 'f

record 'f event_loop =
  el_poller :: poller
  el_ready :: "int pevent list"
  watches :: "(int \<times> 'f watch_entry) list"
  deferred :: "'f list"
  timers :: "'f timer list"
  next_timer_id :: u64
  started :: bool
  quitting :: bool
  stop_requested :: bool
  task_running :: bool

definition make_loop :: "int \<Rightarrow> 'f event_loop" where
  "make_loop wake = \<lparr>el_poller = make_poller wake, el_ready = [], watches = [], deferred = [], timers = [],
     next_timer_id = 1, started = False, quitting = False, stop_requested = False, task_running = False\<rparr>"

section \<open>Watches\<close>

text \<open>Each operation on a watch is two critical sections, one of the loop and one of the poller.\<close>

definition on_poller :: "(poller \<Rightarrow> poller) \<Rightarrow> ('f, 'z) event_loop_scheme \<Rightarrow> ('f, 'z) event_loop_scheme" where
  "on_poller g s = s\<lparr>el_poller := g (el_poller s)\<rparr>"

definition watch_table ::
  "int \<Rightarrow> interest \<Rightarrow> 'f \<Rightarrow> ('f, 'z) event_loop_scheme \<Rightarrow> ('f, 'z) event_loop_scheme" where
  "watch_table h events cb s = s\<lparr>watches := map_put h \<lparr>we_events = events, we_cb = cb\<rparr> (watches s)\<rparr>"

definition watch ::
  "int \<Rightarrow> interest \<Rightarrow> 'f \<Rightarrow> ('f, 'z) event_loop_scheme \<Rightarrow> ('f, 'z) event_loop_scheme" where
  "watch h events cb s = on_poller (add h events) (watch_table h events cb s)"

definition modify :: "int \<Rightarrow> interest \<Rightarrow> ('f, 'z) event_loop_scheme \<Rightarrow> ('f, 'z) event_loop_scheme" where
  "modify h events s =
     (case map_of (watches s) h of
        None \<Rightarrow> s
      | Some e \<Rightarrow> on_poller (update h events) (s\<lparr>watches := map_put h (e\<lparr>we_events := events\<rparr>) (watches s)\<rparr>))"

definition unwatch_table :: "int \<Rightarrow> ('f, 'z) event_loop_scheme \<Rightarrow> ('f, 'z) event_loop_scheme" where
  "unwatch_table h s = s\<lparr>watches := map_erase h (watches s)\<rparr>"

definition unwatch :: "int \<Rightarrow> ('f, 'z) event_loop_scheme \<Rightarrow> ('f, 'z) event_loop_scheme" where
  "unwatch h s = on_poller (drop_fd h) (unwatch_table h s)"

lemma watch_keys:
  "fst ` set (watches (watch h i f s)) = insert h (fst ` set (watches s))"
  "fst ` set (watches (unwatch h s)) = fst ` set (watches s) - {h}"
  by (simp_all add: watch_def watch_table_def unwatch_def unwatch_table_def on_poller_def)

lemma watch_timers [simp]:
  "timers (watch h i f s) = timers s" "timers (unwatch h s) = timers s"
  "next_timer_id (watch h i f s) = next_timer_id s" "next_timer_id (unwatch h s) = next_timer_id s"
  by (simp_all add: watch_def watch_table_def unwatch_def unwatch_table_def on_poller_def)

lemma modify_keys [simp]: "fst ` set (watches (modify h i s)) = fst ` set (watches s)"
proof (cases "map_of (watches s) h")
  case (Some e)
  then have "h \<in> fst ` set (watches s)" by (metis domI dom_map_of_conv_image_fst)
  with Some show ?thesis by (auto simp: modify_def on_poller_def)
qed (simp add: modify_def)

section \<open>Deferred work and timers\<close>

definition defer_fn :: "'f \<Rightarrow> ('f, 'z) event_loop_scheme \<Rightarrow> ('f, 'z) event_loop_scheme" where
  "defer_fn fn s = on_poller interrupt (s\<lparr>deferred := deferred s @ [fn]\<rparr>)"

definition ns_per_ms :: int where
  "ns_per_ms = 1000000"

definition set_timeout ::
  "int \<Rightarrow> int \<Rightarrow> 'f \<Rightarrow> ('f, 'z) event_loop_scheme \<Rightarrow> u64 \<times> ('f, 'z) event_loop_scheme" where
  "set_timeout now delay fn s =
     (let i = next_timer_id s in
      (i, on_poller interrupt
         (s\<lparr>next_timer_id := i + 1,
           timers := timers s @ [\<lparr>tm_id = i, tm_when = now + delay * ns_per_ms, tm_fn = fn\<rparr>]\<rparr>)))"

definition clear_timeout :: "u64 \<Rightarrow> ('f, 'z) event_loop_scheme \<Rightarrow> ('f, 'z) event_loop_scheme" where
  "clear_timeout i s = s\<lparr>timers := filter (\<lambda>t. tm_id t \<noteq> i) (timers s)\<rparr>"

text \<open>\<^verbatim>\<open>duration_cast\<close> to milliseconds truncates towards zero.\<close>

definition to_ms :: "int \<Rightarrow> int" where
  "to_ms d = (if d \<ge> 0 then d div ns_per_ms else - (- d div ns_per_ms))"

fun soonest :: "int \<Rightarrow> 'f timer list \<Rightarrow> int" where
  "soonest w [] = w"
| "soonest w (t # ts) = soonest (min w (tm_when t)) ts"

definition next_timeout :: "int \<Rightarrow> ('f, 'z) event_loop_scheme \<Rightarrow> int option" where
  "next_timeout now s =
     (if deferred s \<noteq> [] then Some 0
      else if timers s = [] then None
      else let ms = to_ms (soonest (tm_when (hd (timers s))) (timers s) - now)
           in Some (if ms < 0 then 0 else ms))"

fun take_due :: "int \<Rightarrow> 'f timer list \<Rightarrow> 'f list \<times> 'f timer list" where
  "take_due now [] = ([], [])"
| "take_due now (t # ts) =
     (let (due, rest) = take_due now ts in
      if tm_when t \<le> now then (tm_fn t # due, rest) else (due, t # rest))"

definition fire_due_timers ::
  "('f \<Rightarrow> ('f, 'z) event_loop_scheme \<Rightarrow> ('f, 'z) event_loop_scheme) \<Rightarrow> int \<Rightarrow>
   ('f, 'z) event_loop_scheme \<Rightarrow> ('f, 'z) event_loop_scheme" where
  "fire_due_timers run_fn now s =
     (let (due, rest) = take_due now (timers s) in fold run_fn due (s\<lparr>timers := rest\<rparr>))"

section \<open>One cycle\<close>

fun dispatch ::
  "('f \<Rightarrow> ready \<Rightarrow> ('f, 'z) event_loop_scheme \<Rightarrow> ('f, 'z) event_loop_scheme) \<Rightarrow> int pevent list \<Rightarrow>
   ('f, 'z) event_loop_scheme \<Rightarrow> ('f, 'z) event_loop_scheme" where
  "dispatch run_io [] s = s"
| "dispatch run_io (ev # evs) s =
     (if quitting s then s
      else case map_of (watches s) (ev_handle ev) of
        None \<Rightarrow> dispatch run_io evs s
      | Some e \<Rightarrow> dispatch run_io evs (run_io (we_cb e) (ev_what ev) s))"

definition iterate ::
  "poll_call \<Rightarrow> int \<Rightarrow> int \<Rightarrow> ('f \<Rightarrow> ('f, 'z) event_loop_scheme \<Rightarrow> ('f, 'z) event_loop_scheme) \<Rightarrow>
   ('f \<Rightarrow> ready \<Rightarrow> ('f, 'z) event_loop_scheme \<Rightarrow> ('f, 'z) event_loop_scheme) \<Rightarrow>
   ('f, 'z) event_loop_scheme \<Rightarrow> ('f, 'z) event_loop_scheme" where
  "iterate poll now1 now2 run_fn run_io s =
     (if quitting s then s
      else let (n, p, evs) = poller_run poll (el_poller s) (el_ready s) (next_timeout now1 s);
               s = s\<lparr>el_poller := p, el_ready := evs\<rparr>
           in if n < 0 then s
              else let run_now = deferred s;
                       s = fold run_fn run_now (s\<lparr>deferred := []\<rparr>);
                       s = fire_due_timers run_fn now2 s
                   in dispatch run_io evs s)"

lemma dispatch_quit: "quitting s \<Longrightarrow> dispatch run_io evs s = s"
  by (cases evs) auto

section \<open>Lifecycle\<close>

definition loop_start :: "('f, 'z) event_loop_scheme \<Rightarrow> ('f, 'z) event_loop_scheme" where
  "loop_start s = (if started s then s else s\<lparr>started := True, quitting := False, task_running := True\<rparr>)"

text \<open>From another thread than the loop's, so that the join in \<^verbatim>\<open>task::stop\<close> returns.\<close>

definition loop_stop :: "('f, 'z) event_loop_scheme \<Rightarrow> ('f, 'z) event_loop_scheme" where
  "loop_stop s =
     (if \<not> started s then s
      else (on_poller interrupt (s\<lparr>started := False, quitting := True\<rparr>))\<lparr>task_running := False, stop_requested := True\<rparr>)"

text \<open>The destructor stops the loop, then destroys its members.\<close>

definition loop_destroy :: "('f, 'z) event_loop_scheme \<Rightarrow> ('f, 'z) event_loop_scheme \<times> int list" where
  "loop_destroy s = (let s = loop_stop s in (s, poller_destroy (el_poller s)))"

text \<open>\<^verbatim>\<open>run\<close> starts the loop and returns once \<open>stop_requested\<close> holds; \<open>None\<close> while it blocks.\<close>

definition loop_run :: "('f, 'z) event_loop_scheme \<Rightarrow> ('f, 'z) event_loop_scheme option" where
  "loop_run s =
     (let s = loop_start s in if stop_requested s then Some (s\<lparr>stop_requested := False\<rparr>) else None)"

section \<open>Timers\<close>

lemma soonest_Min: "soonest w ts = Min (insert w (tm_when ` set ts))"
proof (induction ts arbitrary: w)
  case (Cons a ts)
  then show ?case by (cases "ts = []") (simp_all add: min.assoc)
qed simp

lemma soonest_le_when: "t \<in> set ts \<Longrightarrow> soonest w ts \<le> tm_when t"
  by (simp add: soonest_Min)

lemma soonest_in: "ts \<noteq> [] \<Longrightarrow> \<exists>t \<in> set ts. tm_when t = soonest (tm_when (hd ts)) ts"
proof -
  assume "ts \<noteq> []"
  then have "Min (tm_when ` set ts) \<in> tm_when ` set ts" by simp
  then obtain t where "Min (tm_when ` set ts) = tm_when t" "t \<in> set ts" by (rule imageE)
  with \<open>ts \<noteq> []\<close> show ?thesis by (auto simp: soonest_Min insert_absorb)
qed

lemma to_ms_bounds: "0 \<le> d \<Longrightarrow> to_ms d * ns_per_ms \<le> d \<and> d < (to_ms d + 1) * ns_per_ms"
  using pos_mod_bound [of 1000000 d] pos_mod_sign [of 1000000 d] div_mult_mod_eq [of d 1000000]
  by (simp add: to_ms_def ns_per_ms_def) presburger

lemma to_ms_neg: "d < 0 \<Longrightarrow> to_ms d \<le> 0"
  by (simp add: to_ms_def ns_per_ms_def)


lemma take_due_eq:
  "take_due now ts = (map tm_fn (filter (\<lambda>t. tm_when t \<le> now) ts), filter (\<lambda>t. \<not> tm_when t \<le> now) ts)"
  by (induction ts) auto

lemma set_then_clear:
  assumes "set_timeout now d f s = (i, s')" and "\<forall>t \<in> set (timers s). tm_id t < next_timer_id s"
  shows "timers (clear_timeout i s') = timers s"
  using assms by (auto simp: set_timeout_def clear_timeout_def on_poller_def Let_def filter_id_conv)
    (metis less_irrefl)

text \<open>What a run of callbacks does, for callbacks that record themselves.\<close>

datatype 'f called = Fn 'f | Io 'f ready

fun io_ready :: "'f called \<Rightarrow> ready option" where
  "io_ready (Io _ r) = Some r"
| "io_ready (Fn _) = None"

record 'f logged_loop = "'f event_loop" + calls :: "'f called list"

definition fn_logs :: "('f \<Rightarrow> ('f, 'z) logged_loop_scheme \<Rightarrow> ('f, 'z) logged_loop_scheme) \<Rightarrow> bool" where
  "fn_logs run_fn \<longleftrightarrow> (\<forall>f s. calls (run_fn f s) = calls s @ [Fn f])"

definition io_logs :: "('f \<Rightarrow> ready \<Rightarrow> ('f, 'z) logged_loop_scheme \<Rightarrow> ('f, 'z) logged_loop_scheme) \<Rightarrow> bool" where
  "io_logs run_io \<longleftrightarrow> (\<forall>f r s. calls (run_io f r s) = calls s @ [Io f r])"

lemma fold_logs: "fn_logs run_fn \<Longrightarrow> calls (fold run_fn fs s) = calls s @ map Fn fs"
  by (induction fs arbitrary: s) (auto simp: fn_logs_def)

lemma fire_logs:
  "fn_logs run_fn \<Longrightarrow> calls (fire_due_timers run_fn now s) =
     calls s @ map (\<lambda>t. Fn (tm_fn t)) (filter (\<lambda>t. tm_when t \<le> now) (timers s))"
  by (simp add: fire_due_timers_def take_due_eq fold_logs comp_def)

lemma dispatch_logs:
  assumes "io_logs run_io"
  shows "\<exists>ios. calls (dispatch run_io evs s) = calls s @ ios
    \<and> subseq (map io_ready ios) (map (\<lambda>ev. Some (ev_what ev)) evs)"
proof (induction evs arbitrary: s)
  case (Cons ev evs)
  show ?case
  proof (cases "quitting s \<or> map_of (watches s) (ev_handle ev) = None")
    case True
    then show ?thesis using Cons [of s] by (auto split: option.splits intro: subseq_Cons')
  next
    case False
    then obtain e where e: "map_of (watches s) (ev_handle ev) = Some e" "\<not> quitting s" by auto
    let ?s = "run_io (we_cb e) (ev_what ev) s"
    obtain ios where ios: "calls (dispatch run_io evs ?s) = calls ?s @ ios"
      "subseq (map io_ready ios) (map (\<lambda>ev. Some (ev_what ev)) evs)"
      using Cons by blast
    then show ?thesis
      using assms e by (intro exI [of _ "Io (we_cb e) (ev_what ev) # ios"]) (simp add: io_logs_def)
  qed
qed simp


text \<open>Callbacks of the witness: function 1 defers function 2; others only record.\<close>

definition demo_fn :: "nat \<Rightarrow> nat logged_loop \<Rightarrow> nat logged_loop" where
  "demo_fn f s = (if f = 1 then defer_fn 2 s else s)\<lparr>calls := calls s @ [Fn f]\<rparr>"

definition demo_io :: "nat \<Rightarrow> ready \<Rightarrow> nat logged_loop \<Rightarrow> nat logged_loop" where
  "demo_io f r s = s\<lparr>calls := calls s @ [Io f r]\<rparr>"

lemma demo_logs: "fn_logs demo_fn" "io_logs demo_io"
  by (simp_all add: fn_logs_def io_logs_def demo_fn_def demo_io_def)

definition demo_loop :: "nat logged_loop" where
  "demo_loop = event_loop.extend (snd (set_timeout 0 5 3 (defer_fn 1 (watch 7 interest_read 4 (make_loop 3))))) \<lparr>calls = []\<rparr>"

lemmas demo_eval = demo_loop_def set_timeout_def defer_fn_def watch_def watch_table_def on_poller_def make_loop_def
  make_poller_def event_loop.defs Let_def poller_defs poke_def to_poll_mask_def has_def interest_read_def
  interest_write_def poll_flags poll_all_ready_def poll_set_def poller_run_def to_ready_def





section \<open>The watch table and the poller\<close>

datatype 'f loop_op =
    Watch int interest 'f
  | Modify int interest
  | Unwatch int
  | Defer 'f
  | Set_timeout int int 'f
  | Clear_timeout u64

fun apply_op :: "'f loop_op \<Rightarrow> ('f, 'z) event_loop_scheme \<Rightarrow> ('f, 'z) event_loop_scheme" where
  "apply_op (Watch h i f) s = watch h i f s"
| "apply_op (Modify h i) s = modify h i s"
| "apply_op (Unwatch h) s = unwatch h s"
| "apply_op (Defer f) s = defer_fn f s"
| "apply_op (Set_timeout now d f) s = snd (set_timeout now d f s)"
| "apply_op (Clear_timeout i) s = clear_timeout i s"

text \<open>
  What a program does with a loop: operations from outside, starts and stops, and cycles of the loop
  thread, whose callbacks again are sequences of operations.
\<close>

datatype 'f loop_act = Op "'f loop_op" | Start | Stop | Cycle poll_call int int

fun perform ::
  "('f \<Rightarrow> 'f loop_op list) \<Rightarrow> ('f \<Rightarrow> ready \<Rightarrow> 'f loop_op list) \<Rightarrow> 'f loop_act \<Rightarrow>
   ('f, 'z) event_loop_scheme \<Rightarrow> ('f, 'z) event_loop_scheme" where
  "perform fn_script io_script (Op op) s = apply_op op s"
| "perform fn_script io_script Start s = loop_start s"
| "perform fn_script io_script Stop s = loop_stop s"
| "perform fn_script io_script (Cycle poll now1 now2) s =
     iterate poll now1 now2 (\<lambda>f. fold apply_op (fn_script f)) (\<lambda>f r. fold apply_op (io_script f r)) s"

definition table :: "('f, 'z) event_loop_scheme \<Rightarrow> int \<rightharpoonup> interest" where
  "table s = map_option we_events \<circ> map_of (watches s)"

definition loop_ok :: "('f, 'z) event_loop_scheme \<Rightarrow> bool" where
  "loop_ok s \<longleftrightarrow> map_wf (watches s) \<and> map_wf (fds (el_poller s)) \<and> posix_poller.agrees (table s) (el_poller s)"

lemma poller_wf [simp]:
  "map_wf (fds p) \<Longrightarrow> map_wf (fds (add h i p))" "map_wf (fds p) \<Longrightarrow> map_wf (fds (update h i p))"
  "map_wf (fds p) \<Longrightarrow> map_wf (fds (drop_fd h p))" "map_wf (fds p) \<Longrightarrow> map_wf (fds (interrupt p))"
  by (auto simp: poller_defs)

lemma table_update:
  "table (s\<lparr>watches := map_put h e (watches s)\<rparr>) = (table s)(h \<mapsto> we_events e)"
  "table (s\<lparr>watches := map_erase h (watches s)\<rparr>) = (table s)(h := None)"
  by (auto simp: table_def)

lemma table_fields [simp]:
  "table (s\<lparr>el_poller := p\<rparr>) = table s" "table (s\<lparr>el_ready := r\<rparr>) = table s"
  "table (s\<lparr>deferred := d\<rparr>) = table s" "table (s\<lparr>timers := t\<rparr>) = table s"
  "table (s\<lparr>next_timer_id := i\<rparr>) = table s" "table (s\<lparr>started := b\<rparr>) = table s"
  "table (s\<lparr>quitting := b\<rparr>) = table s" "table (s\<lparr>stop_requested := b\<rparr>) = table s"
  "table (s\<lparr>task_running := b\<rparr>) = table s"
  by (simp_all add: table_def)

lemma apply_op_ok: "loop_ok s \<Longrightarrow> loop_ok (apply_op op s)"
  by (cases op)
    (auto simp: loop_ok_def watch_def watch_table_def modify_def unwatch_def unwatch_table_def defer_fn_def
      set_timeout_def clear_timeout_def on_poller_def Let_def table_update table_def [of s]
      intro: posix_poller.agrees_add posix_poller.agrees_drop posix_poller.agrees_interrupt
      posix_poller.agrees_update split: option.splits)

text \<open>Work handed to the loop signals its wake channel, so that a blocked wait returns for it.\<close>

lemma ops_wake:
  assumes "0 \<le> wake_fd (el_poller s)"
  shows "wake_count (el_poller (defer_fn f s)) > 0"
    and "wake_count (el_poller (snd (set_timeout now d f s))) > 0"
    and "wake_count (el_poller (watch h i f s)) > 0"
    and "wake_count (el_poller (unwatch h s)) > 0"
  using posix_poller.wakes assms
  by (simp_all add: defer_fn_def set_timeout_def watch_def watch_table_def unwatch_def unwatch_table_def
      on_poller_def Let_def)

lemma fold_ok: "(\<And>x s. loop_ok s \<Longrightarrow> loop_ok (f x s)) \<Longrightarrow> loop_ok s \<Longrightarrow> loop_ok (fold f xs s)"
  by (induction xs arbitrary: s) auto

lemma dispatch_ok: "(\<And>f r s. loop_ok s \<Longrightarrow> loop_ok (run_io f r s)) \<Longrightarrow> loop_ok s \<Longrightarrow> loop_ok (dispatch run_io evs s)"
  by (induction evs arbitrary: s) (auto split: option.splits)

lemma poller_run_fds: "poller_run poll p out t = (n, p', evs) \<Longrightarrow> fds p' = fds p"
  by (auto simp: poller_run_def Let_def split: poll_outcome.splits if_splits)

lemma agrees_fds: "fds p' = fds p \<Longrightarrow> posix_poller.agrees tab p' = posix_poller.agrees tab p"
  by (simp add: posix_poller.agrees_def)

lemma loop_ok_fields [simp]:
  "loop_ok (s\<lparr>deferred := d\<rparr>) = loop_ok s" "loop_ok (s\<lparr>timers := t\<rparr>) = loop_ok s"
  "fds p = fds (el_poller s) \<Longrightarrow> loop_ok (s\<lparr>el_poller := p, el_ready := r\<rparr>) = loop_ok s"
  using agrees_fds [of p "el_poller s" "table s"] by (simp_all add: loop_ok_def)

lemma iterate_ok:
  assumes "\<And>f s. loop_ok s \<Longrightarrow> loop_ok (run_fn f s)" and "\<And>f r s. loop_ok s \<Longrightarrow> loop_ok (run_io f r s)"
    and "loop_ok s"
  shows "loop_ok (iterate poll now1 now2 run_fn run_io s)"
proof -
  obtain n p evs where run: "poller_run poll (el_poller s) (el_ready s) (next_timeout now1 s) = (n, p, evs)"
    by (metis prod_cases3)
  have "loop_ok (s\<lparr>el_poller := p, el_ready := evs\<rparr>)"
    using assms(3) poller_run_fds [OF run] by simp
  then show ?thesis
    using assms(3) by (auto simp: iterate_def run Let_def fire_due_timers_def take_due_eq
        intro!: dispatch_ok fold_ok assms(1,2))
qed

lemma lifecycle_ok: "loop_ok s \<Longrightarrow> loop_ok (loop_start s)" "loop_ok s \<Longrightarrow> loop_ok (loop_stop s)"
  using posix_poller.agrees_interrupt [of "table s" "el_poller s"]
  by (auto simp: loop_start_def loop_stop_def loop_ok_def on_poller_def)

lemma perform_ok: "loop_ok s \<Longrightarrow> loop_ok (perform fn_script io_script act s)"
  by (cases act) (auto intro: apply_op_ok lifecycle_ok intro!: iterate_ok fold_ok)

lemma make_loop_ok: "loop_ok (make_loop wake)"
  by (simp add: loop_ok_def make_loop_def make_poller_def table_def posix_poller.agrees_def fun_eq_iff)

text \<open>
  C11: Whatever a program does with a loop - operations from outside, starts, stops, and cycles with
  callbacks that again use the loop - the poller waits for exactly the watched handles, each with
  the mask of the interest last given for it, as long as the operations do not overlap.
\<close>

theorem poller_follows_watches:
  "map_of (fds (el_poller (fold (perform fn_script io_script) acts (make_loop wake)))) h =
   map_option (\<lambda>e. to_poll_mask (we_events e))
     (map_of (watches (fold (perform fn_script io_script) acts (make_loop wake))) h)"
proof -
  have "loop_ok (fold (perform fn_script io_script) acts (make_loop wake))"
    by (intro fold_ok perform_ok make_loop_ok)
  then show ?thesis
    by (simp add: loop_ok_def posix_poller.agrees_def table_def option.map_comp comp_def)
qed

text \<open>
  Watching from one thread while another stops watching the same handle can leave the poller
  waiting for a handle without a watch: its events then end every wait at once and call nothing.
\<close>

theorem watch_unwatch_race:
  "map_of (watches (on_poller (add h i) (unwatch h (watch_table h i f s)))) h = None
    \<and> map_of (fds (el_poller (on_poller (add h i) (unwatch h (watch_table h i f s))))) h = Some (to_poll_mask i)"
  by (simp add: on_poller_def unwatch_def unwatch_table_def watch_table_def poller_defs)

section \<open>Where the loop departs from its description\<close>

text \<open>
  A wait that is interrupted by a signal returns 0 and leaves the events of the cycle before in
  place; the loop dispatches them again although nothing is ready.
\<close>

theorem interrupted_wait_redispatches:
  assumes "\<not> quitting s" and "poll (poll_set (el_poller s)) (timeout_arg (next_timeout now1 s)) = Poll_eintr"
    and "deferred s = []" and "timers s = []"
  shows "iterate poll now1 now2 run_fn run_io s = dispatch run_io (el_ready s) s"
  using assms by (cases s) (simp add: iterate_def poller_run_def Let_def fire_due_timers_def)

theorem interrupted_wait_redispatches_witness:
  "calls (iterate (\<lambda>_ _. Poll_eintr) 0 0 demo_fn demo_io
     (demo_loop\<lparr>deferred := [], timers := [], el_ready := [\<lparr>ev_handle = 7, ev_what = to_ready 1\<rparr>]\<rparr>))
   = [Io 4 (to_ready 1)]"
  using interrupted_wait_redispatches [of "demo_loop\<lparr>deferred := [], timers := [],
      el_ready := [\<lparr>ev_handle = 7, ev_what = to_ready 1\<rparr>]\<rparr>" "\<lambda>_ _. Poll_eintr" 0 0 demo_fn demo_io]
  by (simp add: demo_eval demo_io_def)

text \<open>Two timers of which the first clears the second.\<close>

definition clearing_fn :: "nat \<Rightarrow> nat logged_loop \<Rightarrow> nat logged_loop" where
  "clearing_fn f s = (if f = 1 then clear_timeout 2 s else s)\<lparr>calls := calls s @ [Fn f]\<rparr>"

definition two_timers :: "nat logged_loop" where
  "two_timers = event_loop.extend (snd (set_timeout 0 6 2 (snd (set_timeout 0 5 1 (make_loop 3))))) \<lparr>calls = []\<rparr>"

text \<open>
  A timer that is due fires although an earlier timer of the same batch clears it: the batch is
  taken out of the timer list before the first of them runs.
\<close>

theorem cleared_timer_fires:
  "calls (fire_due_timers clearing_fn 9000000 two_timers) = [Fn 1, Fn 2]
   \<and> timers (clear_timeout 2 two_timers) = [\<lparr>tm_id = 1, tm_when = 5000000, tm_fn = 1\<rparr>]"
  by (simp add: fire_due_timers_def two_timers_def clearing_fn_def clear_timeout_def demo_eval ns_per_ms_def)

text \<open>
  After a start and a stop the request of that stop is still pending: the next \<^verbatim>\<open>run\<close> starts the
  loop and returns at once, with the loop running.
\<close>

theorem run_returns_early:
  assumes "\<not> started s"
  shows "\<exists>s'. loop_run (loop_stop (loop_start s)) = Some s' \<and> started s' \<and> task_running s'"
  using assms by (simp add: loop_run_def loop_start_def loop_stop_def on_poller_def Let_def)

theorem run_returns_early_witness:
  "\<exists>s'. loop_run (loop_stop (loop_start demo_loop)) = Some s' \<and> started s' \<and> task_running s'"
  using run_returns_early [of demo_loop] by (simp add: demo_eval)

end
