(* ===== verification/Socket_Ops.thy ===== *)
theory Socket_Ops
  imports Descriptor
begin

text \<open>
  \<^verbatim>\<open>core::socket_ops\<close> and what it rests on: \<^verbatim>\<open>core::socket_address\<close> (core/address.hpp), its conversion
  to and from \<^verbatim>\<open>sockaddr\<close> (core/impl/posix/endpoint.hpp), the wrappers of the BSD socket calls
  (core/socket_ops_types.hpp, core/impl/posix/socket_ops.hpp), the resolver
  (core/impl/posix/resolver.hpp) and the standalone scaffolds of both. The operating system is a
  state \<open>'k\<close> and a record of its calls, each with the value returned, \<^verbatim>\<open>errno\<close> and the state after it.
\<close>

unbundle bit_operations_syntax

section \<open>Addresses\<close>

definition AF_INET :: int where "AF_INET = 2"
definition AF_INET6 :: int where "AF_INET6 = 10"

record socket_address =
  sa_address :: string
  sa_port :: u16
  sa_family :: int

definition null_address :: socket_address where
  "null_address = \<lparr>sa_address = [], sa_port = 0, sa_family = 0\<rparr>"

definition is_inet6 :: "socket_address \<Rightarrow> bool" where
  "is_inet6 a \<longleftrightarrow> sa_family a = AF_INET6"

text \<open>The port of a \<^verbatim>\<open>sockaddr\<close> is in network byte order.\<close>

datatype sockaddr = Sockaddr_in u16 "byte list" | Sockaddr_in6 u16 "byte list"

definition htons :: "u16 \<Rightarrow> u16" where
  "htons p = push_bit 8 (p AND 0xFF) OR drop_bit 8 p"

definition ntohs :: "u16 \<Rightarrow> u16" where
  "ntohs p = push_bit 8 (p AND 0xFF) OR drop_bit 8 p"

text \<open>\<^verbatim>\<open>inet_pton\<close> (\<open>None\<close> when the text is no address) and \<^verbatim>\<open>inet_ntop\<close>, for either family.\<close>

record inet_fns =
  pton4 :: "string \<Rightarrow> byte list option"
  pton6 :: "string \<Rightarrow> byte list option"
  ntop4 :: "byte list \<Rightarrow> string"
  ntop6 :: "byte list \<Rightarrow> string"

definition c_str :: "string \<Rightarrow> string" where
  "c_str s = takeWhile (\<lambda>c. c \<noteq> CHR 0x00) s"

text \<open>The storage starts out zero and keeps its zero address when the conversion fails.\<close>

definition to_sockaddr :: "inet_fns \<Rightarrow> socket_address \<Rightarrow> sockaddr" where
  "to_sockaddr inet addr =
     (if sa_family addr = AF_INET6 then
        Sockaddr_in6 (htons (sa_port addr))
          (case pton6 inet (c_str (sa_address addr)) of Some b \<Rightarrow> b | None \<Rightarrow> replicate 16 0)
      else
        Sockaddr_in (htons (sa_port addr))
          (case pton4 inet (c_str (sa_address addr)) of Some b \<Rightarrow> b | None \<Rightarrow> replicate 4 0))"

fun from_sockaddr :: "inet_fns \<Rightarrow> sockaddr \<Rightarrow> socket_address" where
  "from_sockaddr inet (Sockaddr_in6 port b) = \<lparr>sa_address = ntop6 inet b, sa_port = ntohs port, sa_family = AF_INET6\<rparr>"
| "from_sockaddr inet (Sockaddr_in port b) = \<lparr>sa_address = ntop4 inet b, sa_port = ntohs port, sa_family = AF_INET\<rparr>"

section \<open>The calls\<close>

datatype domain = Inet | Inet6
datatype transport = Stream | Datagram
datatype shut = Shut_read | Shut_write | Shut_both

text \<open>\<open>(returned value, errno, state after)\<close>, and for the calls that fill a buffer its contents.\<close>

type_synonym 'k sysret = "int \<times> nat \<times> 'k"

record 'k os =
  os_socket :: "int \<Rightarrow> int \<Rightarrow> 'k \<Rightarrow> 'k sysret"
  os_getfl :: "int \<Rightarrow> 'k \<Rightarrow> 'k sysret"
  os_setfl :: "int \<Rightarrow> int \<Rightarrow> 'k \<Rightarrow> 'k sysret"
  os_reuse_addr :: "int \<Rightarrow> 'k \<Rightarrow> 'k sysret"
  os_connect :: "int \<Rightarrow> sockaddr \<Rightarrow> 'k \<Rightarrow> 'k sysret"
  os_bind :: "int \<Rightarrow> sockaddr \<Rightarrow> 'k \<Rightarrow> 'k sysret"
  os_listen :: "int \<Rightarrow> int \<Rightarrow> 'k \<Rightarrow> 'k sysret"
  os_accept :: "int \<Rightarrow> 'k \<Rightarrow> sockaddr \<times> 'k sysret"
  os_send :: "int \<Rightarrow> byte list \<Rightarrow> 'k \<Rightarrow> 'k sysret"
  os_recv :: "int \<Rightarrow> nat \<Rightarrow> 'k \<Rightarrow> byte list \<times> 'k sysret"
  os_sendto :: "int \<Rightarrow> byte list \<Rightarrow> sockaddr \<Rightarrow> 'k \<Rightarrow> 'k sysret"
  os_recvfrom :: "int \<Rightarrow> nat \<Rightarrow> 'k \<Rightarrow> byte list \<times> sockaddr \<times> 'k sysret"
  os_shutdown :: "int \<Rightarrow> int \<Rightarrow> 'k \<Rightarrow> 'k sysret"
  os_getsockname :: "int \<Rightarrow> 'k \<Rightarrow> sockaddr \<times> 'k sysret"
  os_so_error :: "int \<Rightarrow> 'k \<Rightarrow> nat \<times> 'k sysret"
  os_close :: "int \<Rightarrow> 'k \<Rightarrow> 'k"
  os_getaddrinfo :: "string \<Rightarrow> string \<Rightarrow> bool \<Rightarrow> sockaddr list option"
  os_inet :: inet_fns
  os_strerror :: "nat \<Rightarrow> string"

definition EINTR :: nat where "EINTR = 4"
definition EINPROGRESS :: nat where "EINPROGRESS = 115"

definition af_of :: "domain \<Rightarrow> int" where
  "af_of d = (if d = Inet6 then AF_INET6 else AF_INET)"

definition type_of :: "transport \<Rightarrow> int" where
  "type_of t = (if t = Datagram then 2 else 1)"

text \<open>An error of 0 is \<^verbatim>\<open>std::errc{}\<close>, success.\<close>

record opened =
  op_handle :: descriptor
  op_error :: nat

record accepted =
  ac_handle :: descriptor
  ac_peer :: socket_address
  ac_error :: nat

record transfer =
  tr_count :: int
  tr_error :: nat

record received =
  rc_count :: int
  rc_from :: socket_address
  rc_error :: nat

definition sock_open :: "'k os \<Rightarrow> domain \<Rightarrow> transport \<Rightarrow> 'k \<Rightarrow> opened \<times> 'k" where
  "sock_open os d t k =
     (let (fd, err, k') = os_socket os (af_of d) (type_of t) k in
      if fd < 0 then (\<lparr>op_handle = null_descriptor, op_error = err\<rparr>, k')
      else (\<lparr>op_handle = adopt fd, op_error = 0\<rparr>, k'))"

text \<open>The status flags as a word; \<^verbatim>\<open>O_NONBLOCK\<close> is bit 11 on Linux.\<close>

definition O_NONBLOCK :: "32 word" where "O_NONBLOCK = 2048"

definition set_nonblocking :: "'k os \<Rightarrow> descriptor \<Rightarrow> 'k \<Rightarrow> nat \<times> 'k" where
  "set_nonblocking os s k =
     (let fd = native s; (flags, err, k') = os_getfl os fd k in
      if flags = -1 then (err, k')
      else let (r, err', k'') = os_setfl os fd (sint ((word_of_int flags :: 32 word) OR O_NONBLOCK)) k' in
           if r = -1 then (err', k'') else (0, k''))"

definition set_reuse_addr :: "'k os \<Rightarrow> descriptor \<Rightarrow> 'k \<Rightarrow> nat \<times> 'k" where
  "set_reuse_addr os s k =
     (let (r, err, k') = os_reuse_addr os (native s) k in if r \<noteq> 0 then (err, k') else (0, k'))"

definition sock_connect :: "'k os \<Rightarrow> descriptor \<Rightarrow> socket_address \<Rightarrow> 'k \<Rightarrow> nat \<times> 'k" where
  "sock_connect os s a k =
     (let (rc, err, k') = os_connect os (native s) (to_sockaddr (os_inet os) a) k in
      if rc = 0 then (0, k') else if err = EINPROGRESS then (EINPROGRESS, k') else (err, k'))"

definition sock_bind :: "'k os \<Rightarrow> descriptor \<Rightarrow> socket_address \<Rightarrow> 'k \<Rightarrow> nat \<times> 'k" where
  "sock_bind os s a k =
     (let (rc, err, k') = os_bind os (native s) (to_sockaddr (os_inet os) a) k in
      if rc \<noteq> 0 then (err, k') else (0, k'))"

definition sock_listen :: "'k os \<Rightarrow> descriptor \<Rightarrow> int \<Rightarrow> 'k \<Rightarrow> nat \<times> 'k" where
  "sock_listen os s backlog k =
     (let (rc, err, k') = os_listen os (native s) backlog k in if rc \<noteq> 0 then (err, k') else (0, k'))"

definition sock_accept :: "'k os \<Rightarrow> descriptor \<Rightarrow> 'k \<Rightarrow> accepted \<times> 'k" where
  "sock_accept os s k =
     (let (peer, cfd, err, k') = os_accept os (native s) k in
      if cfd < 0 then (\<lparr>ac_handle = null_descriptor, ac_peer = null_address, ac_error = err\<rparr>, k')
      else (\<lparr>ac_handle = adopt cfd, ac_peer = from_sockaddr (os_inet os) peer, ac_error = 0\<rparr>, k'))"

definition sock_send :: "'k os \<Rightarrow> descriptor \<Rightarrow> byte list \<Rightarrow> 'k \<Rightarrow> transfer \<times> 'k" where
  "sock_send os s b k =
     (let (n, err, k') = os_send os (native s) b k in
      if n < 0 then (\<lparr>tr_count = -1, tr_error = err\<rparr>, k') else (\<lparr>tr_count = n, tr_error = 0\<rparr>, k'))"

text \<open>The buffer a receive call filled is returned first.\<close>

definition sock_recv :: "'k os \<Rightarrow> descriptor \<Rightarrow> nat \<Rightarrow> 'k \<Rightarrow> byte list \<times> transfer \<times> 'k" where
  "sock_recv os s len k =
     (let (buf, n, err, k') = os_recv os (native s) len k in
      if n < 0 then (buf, \<lparr>tr_count = -1, tr_error = err\<rparr>, k') else (buf, \<lparr>tr_count = n, tr_error = 0\<rparr>, k'))"

definition send_to :: "'k os \<Rightarrow> descriptor \<Rightarrow> byte list \<Rightarrow> socket_address \<Rightarrow> 'k \<Rightarrow> transfer \<times> 'k" where
  "send_to os s b a k =
     (let (n, err, k') = os_sendto os (native s) b (to_sockaddr (os_inet os) a) k in
      if n < 0 then (\<lparr>tr_count = -1, tr_error = err\<rparr>, k') else (\<lparr>tr_count = n, tr_error = 0\<rparr>, k'))"

definition recv_from :: "'k os \<Rightarrow> descriptor \<Rightarrow> nat \<Rightarrow> 'k \<Rightarrow> byte list \<times> received \<times> 'k" where
  "recv_from os s len k =
     (let (buf, from, n, err, k') = os_recvfrom os (native s) len k in
      if n < 0 then (buf, \<lparr>rc_count = -1, rc_from = null_address, rc_error = err\<rparr>, k')
      else (buf, \<lparr>rc_count = n, rc_from = from_sockaddr (os_inet os) from, rc_error = 0\<rparr>, k'))"

definition sock_shutdown :: "'k os \<Rightarrow> descriptor \<Rightarrow> shut \<Rightarrow> 'k \<Rightarrow> nat \<times> 'k" where
  "sock_shutdown os s how k =
     (let h = (if how = Shut_read then 0 else if how = Shut_write then 1 else 2);
          (rc, err, k') = os_shutdown os (native s) h k
      in if rc \<noteq> 0 then (err, k') else (0, k'))"

definition local_endpoint :: "'k os \<Rightarrow> descriptor \<Rightarrow> 'k \<Rightarrow> socket_address \<times> 'k" where
  "local_endpoint os s k =
     (let (addr, rc, err, k') = os_getsockname os (native s) k in
      if rc \<noteq> 0 then (null_address, k') else (from_sockaddr (os_inet os) addr, k'))"

definition pending_error :: "'k os \<Rightarrow> descriptor \<Rightarrow> 'k \<Rightarrow> nat \<times> 'k" where
  "pending_error os s k =
     (let (e, rc, err, k') = os_so_error os (native s) k in if rc \<noteq> 0 then (err, k') else (e, k'))"

text \<open>Closing a descriptor calls \<^verbatim>\<open>::close\<close> on the handles that \<^const>\<open>reset\<close> gives up.\<close>

definition close_descriptor :: "'k os \<Rightarrow> descriptor \<Rightarrow> 'k \<Rightarrow> descriptor \<times> 'k" where
  "close_descriptor os d k = (let (d', closed) = reset d in (d', fold (os_close os) closed k))"

definition describe :: "'k os \<Rightarrow> nat \<Rightarrow> string \<Rightarrow> string" where
  "describe os e prefix = prefix @ '': '' @ os_strerror os e"

section \<open>The resolver\<close>

fun decimal :: "nat \<Rightarrow> string" where
  "decimal n = (if n < 10 then [char_of (48 + n)] else decimal (n div 10) @ [char_of (48 + n mod 10)])"

declare decimal.simps [simp del]

definition resolve :: "'k os \<Rightarrow> string \<Rightarrow> u16 \<Rightarrow> bool \<Rightarrow> socket_address list" where
  "resolve os host port datagram =
     (case os_getaddrinfo os (c_str host) (decimal (unat port)) datagram of
        None \<Rightarrow> []
      | Some result \<Rightarrow> map (from_sockaddr (os_inet os)) result)"

definition resolve_one :: "'k os \<Rightarrow> string \<Rightarrow> u16 \<Rightarrow> bool \<Rightarrow> socket_address option" where
  "resolve_one os host port datagram =
     (let all = resolve os host port datagram in if all = [] then None else Some (hd all))"

section \<open>Standalone scaffolds\<close>

definition sa_resolve :: "string \<Rightarrow> u16 \<Rightarrow> socket_address list" where
  "sa_resolve host port =
     (let v6 = (CHR '':'' \<in> set host);
          txt = (if host = ''localhost'' then ''127.0.0.1''
                  else if host = [] \<or> host = ''0.0.0.0'' then ''0.0.0.0'' else host)
      in [\<lparr>sa_address = txt, sa_port = port, sa_family = (if v6 then AF_INET6 else AF_INET)\<rparr>])"

definition sa_unsupported :: nat where
  "sa_unsupported = 38"

definition sa_opened :: "sa_descriptor \<times> nat" where
  "sa_opened = (\<lparr>owned_handle = sa_invalid\<rparr>, sa_unsupported)"

definition sa_accepted :: "sa_descriptor \<times> socket_address \<times> nat" where
  "sa_accepted = (\<lparr>owned_handle = sa_invalid\<rparr>, null_address, sa_unsupported)"

definition sa_transfer :: transfer where
  "sa_transfer = \<lparr>tr_count = -1, tr_error = sa_unsupported\<rparr>"

definition sa_received :: received where
  "sa_received = \<lparr>rc_count = -1, rc_from = null_address, rc_error = sa_unsupported\<rparr>"

section \<open>What the calls promise\<close>

text \<open>
  A call that fails sets \<^verbatim>\<open>errno\<close> to a positive number, and no transfer is longer than asked for.
\<close>

definition os_contract :: "'k os \<Rightarrow> bool" where
  "os_contract os \<longleftrightarrow>
     (\<forall>f t k r e k'. os_socket os f t k = (r, e, k') \<and> r < 0 \<longrightarrow> e \<noteq> 0) \<and>
     (\<forall>d b k r e k'. os_send os d b k = (r, e, k') \<longrightarrow> (r < 0 \<longrightarrow> e \<noteq> 0) \<and> r \<le> int (length b)) \<and>
     (\<forall>d n k b r e k'. os_recv os d n k = (b, r, e, k') \<longrightarrow> (r < 0 \<longrightarrow> e \<noteq> 0) \<and> r \<le> int (length b) \<and> length b \<le> n) \<and>
     (\<forall>d k a r e k'. os_accept os d k = (a, r, e, k') \<and> r < 0 \<longrightarrow> e \<noteq> 0) \<and>
     (\<forall>d n k b a r e k'. os_recvfrom os d n k = (b, a, r, e, k') \<longrightarrow> (r < 0 \<longrightarrow> e \<noteq> 0) \<and> r \<le> int (length b) \<and> length b \<le> n)"

text \<open>A system in which every call succeeds at once and nothing ever arrives.\<close>

definition quiet_os :: "inet_fns \<Rightarrow> 'k os" where
  "quiet_os inet =
     \<lparr>os_socket = \<lambda>_ _ k. (7, 0, k), os_getfl = \<lambda>_ k. (0, 0, k), os_setfl = \<lambda>_ _ k. (0, 0, k),
      os_reuse_addr = \<lambda>_ k. (0, 0, k), os_connect = \<lambda>_ _ k. (0, 0, k), os_bind = \<lambda>_ _ k. (0, 0, k),
      os_listen = \<lambda>_ _ k. (0, 0, k), os_accept = \<lambda>_ k. (Sockaddr_in 0 [], -1, EAGAIN, k),
      os_send = \<lambda>_ b k. (int (length b), 0, k), os_recv = \<lambda>_ _ k. ([], -1, EAGAIN, k),
      os_sendto = \<lambda>_ b _ k. (int (length b), 0, k), os_recvfrom = \<lambda>_ _ k. ([], Sockaddr_in 0 [], -1, EAGAIN, k),
      os_shutdown = \<lambda>_ _ k. (0, 0, k), os_getsockname = \<lambda>_ k. (Sockaddr_in 0 [0, 0, 0, 0], 0, 0, k),
      os_so_error = \<lambda>_ k. (0, 0, 0, k), os_close = \<lambda>_ k. k,
      os_getaddrinfo = \<lambda>_ _ _. Some [Sockaddr_in 0 [127, 0, 0, 1]], os_inet = inet, os_strerror = \<lambda>_. ''error''\<rparr>"

lemma quiet_os_contract: "os_contract (quiet_os inet)"
  by (simp add: os_contract_def quiet_os_def EAGAIN_def)

lemma os_contractD:
  assumes "os_contract os"
  shows "os_socket os f t k = (r, e, k') \<Longrightarrow> r < 0 \<Longrightarrow> e \<noteq> 0"
    and "os_send os d b k = (r, e, k') \<Longrightarrow> (r < 0 \<longrightarrow> e \<noteq> 0) \<and> r \<le> int (length b)"
    and "os_recv os d n k = (b, r, e, k') \<Longrightarrow> (r < 0 \<longrightarrow> e \<noteq> 0) \<and> r \<le> int (length b) \<and> length b \<le> n"
    and "os_accept os d k = (a, r, e, k') \<Longrightarrow> r < 0 \<Longrightarrow> e \<noteq> 0"
    and "os_recvfrom os d n k = (b, a, r, e, k') \<Longrightarrow> (r < 0 \<longrightarrow> e \<noteq> 0) \<and> r \<le> int (length b) \<and> length b \<le> n"
  using assms unfolding os_contract_def by (metis, metis, metis, metis, metis)

lemma sock_open_handle:
  "os_contract os \<Longrightarrow> sock_open os d t k = (r, k') \<Longrightarrow> op_error r = 0 \<longleftrightarrow> valid (op_handle r)"
  by (auto simp: sock_open_def adopt_def valid_def null_descriptor_def invalid_handle_def Let_def
      dest: os_contractD(1) split: prod.splits if_splits)

lemma sock_send_count:
  "os_contract os \<Longrightarrow> sock_send os d b k = (r, k') \<Longrightarrow> tr_count r \<le> int (length b) \<and> (tr_error r = 0 \<longleftrightarrow> 0 \<le> tr_count r)"
  by (auto simp: sock_send_def Let_def dest: os_contractD(2) split: prod.splits if_splits)

lemma sock_recv_count:
  "os_contract os \<Longrightarrow> sock_recv os d n k = (b, r, k') \<Longrightarrow> tr_count r \<le> int (length b) \<and> (tr_error r = 0 \<longleftrightarrow> 0 \<le> tr_count r)"
  by (auto simp: sock_recv_def Let_def dest: os_contractD(3) split: prod.splits if_splits)

lemma sock_accept_handle:
  "os_contract os \<Longrightarrow> sock_accept os d k = (r, k') \<Longrightarrow> ac_error r = 0 \<longleftrightarrow> valid (ac_handle r)"
  by (auto simp: sock_accept_def adopt_def valid_def null_descriptor_def invalid_handle_def Let_def
      dest: os_contractD(4) split: prod.splits if_splits)

section \<open>Properties\<close>

lemma byte_mask: "(0xFF :: u16) = mask 8"
  by (simp add: mask_eq_exp_minus_1)

lemma bit_htons: "bit (htons p) n \<longleftrightarrow> (8 \<le> n \<and> n < 16 \<and> bit p (n - 8)) \<or> bit p (n + 8)"
proof -
  have "bit p n \<Longrightarrow> n < 16" for n using bit_imp_le_length [of p n] by simp
  then show ?thesis
    unfolding htons_def byte_mask
    by (auto simp only: bit_or_iff bit_push_bit_iff bit_and_iff bit_mask_iff bit_drop_bit_eq
        possible_bit_word comp_def add.commute) auto
qed

lemma swap_swap: "ntohs (htons p) = p" "htons (ntohs p) = p"
proof -
  have "ntohs = htons" by (simp add: fun_eq_iff htons_def ntohs_def)
  moreover have "htons (htons p) = p"
  proof (rule bit_eqI)
    show "bit (htons (htons p)) n \<longleftrightarrow> bit p n" for n
      using bit_imp_le_length [of p n] bit_imp_le_length [of p "16 + n"] by (auto simp: bit_htons)
  qed
  ultimately show "ntohs (htons p) = p" "htons (ntohs p) = p" by simp_all
qed

text \<open>The documented relation of the two conversions: an address printed is read back.\<close>

definition inet_contract :: "inet_fns \<Rightarrow> bool" where
  "inet_contract inet \<longleftrightarrow>
     (\<forall>b. length b = 4 \<longrightarrow> pton4 inet (ntop4 inet b) = Some b \<and> CHR 0x00 \<notin> set (ntop4 inet b)) \<and>
     (\<forall>b. length b = 16 \<longrightarrow> pton6 inet (ntop6 inet b) = Some b \<and> CHR 0x00 \<notin> set (ntop6 inet b))"

fun sockaddr_wf :: "sockaddr \<Rightarrow> bool" where
  "sockaddr_wf (Sockaddr_in _ b) \<longleftrightarrow> length b = 4"
| "sockaddr_wf (Sockaddr_in6 _ b) \<longleftrightarrow> length b = 16"

lemma c_str_id: "CHR 0x00 \<notin> set s \<Longrightarrow> c_str s = s"
  by (auto simp: c_str_def takeWhile_eq_all_conv)


text \<open>A textual form with two letters per octet, for the witness.\<close>

definition letters :: "byte list \<Rightarrow> string" where
  "letters b = concat (map (\<lambda>x. [char_of (65 + unat x div 16), char_of (65 + unat x mod 16)]) b)"

fun unletters :: "string \<Rightarrow> byte list" where
  "unletters (h # l # s) = of_nat ((of_char h - 65) * 16 + (of_char l - 65)) # unletters s"
| "unletters _ = []"

definition letter_inet :: inet_fns where
  "letter_inet = \<lparr>pton4 = \<lambda>s. Some (unletters s), pton6 = \<lambda>s. Some (unletters s), ntop4 = letters, ntop6 = letters\<rparr>"

lemma letters_ok: "unletters (letters b) = b \<and> CHR 0x00 \<notin> set (letters b)"
proof (induction b)
  case (Cons x b)
  have "unat x < 256" using unsigned_less [of x, where 'a = nat] by simp
  then have "unat x div 16 < 16" by (simp add: less_mult_imp_div_less)
  then have "of_char (char_of (65 + unat x div 16) :: char) = 65 + unat x div 16"
    and "of_char (char_of (65 + unat x mod 16) :: char) = 65 + unat x mod 16"
    by (simp_all add: of_char_of)
  moreover have "CHR 0x00 \<noteq> char_of (65 + n)" if "n < 16" for n :: nat
  proof
    assume "CHR 0x00 = char_of (65 + n)"
    then have "of_char (CHR 0x00) = (of_char (char_of (65 + n) :: char) :: nat)" by simp
    with that show False by (simp add: of_char_of)
  qed
  ultimately show ?case
    using Cons \<open>unat x div 16 < 16\<close> by (simp add: letters_def)
qed (simp add: letters_def)


text \<open>
  An address text that is none, such as a host name, is not refused: binding or connecting to it
  addresses the wildcard address of its family, with the port asked for.
\<close>

theorem bad_address_is_wildcard:
  assumes "pton4 inet (c_str (sa_address a)) = None" and "\<not> is_inet6 a"
  shows "to_sockaddr inet a = Sockaddr_in (htons (sa_port a)) [0, 0, 0, 0]"
  using assms by (simp add: to_sockaddr_def is_inet6_def eval_nat_numeral)

theorem bad_address_is_wildcard_witness:
  "to_sockaddr (letter_inet\<lparr>pton4 := Map.empty\<rparr>) \<lparr>sa_address = ''localhost'', sa_port = 0, sa_family = 2\<rparr>
   = Sockaddr_in (htons 0) [0, 0, 0, 0]"
  using bad_address_is_wildcard [of "letter_inet\<lparr>pton4 := Map.empty\<rparr>"
      "\<lparr>sa_address = ''localhost'', sa_port = 0, sa_family = 2\<rparr>"]
  by (simp add: is_inet6_def AF_INET6_def)

end
