(* ===== verification/Buffer.thy ===== *)
theory Buffer
  imports Prelude
begin

text \<open>\<^verbatim>\<open>core::buffer\<close> (core/buffer.hpp): a vector of bytes, with conversions from and to text.\<close>

type_synonym buffer = "byte list"

definition make_buffer :: "string \<Rightarrow> buffer" where
  "make_buffer txt = map byte_of_char txt"

definition copy_buffer :: "byte list \<Rightarrow> buffer" where
  "copy_buffer bytes = bytes"

definition to_string :: "byte list \<Rightarrow> string" where
  "to_string bytes = map char_of_byte bytes"

definition append_bytes :: "buffer \<Rightarrow> byte list \<Rightarrow> buffer" where
  "append_bytes dst bytes = dst @ bytes"

lemma buffer_text: "to_string (make_buffer s) = s" and text_buffer: "make_buffer (to_string b) = b"
  by (simp_all add: to_string_def make_buffer_def comp_def)

end
