(* ===== verification/Tcp_Socket.thy ===== *)
theory Tcp_Socket
  imports Event_Loop Socket_Ops Buffer Thread_Pool
begin

text \<open>
  \<^verbatim>\<open>protocol::tcp::socket\<close> (protocol/tcp/socket.hpp): a non-blocking connection on the event loop.
  As for the datagram peer, the state holds the socket, its loop and the operating system, and \<open>lst e\<close>
  is what all listeners of event \<open>e\<close> do to it. Loops around system calls are partial functions;
  \<open>None\<close> means that they never end. \<open>t_sent\<close> records the bytes the kernel took, and is read by no
  operation.
\<close>

datatype conn_state = Idle | Connecting | Open | Closed

datatype tcp_event =
    Connect_event
  | Data buffer
  | Drain_event
  | End_event
  | Error_event string
  | Close_event

record ('k, 'c) tcp =
  t_desc :: descriptor
  t_state :: conn_state
  t_peer :: socket_address
  t_outbuf :: buffer
  t_offset :: nat
  t_ended :: bool
  t_cb :: 'c
  t_loop :: "'c event_loop"
  t_os :: 'k
  t_events :: "tcp_event list"
  t_sent :: buffer

type_synonym ('k, 'c, 'z) listeners = "tcp_event \<Rightarrow> ('k, 'c, 'z) tcp_scheme \<Rightarrow> ('k, 'c, 'z) tcp_scheme"

definition tcp_create :: "'c \<Rightarrow> 'c event_loop \<Rightarrow> 'k \<Rightarrow> ('k, 'c) tcp" where
  "tcp_create cb loop k =
     \<lparr>t_desc = null_descriptor, t_state = Idle, t_peer = null_address, t_outbuf = [], t_offset = 0,
      t_ended = False, t_cb = cb, t_loop = loop, t_os = k, t_events = [], t_sent = []\<rparr>"

definition tcp_adopt :: "descriptor \<Rightarrow> socket_address \<Rightarrow> 'c \<Rightarrow> 'c event_loop \<Rightarrow> 'k \<Rightarrow> ('k, 'c) tcp" where
  "tcp_adopt d peer cb loop k = (tcp_create cb loop k)\<lparr>t_desc := d, t_state := Open, t_peer := peer\<rparr>"

definition tcp_emit :: "('k, 'c, 'z) listeners \<Rightarrow> tcp_event \<Rightarrow> ('k, 'c, 'z) tcp_scheme \<Rightarrow> ('k, 'c, 'z) tcp_scheme" where
  "tcp_emit lst e w = lst e (w\<lparr>t_events := t_events w @ [e]\<rparr>)"

definition close_with :: "'k os \<Rightarrow> ('k, 'c, 'z) listeners \<Rightarrow> ('k, 'c, 'z) tcp_scheme \<Rightarrow> ('k, 'c, 'z) tcp_scheme" where
  "close_with os lst w =
     (let was_live = (t_state w \<noteq> Closed \<and> valid (t_desc w)); w = w\<lparr>t_state := Closed\<rparr> in
      if \<not> was_live then w
      else let w = w\<lparr>t_loop := unwatch (native (t_desc w)) (t_loop w)\<rparr>;
               (d, k) = close_descriptor os (t_desc w) (t_os w);
               w = w\<lparr>t_desc := d, t_os := k\<rparr>
           in tcp_emit lst Close_event w)"

definition fail ::
  "'k os \<Rightarrow> ('k, 'c, 'z) listeners \<Rightarrow> string \<Rightarrow> ('k, 'c, 'z) tcp_scheme \<Rightarrow> ('k, 'c, 'z) tcp_scheme" where
  "fail os lst message w = close_with os lst (tcp_emit lst (Error_event message) w)"

definition tcp_destroy :: "'k os \<Rightarrow> ('k, 'c, 'z) listeners \<Rightarrow> ('k, 'c, 'z) tcp_scheme \<Rightarrow> ('k, 'c, 'z) tcp_scheme" where
  "tcp_destroy os lst w = close_with os lst w"

definition destructor :: "'k os \<Rightarrow> ('k, 'c, 'z) tcp_scheme \<Rightarrow> ('k, 'c, 'z) tcp_scheme" where
  "destructor os w = (let (d, k) = close_descriptor os (t_desc w) (t_os w) in w\<lparr>t_desc := d, t_os := k\<rparr>)"

section \<open>Sending\<close>

partial_function (option) pump_output ::
  "'k os \<Rightarrow> ('k, 'c, 'z) listeners \<Rightarrow> ('k, 'c, 'z) tcp_scheme \<Rightarrow> ('k, 'c, 'z) tcp_scheme option" where
  "pump_output os lst w =
     (if t_offset w < length (t_outbuf w) then
        let rest = drop (t_offset w) (t_outbuf w);
            (sent, k) = sock_send os (t_desc w) rest (t_os w);
            w = w\<lparr>t_os := k\<rparr> in
        if tr_count sent > 0 then
          pump_output os lst
            (w\<lparr>t_offset := t_offset w + nat (tr_count sent), t_sent := t_sent w @ take (nat (tr_count sent)) rest\<rparr>)
        else if tr_count sent < 0 \<and> would_block (tr_error sent) then Some w
        else if tr_count sent < 0 \<and> tr_error sent = EINTR then pump_output os lst w
        else Some (fail os lst (describe os (tr_error sent) ''send'') w)
      else Some (w\<lparr>t_outbuf := [], t_offset := 0\<rparr>))"

definition buffered :: "('k, 'c, 'z) tcp_scheme \<Rightarrow> bool" where
  "buffered w \<longleftrightarrow> t_offset w < length (t_outbuf w)"

definition modify_interest :: "interest \<Rightarrow> ('k, 'c, 'z) tcp_scheme \<Rightarrow> ('k, 'c, 'z) tcp_scheme" where
  "modify_interest i w = w\<lparr>t_loop := modify (native (t_desc w)) i (t_loop w)\<rparr>"

definition tcp_write ::
  "'k os \<Rightarrow> ('k, 'c, 'z) listeners \<Rightarrow> byte list \<Rightarrow> ('k, 'c, 'z) tcp_scheme \<Rightarrow> (bool \<times> ('k, 'c, 'z) tcp_scheme) option" where
  "tcp_write os lst chunk w =
     (if t_state w \<noteq> Open then
        Some (False, fail os lst ''ERR_STREAM_WRITE_AFTER_END: socket is not open'' w)
      else let had_backlog = buffered w; w = w\<lparr>t_outbuf := append_bytes (t_outbuf w) chunk\<rparr> in
        case (if had_backlog then Some w else pump_output os lst w) of
          None \<Rightarrow> None
        | Some w \<Rightarrow>
            Some (\<not> buffered w,
              if buffered w then modify_interest (interest_or interest_read interest_write) w else w))"

definition tcp_end :: "'k os \<Rightarrow> ('k, 'c, 'z) tcp_scheme \<Rightarrow> ('k, 'c, 'z) tcp_scheme" where
  "tcp_end os w =
     (let w = w\<lparr>t_ended := True\<rparr> in
      if t_state w = Open \<and> \<not> buffered w then
        let (_, k) = sock_shutdown os (t_desc w) Shut_write (t_os w) in w\<lparr>t_os := k\<rparr>
      else w)"

section \<open>Connecting\<close>

definition watch_self :: "interest \<Rightarrow> ('k, 'c, 'z) tcp_scheme \<Rightarrow> ('k, 'c, 'z) tcp_scheme" where
  "watch_self i w = w\<lparr>t_loop := watch (native (t_desc w)) i (t_cb w) (t_loop w)\<rparr>"

definition tcp_begin_reading :: "('k, 'c, 'z) tcp_scheme \<Rightarrow> ('k, 'c, 'z) tcp_scheme" where
  "tcp_begin_reading w = watch_self interest_read w"

text \<open>The local descriptor of \<^verbatim>\<open>start_connect\<close> is closed when a failure leaves its scope.\<close>

definition leave_scope :: "'k os \<Rightarrow> descriptor \<Rightarrow> ('k, 'c, 'z) tcp_scheme \<Rightarrow> ('k, 'c, 'z) tcp_scheme" where
  "leave_scope os d w = w\<lparr>t_os := snd (close_descriptor os d (t_os w))\<rparr>"

definition start_connect ::
  "'k os \<Rightarrow> ('k, 'c, 'z) listeners \<Rightarrow> socket_address \<Rightarrow> ('k, 'c, 'z) tcp_scheme \<Rightarrow> ('k, 'c, 'z) tcp_scheme" where
  "start_connect os lst addr w =
     (let (opened, k) = sock_open os (if is_inet6 addr then Inet6 else Inet) Stream (t_os w); w = w\<lparr>t_os := k\<rparr> in
      if op_error opened \<noteq> 0 then fail os lst (describe os (op_error opened) ''socket'') w
      else let d = op_handle opened; (nb, k) = set_nonblocking os d (t_os w); w = w\<lparr>t_os := k\<rparr> in
        if nb \<noteq> 0 then leave_scope os d (fail os lst (describe os nb ''socket'') w)
        else let (ec, k) = sock_connect os d addr (t_os w); w = w\<lparr>t_os := k\<rparr> in
          if ec \<noteq> 0 \<and> ec \<noteq> EINPROGRESS then leave_scope os d (fail os lst (describe os ec ''connect'') w)
          else let (self, _, closed) = move_assign (t_desc w) d in
            watch_self interest_write
              (w\<lparr>t_desc := self, t_os := fold (os_close os) closed (t_os w), t_state := Connecting, t_peer := addr\<rparr>))"

text \<open>
  \<^verbatim>\<open>connect\<close> hands a job to the thread pool; the job resolves the name and defers its result to the
  loop, here under the callback \<open>mk addrs\<close>; the loop then runs the last definition.
\<close>

definition tcp_connect :: "u16 \<Rightarrow> string \<Rightarrow> (string \<times> u16) pool \<Rightarrow> (string \<times> u16) pool" where
  "tcp_connect port host p = submit (host, port) Normal p"

definition connect_job ::
  "'k os \<Rightarrow> (socket_address list \<Rightarrow> 'c) \<Rightarrow> string \<times> u16 \<Rightarrow> ('k, 'c, 'z) tcp_scheme \<Rightarrow> ('k, 'c, 'z) tcp_scheme" where
  "connect_job os mk job w =
     (let (host, port) = job in w\<lparr>t_loop := defer_fn (mk (resolve os host port False)) (t_loop w)\<rparr>)"

definition connect_resolved ::
  "'k os \<Rightarrow> ('k, 'c, 'z) listeners \<Rightarrow> socket_address list \<Rightarrow> ('k, 'c, 'z) tcp_scheme \<Rightarrow> ('k, 'c, 'z) tcp_scheme" where
  "connect_resolved os lst addrs w =
     (if addrs = [] then fail os lst ''ENOTFOUND: getaddrinfo returned no results'' w
      else start_connect os lst (hd addrs) w)"

section \<open>Readiness\<close>

partial_function (option) drain_input ::
  "'k os \<Rightarrow> ('k, 'c, 'z) listeners \<Rightarrow> ('k, 'c, 'z) tcp_scheme \<Rightarrow> ('k, 'c, 'z) tcp_scheme option" where
  "drain_input os lst w =
     (let (buf, got, k) = sock_recv os (t_desc w) 65536 (t_os w); w = w\<lparr>t_os := k\<rparr> in
      if tr_count got > 0 then
        drain_input os lst (tcp_emit lst (Data (copy_buffer (take (nat (tr_count got)) buf))) w)
      else if tr_count got = 0 then Some (close_with os lst (tcp_emit lst End_event w))
      else if would_block (tr_error got) then Some w
      else if tr_error got = EINTR then drain_input os lst w
      else Some (fail os lst (describe os (tr_error got) ''recv'') w))"

definition on_connected :: "'k os \<Rightarrow> ('k, 'c, 'z) listeners \<Rightarrow> ('k, 'c, 'z) tcp_scheme \<Rightarrow> ('k, 'c, 'z) tcp_scheme" where
  "on_connected os lst w =
     (let (err, k) = pending_error os (t_desc w) (t_os w); w = w\<lparr>t_os := k\<rparr> in
      if err \<noteq> 0 then fail os lst (describe os err ''connect'') w
      else let w = tcp_emit lst Connect_event (modify_interest interest_read (w\<lparr>t_state := Open\<rparr>)) in
        if buffered w then modify_interest (interest_or interest_read interest_write) w else w)"

definition on_writable ::
  "'k os \<Rightarrow> ('k, 'c, 'z) listeners \<Rightarrow> ('k, 'c, 'z) tcp_scheme \<Rightarrow> ('k, 'c, 'z) tcp_scheme option" where
  "on_writable os lst w =
     (case pump_output os lst w of
        None \<Rightarrow> None
      | Some w \<Rightarrow>
          if \<not> buffered w then
            let w = tcp_emit lst Drain_event (modify_interest interest_read w) in
            Some (if t_ended w then
                    let (_, k) = sock_shutdown os (t_desc w) Shut_write (t_os w) in w\<lparr>t_os := k\<rparr>
                  else w)
          else Some w)"

definition on_io ::
  "'k os \<Rightarrow> ('k, 'c, 'z) listeners \<Rightarrow> ready \<Rightarrow> ('k, 'c, 'z) tcp_scheme \<Rightarrow> ('k, 'c, 'z) tcp_scheme option" where
  "on_io os lst r w =
     (if t_state w = Connecting then Some (on_connected os lst w)
      else if t_state w \<noteq> Open then Some w
      else case (if writable r then on_writable os lst w else Some w) of
          None \<Rightarrow> None
        | Some w \<Rightarrow> if readable r \<or> hangup r then drain_input os lst w else Some w)"

section \<open>What the operations are made of\<close>

text \<open>
  Every operation is a sequence of few elementary effects. A reflexive and transitive relation that
  contains these effects relates the states before and after every operation; the invariants and the
  refinement below are instances.
\<close>

definition is_live :: "('k, 'c, 'z) tcp_scheme \<Rightarrow> bool" where
  "is_live w \<longleftrightarrow> t_state w \<noteq> Closed \<and> valid (t_desc w)"

definition torn_down :: "'k os \<Rightarrow> ('k, 'c, 'z) tcp_scheme \<Rightarrow> ('k, 'c, 'z) tcp_scheme" where
  "torn_down os w =
     w\<lparr>t_state := Closed, t_loop := unwatch (native (t_desc w)) (t_loop w),
       t_desc := fst (close_descriptor os (t_desc w) (t_os w)), t_os := snd (close_descriptor os (t_desc w) (t_os w))\<rparr>"

lemma close_with_eq:
  "close_with os lst w = (if is_live w then tcp_emit lst Close_event (torn_down os w) else w\<lparr>t_state := Closed\<rparr>)"
  by (simp add: close_with_def is_live_def torn_down_def Let_def split: prod.splits)

text \<open>A preorder of kernel states that contains the calls a socket makes, those that return input apart.\<close>

locale kernel_calls =
  fixes os :: "'k os" and K :: "'k \<Rightarrow> 'k \<Rightarrow> bool"
  assumes K_refl: "K k k"
    and K_trans: "K k l \<Longrightarrow> K l m \<Longrightarrow> K k m"
    and K_socket: "os_socket os f t k = (r, e, l) \<Longrightarrow> K k l"
    and K_getfl: "os_getfl os d k = (r, e, l) \<Longrightarrow> K k l"
    and K_setfl: "os_setfl os d g k = (r, e, l) \<Longrightarrow> K k l"
    and K_connect: "os_connect os d a k = (r, e, l) \<Longrightarrow> K k l"
    and K_send: "os_send os d b k = (r, e, l) \<Longrightarrow> K k l"
    and K_recv: "os_recv os d n k = (b, r, e, l) \<Longrightarrow> r \<le> 0 \<Longrightarrow> K k l"
    and K_shutdown: "os_shutdown os d h k = (r, e, l) \<Longrightarrow> K k l"
    and K_so_error: "os_so_error os d k = (v, r, e, l) \<Longrightarrow> K k l"
    and K_close: "K k (os_close os d k)"
begin

lemma K_fold_close: "K k (fold (os_close os) ds k)"
  by (induction ds arbitrary: k) (auto intro: K_refl K_trans [OF K_close])

lemma K_close_descriptor: "K k (snd (close_descriptor os d k))"
  by (simp add: close_descriptor_def K_fold_close split: prod.splits)

lemma K_sock_send: "sock_send os d b k = (r, l) \<Longrightarrow> K k l"
  by (auto simp: sock_send_def Let_def split: prod.splits if_splits intro: K_send)

lemma K_sock_recv: "sock_recv os d n k = (b, r, l) \<Longrightarrow> tr_count r \<le> 0 \<Longrightarrow> K k l"
  by (auto simp: sock_recv_def Let_def split: prod.splits if_splits intro: K_recv)

lemma K_sock_shutdown: "sock_shutdown os d h k = (r, l) \<Longrightarrow> K k l"
  by (auto simp: sock_shutdown_def Let_def split: prod.splits if_splits intro: K_shutdown)

lemma K_pending_error: "pending_error os d k = (r, l) \<Longrightarrow> K k l"
  by (auto simp: pending_error_def Let_def split: prod.splits if_splits intro: K_so_error)

lemma K_sock_open: "sock_open os d t k = (r, l) \<Longrightarrow> K k l"
  by (auto simp: sock_open_def Let_def split: prod.splits if_splits intro: K_socket)

lemma K_set_nonblocking: "set_nonblocking os d k = (r, l) \<Longrightarrow> K k l"
  by (auto simp: set_nonblocking_def Let_def split: prod.splits if_splits intro: K_getfl K_trans [OF K_getfl K_setfl])

lemma K_sock_connect: "sock_connect os d a k = (r, l) \<Longrightarrow> K k l"
  by (auto simp: sock_connect_def Let_def split: prod.splits if_splits intro: K_connect)

end

locale tcp_effects = kernel_calls os K
  for os :: "'k os" and K :: "'k \<Rightarrow> 'k \<Rightarrow> bool" +
  fixes lst :: "('k, 'c, 'z) listeners"
    and R :: "('k, 'c, 'z) tcp_scheme \<Rightarrow> ('k, 'c, 'z) tcp_scheme \<Rightarrow> bool"
  assumes R_refl: "R w w"
    and R_trans: "R u v \<Longrightarrow> R v w \<Longrightarrow> R u w"
    and R_kernel: "K (t_os w) k \<Longrightarrow> R w (w\<lparr>t_os := k\<rparr>)"
    and R_emit: "(\<forall>c. e \<noteq> Data c) \<Longrightarrow> R w (tcp_emit lst e w)"
    and R_received: "os_recv os h m (t_os w) = (b, r, err, k) \<Longrightarrow> 0 < r \<Longrightarrow> R w (tcp_emit lst (Data (take (nat r) b)) (w\<lparr>t_os := k\<rparr>))"
    and R_torn_down: "is_live w \<Longrightarrow> R w (torn_down os w)"
    and R_closed: "\<not> is_live w \<Longrightarrow> R w (w\<lparr>t_state := Closed\<rparr>)"
    and R_sent: "(os_contract os \<longrightarrow> n \<le> length (t_outbuf w) - t_offset w) \<Longrightarrow> K (t_os w) k \<Longrightarrow> R w (w\<lparr>t_os := k, t_offset := t_offset w + n, t_sent := t_sent w @ take n (drop (t_offset w) (t_outbuf w))\<rparr>)"
    and R_cleared: "\<not> buffered w \<Longrightarrow> R w (w\<lparr>t_outbuf := [], t_offset := 0\<rparr>)"
    and R_interest: "R w (modify_interest i w)"
    and R_opened: "t_state w = Connecting \<Longrightarrow> K (t_os w) k \<Longrightarrow> R w (w\<lparr>t_os := k, t_state := Open\<rparr>)"
    and R_ended: "R w (w\<lparr>t_ended := True\<rparr>)"
begin

lemma R_emit_after: "R u v \<Longrightarrow> (\<forall>c. e \<noteq> Data c) \<Longrightarrow> R u (tcp_emit lst e v)"
  by (rule R_trans [OF _ R_emit])

lemma R_close_with: "R w (close_with os lst w)"
  by (auto simp: close_with_eq intro: R_emit_after R_torn_down R_closed)

lemma R_fail: "R w (fail os lst m w)"
  unfolding fail_def by (rule R_trans [OF R_emit R_close_with]) simp

lemma R_kernel_fail: "K (t_os w) k \<Longrightarrow> R w (fail os lst m (w\<lparr>t_os := k\<rparr>))"
  by (rule R_trans [OF R_kernel R_fail])

lemma R_shutdown: "R u v \<Longrightarrow> R u (case sock_shutdown os d h (t_os v) of (_, k) \<Rightarrow> v\<lparr>t_os := k\<rparr>)"
  by (auto split: prod.splits intro: R_trans [OF _ R_kernel] K_sock_shutdown)

lemma pump_related: "pump_output os' lst' w = Some w' \<Longrightarrow> os' = os \<Longrightarrow> lst' = lst \<Longrightarrow> R w w'"
proof (induction os' lst' w w' rule: pump_output.raw_induct [rotated, consumes 1, case_names step])
  case (step pump os' lst' w w')
  note IH = step(1) [OF _ refl refl, unfolded step(3,4)] and eq = step(2) [unfolded step(3,4)]
  show ?case
  proof (cases "t_offset w < length (t_outbuf w)")
    case True
    obtain sent k where s: "sock_send os (t_desc w) (drop (t_offset w) (t_outbuf w)) (t_os w) = (sent, k)"
      by (metis surj_pair)
    have "os_contract os \<longrightarrow> nat (tr_count sent) \<le> length (t_outbuf w) - t_offset w"
      using sock_send_count [OF _ s] by auto
    from R_trans [OF R_sent [OF this K_sock_send [OF s]] IH] show ?thesis
      using eq True s R_kernel_fail [OF K_sock_send [OF s]] R_kernel [OF K_sock_send [OF s]]
      by (auto simp: Let_def split: if_splits intro: R_trans [OF _ IH])
  next
    case False
    with eq show ?thesis by (auto intro: R_cleared simp: buffered_def)
  qed
qed

lemma R_recv:
  assumes "sock_recv os d n (t_os w) = (b, got, k)" and "0 < tr_count got"
  shows "R w (tcp_emit lst (Data (take (nat (tr_count got)) b)) (w\<lparr>t_os := k\<rparr>))"
  using assms R_received [of "native d" n w] by (auto simp: sock_recv_def Let_def split: prod.splits if_splits)

lemma drain_related: "drain_input os' lst' w = Some w' \<Longrightarrow> os' = os \<Longrightarrow> lst' = lst \<Longrightarrow> R w w'"
proof (induction os' lst' w w' rule: drain_input.raw_induct [rotated, consumes 1, case_names step])
  case (step drain os' lst' w w')
  note IH = step(1) [OF _ refl refl, unfolded step(3,4)] and eq = step(2) [unfolded step(3,4)]
  obtain buf got k where g: "sock_recv os (t_desc w) 65536 (t_os w) = (buf, got, k)" by (metis prod_cases3)
  show ?case
  proof (cases "0 < tr_count got")
    case True
    with R_recv [OF g] eq g show ?thesis by (auto simp: Let_def copy_buffer_def intro: R_trans [OF _ IH])
  next
    case False
    then have k: "R w (w\<lparr>t_os := k\<rparr>)" using K_sock_recv [OF g] R_kernel by simp
    then have "R w (tcp_emit lst End_event (w\<lparr>t_os := k\<rparr>))" by (rule R_emit_after) simp
    with k eq g False R_fail show ?thesis
      by (auto simp: Let_def split: if_splits intro: R_trans [OF _ R_close_with] R_trans [OF _ IH] R_trans [OF _ R_fail])
  qed
qed

lemmas R_pump = pump_related [OF _ refl refl] and R_drain = drain_related [OF _ refl refl]

lemma R_end: "R w (tcp_end os w)"
  using R_shutdown [OF R_ended [of w], of "t_desc w" Shut_write] R_ended [of w] by (simp add: tcp_end_def Let_def)

lemma R_on_connected:
  assumes "t_state w = Connecting"
  shows "R w (on_connected os lst w)"
proof -
  obtain err k where e: "pending_error os (t_desc w) (t_os w) = (err, k)" by (metis surj_pair)
  let ?w = "tcp_emit lst Connect_event (modify_interest interest_read (w\<lparr>t_os := k, t_state := Open\<rparr>))"
  have "R w (modify_interest interest_read (w\<lparr>t_os := k, t_state := Open\<rparr>))"
    by (rule R_trans [OF R_opened [OF assms K_pending_error [OF e]] R_interest])
  then have "R w ?w" by (rule R_emit_after) simp
  with e R_kernel_fail [OF K_pending_error [OF e]] R_trans [OF this R_interest] show ?thesis
    by (auto simp: on_connected_def Let_def)
qed

lemma R_on_writable:
  assumes "on_writable os lst w = Some w'"
  shows "R w w'"
proof -
  obtain v where v: "pump_output os lst w = Some v"
    using assms by (auto simp: on_writable_def split: option.splits)
  let ?w = "tcp_emit lst Drain_event (modify_interest interest_read v)"
  have "R w (modify_interest interest_read v)" by (rule R_trans [OF R_pump [OF v] R_interest])
  then have "R w ?w" by (rule R_emit_after) simp
  with R_shutdown [OF this] R_pump [OF v] v assms show ?thesis
    by (auto simp: on_writable_def Let_def split: if_splits)
qed

lemma R_on_io: "on_io os lst r w = Some w' \<Longrightarrow> R w w'"
  using R_on_writable [of w] R_on_connected [of w]
  by (auto simp: on_io_def split: option.splits if_splits intro: R_refl R_drain R_trans [OF _ R_drain])

end

text \<open>The calls of a program add the bytes it writes and the connections it starts.\<close>

locale tcp_calls = tcp_effects +
  assumes R_append: "t_state w = Open \<Longrightarrow> R w (w\<lparr>t_outbuf := t_outbuf w @ c\<rparr>)"
    and R_connecting: "\<not> valid (t_desc w) \<Longrightarrow> valid d \<Longrightarrow> K (t_os w) k \<Longrightarrow>
      R w (watch_self interest_write (w\<lparr>t_desc := d, t_os := k, t_state := Connecting, t_peer := a\<rparr>))"
begin

lemma R_write:
  assumes "tcp_write os lst chunk w = Some (b, w')"
  shows "R w w' \<and> (t_state w = Open \<longrightarrow> R (w\<lparr>t_outbuf := t_outbuf w @ chunk\<rparr>) w' \<and> (b \<longleftrightarrow> \<not> buffered w'))"
proof (cases "t_state w = Open")
  case True
  let ?w = "w\<lparr>t_outbuf := t_outbuf w @ chunk\<rparr>"
  obtain v where v: "(if buffered w then Some ?w else pump_output os lst ?w) = Some v"
    and w': "b = (\<not> buffered v)" "w' = (if buffered v then modify_interest (interest_or interest_read interest_write) v else v)"
    using assms True by (auto simp: tcp_write_def append_bytes_def Let_def split: option.splits)
  have "R ?w v" using v by (auto split: if_splits intro: R_refl R_pump)
  moreover have "buffered (modify_interest i v) = buffered v" for i
    by (simp add: buffered_def modify_interest_def)
  ultimately show ?thesis
    using R_append [OF True, of chunk] w' by (auto intro: R_trans R_trans [OF _ R_interest])
next
  case False
  with assms show ?thesis by (auto simp: tcp_write_def intro: R_fail)
qed

lemma R_start_connect:
  assumes "os_contract os" and "\<not> valid (t_desc w)"
  shows "R w (start_connect os lst addr w)"
proof -
  have scope: "R w (leave_scope os d (fail os lst m (w\<lparr>t_os := k\<rparr>)))" if "K (t_os w) k" for d m k
    unfolding leave_scope_def by (rule R_trans [OF R_kernel_fail [OF that] R_kernel [OF K_close_descriptor]])
  obtain opened k where o: "sock_open os (if is_inet6 addr then Inet6 else Inet) Stream (t_os w) = (opened, k)" by (metis surj_pair)
  obtain nb k' where n: "set_nonblocking os (op_handle opened) k = (nb, k')" by (metis surj_pair)
  obtain ec k'' where c: "sock_connect os (op_handle opened) addr k' = (ec, k'')" by (metis surj_pair)
  have K: "K (t_os w) k" "K (t_os w) k'" "K (t_os w) k''"
    using K_sock_open [OF o] K_set_nonblocking [OF n] K_sock_connect [OF c] K_trans by blast+
  show ?thesis
    using sock_open_handle [OF assms(1) o] assms(2) R_connecting [OF assms(2) _ K(3)] R_kernel_fail [OF K(1)] scope [OF K(2)] scope [OF K(3)]
    by (auto simp: start_connect_def o n c Let_def move_assign_def reset_def valid_def release_def)
qed

lemma R_connect_resolved:
  "os_contract os \<Longrightarrow> \<not> valid (t_desc w) \<Longrightarrow> R w (connect_resolved os lst addrs w)"
  by (simp add: connect_resolved_def R_fail R_start_connect)

end

section \<open>Registration with the loop\<close>

text \<open>
  The socket owns a descriptor exactly while it is connecting or open, and the loop watches that
  descriptor and nothing else.
\<close>

definition tcp_inv :: "('k, 'c, 'z) tcp_scheme \<Rightarrow> bool" where
  "tcp_inv w \<longleftrightarrow> (valid (t_desc w) \<longleftrightarrow> t_state w = Connecting \<or> t_state w = Open)
     \<and> fst ` set (watches (t_loop w)) = (if valid (t_desc w) then {native (t_desc w)} else {})"

definition keeps_inv :: "('k, 'c, 'z) listeners \<Rightarrow> bool" where
  "keeps_inv lst \<longleftrightarrow> (\<forall>e w. tcp_inv w \<longrightarrow> tcp_inv (lst e w))"

lemma close_descriptor_invalid [simp]: "\<not> valid (fst (close_descriptor os d k))"
  by (auto simp: close_descriptor_def reset_def valid_def invalid_handle_def split: prod.splits if_splits)

interpretation registration: tcp_calls os "\<lambda>_ _. True" lst "\<lambda>w w'. keeps_inv lst \<longrightarrow> tcp_inv w \<longrightarrow> tcp_inv w'" for os lst
  by unfold_locales
    (auto simp: keeps_inv_def tcp_emit_def tcp_inv_def torn_down_def is_live_def modify_interest_def watch_keys watch_self_def)

text \<open>
  C12: A socket owns a descriptor exactly while it is connecting or open, and its loop then watches
  that descriptor and no other; every operation, every readiness event and every error path keeps
  this, whatever the listeners do with the socket. (A connection attempt is one for a socket without
  a descriptor.)
\<close>

theorem tcp_registration:
  assumes "os_contract os" and "keeps_inv lst" and "tcp_inv w"
  shows "(\<forall>r w'. on_io os lst r w = Some w' \<longrightarrow> tcp_inv w')
    \<and> (\<forall>chunk b w'. tcp_write os lst chunk w = Some (b, w') \<longrightarrow> tcp_inv w')
    \<and> tcp_inv (tcp_end os w) \<and> tcp_inv (tcp_destroy os lst w)
    \<and> (\<not> valid (t_desc w) \<longrightarrow> tcp_inv (connect_resolved os lst addrs w))"
  using assms registration.R_on_io [of os lst _ w] registration.R_write [of os lst _ w]
    registration.R_end [of lst w os] registration.R_close_with [of lst w os]
    registration.R_connect_resolved [of os w lst addrs]
  by (auto simp: tcp_destroy_def)

section \<open>The sending side refines a channel\<close>

text \<open>
  The specification of the sending side: a channel is the bytes transmitted and the bytes still
  queued. Bytes are queued at the end and transmitted from the front, in pieces of any size.
\<close>

type_synonym channel = "buffer \<times> buffer"

inductive chan_step :: "channel \<Rightarrow> channel \<Rightarrow> bool" where
  queue: "chan_step (s, q) (s, q @ c)"
| transmit: "chan_step (s, q) (s @ take n q, drop n q)"

lemma chan_steps_stream: "chan_step\<^sup>*\<^sup>* (s, q) (s', q') \<Longrightarrow> \<exists>c. s' @ q' = s @ q @ c"
proof (induction "(s', q')" arbitrary: s' q' rule: rtranclp_induct)
  case (step y)
  obtain s'' q'' where y: "y = (s'', q'')" by (cases y)
  with step obtain c where "s'' @ q'' = s @ q @ c" by blast
  with step(2) y show ?case by (auto elim!: chan_step.cases) (metis append.assoc)
qed simp

definition channel :: "('k, 'c, 'z) tcp_scheme \<Rightarrow> channel" where
  "channel w = (t_sent w, drop (t_offset w) (t_outbuf w))"

definition out_ok :: "('k, 'c, 'z) tcp_scheme \<Rightarrow> bool" where
  "out_ok w \<longleftrightarrow> t_offset w \<le> length (t_outbuf w)"

definition stream :: "('k, 'c, 'z) tcp_scheme \<Rightarrow> buffer" where
  "stream w = t_sent w @ drop (t_offset w) (t_outbuf w)"

lemma stream_fields [simp]:
  "stream (w\<lparr>t_os := k\<rparr>) = stream w" "stream (w\<lparr>t_events := es\<rparr>) = stream w" "stream (w\<lparr>t_state := c\<rparr>) = stream w"
  "stream (w\<lparr>t_loop := l\<rparr>) = stream w" "stream (w\<lparr>t_desc := d\<rparr>) = stream w" "stream (w\<lparr>t_peer := a\<rparr>) = stream w"
  "stream (w\<lparr>t_ended := b\<rparr>) = stream w"
  by (simp_all add: stream_def)

lemma out_ok_fields [simp]:
  "out_ok (w\<lparr>t_os := k\<rparr>) = out_ok w" "out_ok (w\<lparr>t_events := es\<rparr>) = out_ok w" "out_ok (w\<lparr>t_state := c\<rparr>) = out_ok w"
  "out_ok (w\<lparr>t_loop := l\<rparr>) = out_ok w" "out_ok (w\<lparr>t_desc := d\<rparr>) = out_ok w" "out_ok (w\<lparr>t_peer := a\<rparr>) = out_ok w"
  "out_ok (w\<lparr>t_ended := b\<rparr>) = out_ok w"
  by (simp_all add: out_ok_def)

definition simulates :: "('k, 'c, 'z) tcp_scheme \<Rightarrow> ('k, 'c, 'z) tcp_scheme \<Rightarrow> bool" where
  "simulates w w' \<longleftrightarrow> (out_ok w \<longrightarrow> out_ok w' \<and> chan_step\<^sup>*\<^sup>* (channel w) (channel w'))"

definition keeps_channel :: "('k, 'c, 'z) listeners \<Rightarrow> bool" where
  "keeps_channel lst \<longleftrightarrow> (\<forall>e w. simulates w (lst e w))"

lemma simulates_same:
  "t_sent w' = t_sent w \<Longrightarrow> t_offset w' = t_offset w \<Longrightarrow> t_outbuf w' = t_outbuf w \<Longrightarrow> simulates w w'"
  by (simp add: simulates_def channel_def out_ok_def)

lemma simulates_trans: "simulates u v \<Longrightarrow> simulates v w \<Longrightarrow> simulates u w"
  by (auto simp: simulates_def)

lemma simulates_append: "simulates w (w\<lparr>t_outbuf := t_outbuf w @ c\<rparr>)"
  by (auto simp: simulates_def channel_def out_ok_def intro: chan_step.queue)

lemma simulates_sent:
  "n \<le> length (t_outbuf w) - t_offset w \<Longrightarrow>
   simulates w (w\<lparr>t_os := k, t_offset := t_offset w + n, t_sent := t_sent w @ take n (drop (t_offset w) (t_outbuf w))\<rparr>)"
  using chan_step.transmit [of "t_sent w" "drop (t_offset w) (t_outbuf w)" n]
  by (auto simp: simulates_def channel_def out_ok_def add.commute)

lemma simulates_cleared: "\<not> buffered w \<Longrightarrow> simulates w (w\<lparr>t_outbuf := [], t_offset := 0\<rparr>)"
  by (simp add: simulates_def channel_def out_ok_def buffered_def)

lemma simulates_emit: "keeps_channel lst \<Longrightarrow> simulates w (tcp_emit lst e w)"
  unfolding tcp_emit_def keeps_channel_def by (blast intro: simulates_trans simulates_same [of "w\<lparr>t_events := _\<rparr>" w, simplified])

lemma simulates_received: "keeps_channel lst \<Longrightarrow> simulates w (tcp_emit lst e (w\<lparr>t_os := k\<rparr>))"
  by (rule simulates_trans [OF simulates_same simulates_emit]) simp_all

interpretation sending: tcp_calls os "\<lambda>_ _. True" lst "\<lambda>w w'. os_contract os \<longrightarrow> keeps_channel lst \<longrightarrow> simulates w w'" for os lst
  by unfold_locales
    (auto intro: simulates_same simulates_trans simulates_append simulates_sent simulates_cleared simulates_emit
      simulates_received simp: torn_down_def modify_interest_def watch_self_def)


text \<open>A system whose state is the room left in the send buffer.\<close>

definition capacity_os :: "nat os" where
  "capacity_os = (quiet_os letter_inet)\<lparr>os_send := \<lambda>_ b k.
     if k = 0 then (-1, EAGAIN, 0) else (int (min k (length b)), 0, k - min k (length b))\<rparr>"

lemma capacity_os_contract: "os_contract capacity_os"
  by (auto simp: os_contract_def capacity_os_def quiet_os_def EAGAIN_def)

definition open_socket :: "'k \<Rightarrow> ('k, nat) tcp" where
  "open_socket k = tcp_begin_reading (tcp_adopt \<lparr>owned_fd = 7\<rparr> null_address 0 (make_loop 3) k)"

lemmas tcp_eval = open_socket_def tcp_begin_reading_def tcp_adopt_def tcp_create_def watch_self_def
  capacity_os_def quiet_os_def sock_send_def sock_recv_def would_block_def EAGAIN_def EWOULDBLOCK_def EINTR_def
  native_def valid_def

lemma open_socket_ok: "tcp_inv (open_socket k)" "out_ok (open_socket k)" "channel (open_socket k) = ([], [])"
  by (simp_all add: tcp_eval tcp_inv_def out_ok_def channel_def watch_keys make_loop_def)

lemma write_three:
  "\<exists>w'. tcp_write capacity_os (\<lambda>_ w. w) [1, 2, 3] (open_socket 2) = Some (False, w')"
  unfolding tcp_write_def
  by (subst pump_output.simps, subst pump_output.simps) (simp add: tcp_eval buffered_def append_bytes_def)

theorem tcp_registration_witness:
  "\<exists>w'. tcp_write capacity_os (\<lambda>_ w. w) [1, 2, 3] (open_socket 2) = Some (False, w') \<and> tcp_inv w'"
proof -
  have "keeps_inv (\<lambda>_ (w :: (nat, nat) tcp). w)" by (simp add: keeps_inv_def)
  from tcp_registration [OF capacity_os_contract this open_socket_ok(1)] write_three show ?thesis by blast
qed


section \<open>Termination of the send loop\<close>

text \<open>\<open>rank\<close> bounds how often in a row a call of \<^verbatim>\<open>send\<close> is interrupted by a signal.\<close>

definition interrupts_bounded :: "'k os \<Rightarrow> ('k \<Rightarrow> nat) \<Rightarrow> bool" where
  "interrupts_bounded os rank \<longleftrightarrow> (\<forall>d b k r k'. os_send os d b k = (r, EINTR, k') \<and> r < 0 \<longrightarrow> rank k' < rank k)"

lemma sock_send_interrupted:
  "interrupts_bounded os rank \<Longrightarrow> sock_send os d b k = (r, k') \<Longrightarrow> tr_count r < 0 \<Longrightarrow> tr_error r = EINTR \<Longrightarrow> rank k' < rank k"
  unfolding interrupts_bounded_def sock_send_def by (auto simp: Let_def split: prod.splits if_splits)

lemma pump_terminates:
  assumes "interrupts_bounded os rank"
  shows "\<exists>w'. pump_output os lst w = Some w'"
proof (induction w rule: wf_induct_rule [OF wf_measures [of "[\<lambda>w. length (t_outbuf w) - t_offset w, \<lambda>w. rank (t_os w)]"]])
  case (1 w)
  show ?case
  proof (cases "t_offset w < length (t_outbuf w)")
    case True
    obtain sent k where s: "sock_send os (t_desc w) (drop (t_offset w) (t_outbuf w)) (t_os w) = (sent, k)"
      by (metis surj_pair)
    let ?v = "w\<lparr>t_os := k, t_offset := t_offset w + nat (tr_count sent),
        t_sent := t_sent w @ take (nat (tr_count sent)) (drop (t_offset w) (t_outbuf w))\<rparr>"
    have "0 < tr_count sent \<Longrightarrow> \<exists>w'. pump_output os lst ?v = Some w'"
      using True by (intro 1) auto
    moreover have "tr_count sent < 0 \<Longrightarrow> tr_error sent = EINTR \<Longrightarrow> \<exists>w'. pump_output os lst (w\<lparr>t_os := k\<rparr>) = Some w'"
      using sock_send_interrupted [OF assms s] by (intro 1) auto
    ultimately show ?thesis
      using True s by (subst pump_output.simps) (auto simp: Let_def)
  next
    case False
    then show ?thesis by (subst pump_output.simps) simp
  qed
qed

text \<open>
  C20: A write always returns, however little the kernel takes at a time and whatever the error
  listeners do, if only the kernel does not interrupt a send forever.
\<close>

theorem tcp_write_terminates:
  assumes "interrupts_bounded os rank"
  shows "\<exists>b w'. tcp_write os lst chunk w = Some (b, w')"
  using pump_terminates [OF assms, of lst "w\<lparr>t_outbuf := append_bytes (t_outbuf w) chunk\<rparr>"]
  by (auto simp: tcp_write_def Let_def)

theorem tcp_write_terminates_witness:
  "\<exists>b w'. tcp_write capacity_os (\<lambda>_ w. w) [1, 2, 3] (open_socket 2) = Some (b, w')"
  using tcp_write_terminates [of capacity_os "\<lambda>_. 0" "\<lambda>_ w. w" "[1, 2, 3]" "open_socket 2"]
  by (auto simp: interrupts_bounded_def tcp_eval split: if_splits)

section \<open>Receiving\<close>

text \<open>
  The documented behaviour of a stream socket: \<^verbatim>\<open>recv\<close> returns the bytes that arrived in pieces
  \<open>inp k\<close>; after the last one it returns 0 if the peer closed its side, and would block otherwise.
\<close>

definition stream_input :: "'k os \<Rightarrow> int \<Rightarrow> ('k \<Rightarrow> buffer list) \<Rightarrow> ('k \<Rightarrow> bool) \<Rightarrow> bool" where
  "stream_input os d inp eof \<longleftrightarrow> (\<forall>k. case inp k of
       [] \<Rightarrow> (\<exists>buf k'. os_recv os d 65536 k = (buf, if eof k then 0 else -1, if eof k then 0 else EAGAIN, k'))
     | c # rest \<Rightarrow> c \<noteq> [] \<and> (\<exists>k'. os_recv os d 65536 k = (c, int (length c), 0, k') \<and> inp k' = rest \<and> eof k' = eof k))"

text \<open>Listeners that leave the socket and its input alone; they may write.\<close>

definition leaves_input :: "('k \<Rightarrow> buffer list) \<Rightarrow> ('k \<Rightarrow> bool) \<Rightarrow> ('k, 'c, 'z) listeners \<Rightarrow> bool" where
  "leaves_input inp eof lst \<longleftrightarrow> (\<forall>e w. t_desc (lst e w) = t_desc w \<and> t_state (lst e w) = t_state w
     \<and> t_events (lst e w) = t_events w \<and> inp (t_os (lst e w)) = inp (t_os w) \<and> eof (t_os (lst e w)) = eof (t_os w))"

definition received_events :: "buffer list \<Rightarrow> bool \<Rightarrow> tcp_event list" where
  "received_events chunks closed = map Data chunks @ (if closed then [End_event, Close_event] else [])"

lemma close_live:
  assumes "leaves_input inp eof lst" and "is_live w"
  shows "t_events (close_with os lst w) = t_events w @ [Close_event]" and "t_state (close_with os lst w) = Closed"
    and "\<not> valid (t_desc (close_with os lst w))"
  using assms by (simp_all add: close_with_eq leaves_input_def tcp_emit_def torn_down_def)

lemma drain_receives:
  assumes "stream_input os d inp eof" and "leaves_input inp eof lst"
    and "native (t_desc w) = d" and "is_live w" and "inp (t_os w) = cs"
  shows "\<exists>w'. drain_input os lst w = Some w' \<and> t_events w' = t_events w @ received_events cs (eof (t_os w))
    \<and> (if eof (t_os w) then t_state w' = Closed \<and> \<not> valid (t_desc w') else t_state w' = t_state w)"
  using assms(3-5)
proof (induction cs arbitrary: w)
  case Nil
  obtain buf k where k: "os_recv os d 65536 (t_os w) = (buf, if eof (t_os w) then 0 else -1, if eof (t_os w) then 0 else EAGAIN, k)"
    using spec [OF assms(1) [unfolded stream_input_def], of "t_os w"] Nil by auto
  let ?w = "tcp_emit lst End_event (w\<lparr>t_os := k\<rparr>)"
  have "is_live ?w" "t_events ?w = t_events w @ [End_event]"
    using Nil assms(2) by (simp_all add: leaves_input_def is_live_def tcp_emit_def)
  with k Nil close_live [OF assms(2), of ?w] show ?case
    by (subst drain_input.simps)
      (simp add: sock_recv_def received_events_def would_block_def EAGAIN_def Let_def)
next
  case (Cons c cs)
  then obtain k where k: "c \<noteq> []" "os_recv os d 65536 (t_os w) = (c, int (length c), 0, k)" "inp k = cs" "eof k = eof (t_os w)"
    using spec [OF assms(1) [unfolded stream_input_def], of "t_os w"] by auto
  let ?w = "tcp_emit lst (Data c) (w\<lparr>t_os := k\<rparr>)"
  have w: "native (t_desc ?w) = d" "is_live ?w" "inp (t_os ?w) = cs" "eof (t_os ?w) = eof (t_os w)"
    "t_events ?w = t_events w @ [Data c]" "t_state ?w = t_state w"
    using assms(2) Cons.prems k by (simp_all add: leaves_input_def tcp_emit_def is_live_def)
  moreover have "drain_input os lst w = drain_input os lst ?w"
    using k Cons.prems by (subst drain_input.simps) (simp add: sock_recv_def copy_buffer_def)
  ultimately show ?case
    using Cons.IH [OF w(1-3)] by (cases "eof (t_os w)") (auto simp: received_events_def)
qed

text \<open>
  C21: When an open connection becomes readable, everything that has arrived is delivered as data
  events, in order and complete, and the loop returns; if the peer has closed its side, an end event
  and then a close event follow, once each and last, and the socket is closed.
\<close>

theorem tcp_delivery:
  assumes "stream_input os (native (t_desc w)) inp eof" and "leaves_input inp eof lst"
    and "t_state w = Open" and "valid (t_desc w)" and "readable r" and "\<not> writable r"
  shows "\<exists>w'. on_io os lst r w = Some w'
    \<and> t_events w' = t_events w @ map Data (inp (t_os w)) @ (if eof (t_os w) then [End_event, Close_event] else [])
    \<and> (eof (t_os w) \<longrightarrow> t_state w' = Closed \<and> \<not> valid (t_desc w'))"
proof -
  have "is_live w" using assms(3,4) by (simp add: is_live_def)
  from drain_receives [OF assms(1,2) refl this refl] assms(3,5,6) show ?thesis
    by (auto simp: on_io_def received_events_def split: if_splits)
qed

text \<open>A system whose state is the input that has arrived, and whether the peer has closed.\<close>

definition input_os :: "(buffer list \<times> bool) os" where
  "input_os = (quiet_os letter_inet)\<lparr>os_recv := \<lambda>_ _ (cs, eof). case dropWhile (\<lambda>c. c = []) cs of
       [] \<Rightarrow> ([], if eof then 0 else -1, if eof then 0 else EAGAIN, (cs, eof))
     | c # rest \<Rightarrow> (c, int (length c), 0, (rest, eof))\<rparr>"

lemma dropWhile_Nil: "dropWhile P xs = [] \<Longrightarrow> filter (\<lambda>x. \<not> P x) xs = []"
  by (induction xs) (auto split: if_splits)

lemma dropWhile_Cons: "dropWhile P xs = y # ys \<Longrightarrow> \<not> P y \<and> filter (\<lambda>x. \<not> P x) xs = y # filter (\<lambda>x. \<not> P x) ys"
  by (induction xs) (auto split: if_splits)

lemma input_os_stream: "stream_input input_os d (\<lambda>(cs, _). filter (\<lambda>c. c \<noteq> []) cs) snd"
  unfolding stream_input_def
proof
  fix k :: "buffer list \<times> bool"
  obtain cs e where k: "k = (cs, e)" by (cases k)
  show "case (\<lambda>(cs, _). filter (\<lambda>c. c \<noteq> []) cs) k of
       [] \<Rightarrow> (\<exists>buf k'. os_recv input_os d 65536 k = (buf, if snd k then 0 else -1, if snd k then 0 else EAGAIN, k'))
     | c # rest \<Rightarrow> c \<noteq> [] \<and> (\<exists>k'. os_recv input_os d 65536 k = (c, int (length c), 0, k')
         \<and> (\<lambda>(cs, _). filter (\<lambda>c. c \<noteq> []) cs) k' = rest \<and> snd k' = snd k)"
    using dropWhile_Nil [of "\<lambda>c. c = []" cs] dropWhile_Cons [of "\<lambda>c. c = []" cs]
    by (cases "dropWhile (\<lambda>c. c = []) cs") (simp_all add: k input_os_def del: dropWhile_eq_Nil_conv)
qed

theorem tcp_delivery_witness:
  "\<exists>w'. on_io input_os (\<lambda>_ w. w) \<lparr>readable = True, writable = False, error = False, hangup = True\<rparr>
      (open_socket ([[1, 2], [3]], True)) = Some w'
    \<and> t_events w' = [Data [1, 2], Data [3], End_event, Close_event]"
  using tcp_delivery [OF input_os_stream, where w = "open_socket ([[1, 2], [3]], True)" and lst = "\<lambda>_ w. w"
      and r = "\<lparr>readable = True, writable = False, error = False, hangup = True\<rparr>"]
  by (auto simp: leaves_input_def tcp_eval)

section \<open>Where the socket departs from its description\<close>

text \<open>A failure before there is a descriptor emits an error and no close event.\<close>

lemma error_without_close:
  assumes "\<not> valid (t_desc w)"
  shows "t_events (connect_resolved os (\<lambda>_ w. w) [] w) =
    t_events w @ [Error_event ''ENOTFOUND: getaddrinfo returned no results'']"
  using assms by (simp add: connect_resolved_def fail_def tcp_emit_def close_with_eq is_live_def)

text \<open>A socket destroyed while its name is being resolved is connected all the same.\<close>

lemma destroyed_socket_connects:
  assumes "t_state w = Idle" and "\<not> valid (t_desc w)"
    and "sock_open os (if is_inet6 a then Inet6 else Inet) Stream (t_os w) = (\<lparr>op_handle = d, op_error = 0\<rparr>, k)"
    and "set_nonblocking os d k = (0, k')" and "sock_connect os d a k' = (EINPROGRESS, k'')"
  shows "t_state (tcp_destroy os lst w) = Closed
    \<and> t_state (connect_resolved os lst (a # as) (tcp_destroy os lst w)) = Connecting"
  using assms by (simp add: tcp_destroy_def close_with_eq is_live_def connect_resolved_def start_connect_def Let_def
      watch_self_def split: prod.splits)

text \<open>
  Ending a socket that is still connecting only sets a flag, and nothing shuts the write side down
  when the connection is there and nothing is queued.
\<close>

lemma end_while_connecting:
  assumes "t_state w = Connecting" and "pending_error os (t_desc w) (t_os w) = (0, k)" and "\<not> buffered w"
  shows "tcp_end os w = w\<lparr>t_ended := True\<rparr>
    \<and> t_os (on_connected os (\<lambda>_ w. w) (tcp_end os w)) = k \<and> t_state (on_connected os (\<lambda>_ w. w) (tcp_end os w)) = Open"
  using assms by (simp add: tcp_end_def on_connected_def modify_interest_def tcp_emit_def buffered_def)

text \<open>A write after \<^verbatim>\<open>end\<close> is not refused while the socket is open.\<close>

lemma write_after_end:
  assumes "t_state w = Open" and "tcp_write os lst chunk (tcp_end os w) = Some (b, w')"
  shows "t_state (tcp_end os w) = Open \<and> (b \<longleftrightarrow> \<not> buffered w')"
proof -
  have "t_state (tcp_end os w) = Open"
    using assms(1) by (simp add: tcp_end_def Let_def split: prod.splits)
  with registration.R_write [OF assms(2)] show ?thesis by simp
qed

text \<open>A new connection starts with what an earlier one left unsent, and ended if that was.\<close>

lemma reconnect_keeps_backlog:
  assumes "sock_open os (if is_inet6 a then Inet6 else Inet) Stream (t_os w) = (\<lparr>op_handle = d, op_error = 0\<rparr>, k)"
    and "set_nonblocking os d k = (0, k')" and "sock_connect os d a k' = (EINPROGRESS, k'')"
  shows "t_state (connect_resolved os lst (a # as) w) = Connecting
    \<and> channel (connect_resolved os lst (a # as) w) = channel w \<and> t_ended (connect_resolved os lst (a # as) w) = t_ended w"
  using assms by (simp add: connect_resolved_def start_connect_def Let_def watch_self_def channel_def split: prod.splits)

text \<open>The destructor closes the descriptor but leaves its watch.\<close>

lemma socket_destructor_leaves_watch:
  assumes "tcp_inv w" and "valid (t_desc w)"
  shows "\<not> valid (t_desc (destructor os w)) \<and> native (t_desc w) \<in> fst ` set (watches (t_loop (destructor os w)))"
proof -
  obtain d k where "close_descriptor os (t_desc w) (t_os w) = (d, k)" by (metis surj_pair)
  with assms close_descriptor_invalid [of os "t_desc w" "t_os w"] show ?thesis
    by (simp add: destructor_def tcp_inv_def)
qed

end
