(* ===== verification/Tcp_Server.thy ===== *)
theory Tcp_Server
  imports Tcp_Socket
begin

text \<open>
  \<^verbatim>\<open>protocol::tcp::server\<close> (protocol/tcp/server.hpp): a listening socket on the event loop. Accepted
  sockets are objects named by numbers; \<open>s_conns\<close> is the list of those the server keeps alive, and
  \<open>s_drops\<close> those whose close event the server listens to.
\<close>

datatype server_event =
    Listening
  | Connection nat
  | Error_event string
  | Closed

record ('k, 'c) tcp_server =
  s_fd :: descriptor
  s_bound :: socket_address
  s_conns :: "nat list"
  s_drops :: "nat list"
  s_next :: nat
  s_objects :: "nat \<rightharpoonup> descriptor \<times> socket_address"
  s_cb :: 'c
  s_conn_cb :: "nat \<Rightarrow> 'c"
  s_loop :: "'c event_loop"
  s_os :: 'k
  s_events :: "server_event list"

type_synonym ('k, 'c, 'z) server_listeners =
  "server_event \<Rightarrow> ('k, 'c, 'z) tcp_server_scheme \<Rightarrow> ('k, 'c, 'z) tcp_server_scheme"

definition server_create :: "'c \<Rightarrow> (nat \<Rightarrow> 'c) \<Rightarrow> 'c event_loop \<Rightarrow> 'k \<Rightarrow> ('k, 'c) tcp_server" where
  "server_create cb conn_cb loop k =
     \<lparr>s_fd = null_descriptor, s_bound = null_address, s_conns = [], s_drops = [], s_next = 0, s_objects = Map.empty,
      s_cb = cb, s_conn_cb = conn_cb, s_loop = loop, s_os = k, s_events = []\<rparr>"

definition server_emit ::
  "('k, 'c, 'z) server_listeners \<Rightarrow> server_event \<Rightarrow> ('k, 'c, 'z) tcp_server_scheme \<Rightarrow> ('k, 'c, 'z) tcp_server_scheme" where
  "server_emit lst e w = lst e (w\<lparr>s_events := s_events w @ [e]\<rparr>)"

text \<open>A failure in \<^verbatim>\<open>listen\<close> emits the error and then leaves the scope of the local descriptor.\<close>

definition listen_failed ::
  "'k os \<Rightarrow> ('k, 'c, 'z) server_listeners \<Rightarrow> string \<Rightarrow> descriptor \<Rightarrow> ('k, 'c, 'z) tcp_server_scheme \<Rightarrow> ('k, 'c, 'z) tcp_server_scheme" where
  "listen_failed os lst message fd w =
     (let w = server_emit lst (Error_event message) w in w\<lparr>s_os := snd (close_descriptor os fd (s_os w))\<rparr>)"

definition server_listen ::
  "'k os \<Rightarrow> ('k, 'c, 'z) server_listeners \<Rightarrow> u16 \<Rightarrow> string \<Rightarrow> ('k, 'c, 'z) tcp_server_scheme \<Rightarrow> ('k, 'c, 'z) tcp_server_scheme" where
  "server_listen os lst port host w =
     (case resolve_one os host port False of
        None \<Rightarrow> server_emit lst (Error_event (''EADDRNOTAVAIL: could not resolve '' @ host)) w
      | Some addr \<Rightarrow>
          let (opened, k) = sock_open os (if is_inet6 addr then Inet6 else Inet) Stream (s_os w); w = w\<lparr>s_os := k\<rparr> in
          if op_error opened \<noteq> 0 then server_emit lst (Error_event (describe os (op_error opened) ''socket'')) w
          else let fd = op_handle opened; (_, k) = set_reuse_addr os fd (s_os w); (e, k) = sock_bind os fd addr k;
                   w = w\<lparr>s_os := k\<rparr> in
            if e \<noteq> 0 then listen_failed os lst (describe os e ''bind'') fd w
            else let (e, k) = sock_listen os fd 1024 (s_os w); w = w\<lparr>s_os := k\<rparr> in
              if e \<noteq> 0 then listen_failed os lst (describe os e ''listen'') fd w
              else let (e, k) = set_nonblocking os fd (s_os w); w = w\<lparr>s_os := k\<rparr> in
                if e \<noteq> 0 then listen_failed os lst (describe os e ''listen'') fd w
                else let (bound, k) = local_endpoint os fd (s_os w);
                         (self, _, closed) = move_assign (s_fd w) fd;
                         w = w\<lparr>s_bound := bound, s_fd := self, s_os := fold (os_close os) closed k\<rparr>;
                         w = w\<lparr>s_loop := watch (native (s_fd w)) interest_read (s_cb w) (s_loop w)\<rparr>
                     in server_emit lst Listening w)"

definition server_close ::
  "'k os \<Rightarrow> ('k, 'c, 'z) server_listeners \<Rightarrow> ('k, 'c, 'z) tcp_server_scheme \<Rightarrow> ('k, 'c, 'z) tcp_server_scheme" where
  "server_close os lst w =
     (if \<not> valid (s_fd w) then w
      else let w = w\<lparr>s_loop := unwatch (native (s_fd w)) (s_loop w)\<rparr>;
               (d, k) = close_descriptor os (s_fd w) (s_os w);
               w = w\<lparr>s_fd := d, s_os := k\<rparr>
           in server_emit lst Closed w)"

definition server_destroy :: "'k os \<Rightarrow> ('k, 'c, 'z) tcp_server_scheme \<Rightarrow> ('k, 'c, 'z) tcp_server_scheme" where
  "server_destroy os w = (let (d, k) = close_descriptor os (s_fd w) (s_os w) in w\<lparr>s_fd := d, s_os := k\<rparr>)"

text \<open>One accepted descriptor becomes a socket that reads, is kept alive and is announced.\<close>

definition add_conn ::
  "('k, 'c, 'z) server_listeners \<Rightarrow> descriptor \<Rightarrow> socket_address \<Rightarrow> ('k, 'c, 'z) tcp_server_scheme \<Rightarrow> ('k, 'c, 'z) tcp_server_scheme" where
  "add_conn lst d peer w =
     (let n = s_next w;
          conn = tcp_begin_reading (tcp_adopt d peer (s_conn_cb w n) (s_loop w) (s_os w));
          w = w\<lparr>s_next := n + 1, s_objects := (s_objects w)(n \<mapsto> (t_desc conn, t_peer conn)), s_loop := t_loop conn,
                s_conns := s_conns w @ [n], s_drops := s_drops w @ [n]\<rparr>
      in server_emit lst (Connection n) w)"

partial_function (option) accept_ready ::
  "'k os \<Rightarrow> ('k, 'c, 'z) server_listeners \<Rightarrow> ('k, 'c, 'z) tcp_server_scheme \<Rightarrow> ('k, 'c, 'z) tcp_server_scheme option" where
  "accept_ready os lst w =
     (let (a, k) = sock_accept os (s_fd w) (s_os w); w = w\<lparr>s_os := k\<rparr> in
      if ac_error a \<noteq> 0 then
        if would_block (ac_error a) then Some w
        else if ac_error a = EINTR then accept_ready os lst w
        else Some (server_emit lst (Error_event (describe os (ac_error a) ''accept'')) w)
      else let (e, k) = set_nonblocking os (ac_handle a) (s_os w); w = w\<lparr>s_os := k\<rparr> in
        if e \<noteq> 0 then accept_ready os lst (w\<lparr>s_os := snd (close_descriptor os (ac_handle a) (s_os w))\<rparr>)
        else accept_ready os lst (add_conn lst (ac_handle a) (ac_peer a) w))"

definition drop_conn :: "nat \<Rightarrow> ('k, 'c, 'z) tcp_server_scheme \<Rightarrow> ('k, 'c, 'z) tcp_server_scheme" where
  "drop_conn n w = w\<lparr>s_conns := filter (\<lambda>m. m \<noteq> n) (s_conns w)\<rparr>"

text \<open>What the server does when the close event of a connection is emitted.\<close>

definition conn_closed :: "nat \<Rightarrow> ('k, 'c, 'z) tcp_server_scheme \<Rightarrow> ('k, 'c, 'z) tcp_server_scheme" where
  "conn_closed n w = (if n \<in> set (s_drops w) then drop_conn n w else w)"

section \<open>Accepting\<close>

text \<open>
  The documented behaviour of a listening socket: \<^verbatim>\<open>accept\<close> takes the connections of its backlog in
  order and would block when there are none.
\<close>

definition accept_queue :: "'k os \<Rightarrow> int \<Rightarrow> ('k \<Rightarrow> (int \<times> sockaddr) list) \<Rightarrow> bool" where
  "accept_queue os d queue \<longleftrightarrow>
     (\<forall>k. case queue k of
        [] \<Rightarrow> (\<exists>a k'. os_accept os d k = (a, -1, EAGAIN, k') \<and> queue k' = [])
      | (c, a) # rest \<Rightarrow> 0 \<le> c \<and> (\<exists>k'. os_accept os d k = (a, c, 0, k') \<and> queue k' = rest))
     \<and> (\<forall>s k. \<exists>k'. set_nonblocking os s k = (0, k') \<and> queue k' = queue k)"

lemma accept_queueD:
  assumes "accept_queue os d queue"
  shows "queue k = [] \<Longrightarrow> \<exists>a k'. os_accept os d k = (a, -1, EAGAIN, k') \<and> queue k' = []"
    and "queue k = (c, a) # rest \<Longrightarrow> 0 \<le> c \<and> (\<exists>k'. os_accept os d k = (a, c, 0, k') \<and> queue k' = rest)"
    and "\<exists>k'. set_nonblocking os s k = (0, k') \<and> queue k' = queue k"
  using spec [OF conjunct1 [OF assms [unfolded accept_queue_def]], of k]
    conjunct2 [OF assms [unfolded accept_queue_def]]
  by auto

text \<open>Listeners that leave the server and its backlog alone.\<close>

definition leaves_server :: "('k \<Rightarrow> (int \<times> sockaddr) list) \<Rightarrow> ('k, 'c, 'z) server_listeners \<Rightarrow> bool" where
  "leaves_server queue lst \<longleftrightarrow> (\<forall>e w. s_fd (lst e w) = s_fd w \<and> s_next (lst e w) = s_next w
     \<and> s_conns (lst e w) = s_conns w \<and> s_drops (lst e w) = s_drops w \<and> s_objects (lst e w) = s_objects w
     \<and> s_events (lst e w) = s_events w \<and> queue (s_os (lst e w)) = queue (s_os w))"

lemma accept_all:
  assumes "accept_queue os d queue" and "leaves_server queue lst"
    and "native (s_fd w) = d" and "queue (s_os w) = q"
  shows "\<exists>w'. accept_ready os lst w = Some w' \<and> queue (s_os w') = []
    \<and> s_events w' = s_events w @ map Connection [s_next w ..< s_next w + length q]
    \<and> s_conns w' = s_conns w @ [s_next w ..< s_next w + length q]
    \<and> s_drops w' = s_drops w @ [s_next w ..< s_next w + length q]
    \<and> (\<forall>i < length q. s_objects w' (s_next w + i) = Some (adopt (fst (q ! i)), from_sockaddr (os_inet os) (snd (q ! i))))
    \<and> (\<forall>n < s_next w. s_objects w' n = s_objects w n)"
  using assms(3,4)
proof (induction q arbitrary: w)
  case Nil
  obtain a k where "os_accept os d (s_os w) = (a, -1, EAGAIN, k)" "queue k = []"
    using accept_queueD(1) [OF assms(1)] Nil by blast
  with Nil show ?case
    by (subst accept_ready.simps) (simp add: sock_accept_def would_block_def EAGAIN_def)
next
  case (Cons x q)
  obtain c a where x: "x = (c, a)" by (cases x)
  obtain k where k: "0 \<le> c" "os_accept os d (s_os w) = (a, c, 0, k)" "queue k = q"
    using accept_queueD(2) [OF assms(1)] Cons.prems x by blast
  obtain k' where k': "set_nonblocking os (adopt c) k = (0, k')" "queue k' = q"
    using accept_queueD(3) [OF assms(1)] k(3) by metis
  let ?w = "add_conn lst (adopt c) (from_sockaddr (os_inet os) a) (w\<lparr>s_os := k'\<rparr>)"
  have w: "native (s_fd ?w) = d" "queue (s_os ?w) = q" "s_next ?w = Suc (s_next w)"
    "s_events ?w = s_events w @ [Connection (s_next w)]" "s_conns ?w = s_conns w @ [s_next w]"
    "s_drops ?w = s_drops w @ [s_next w]"
    "s_objects ?w = (s_objects w)(s_next w \<mapsto> (adopt c, from_sockaddr (os_inet os) a))"
    using assms(2) Cons.prems k'(2)
    by (simp_all add: leaves_server_def add_conn_def server_emit_def Let_def tcp_begin_reading_def watch_self_def
        tcp_adopt_def tcp_create_def)
  have step: "accept_ready os lst w = accept_ready os lst ?w"
    using k k'(1) Cons.prems by (subst accept_ready.simps) (simp add: sock_accept_def)
  have ids: "[s_next w ..< s_next w + length (x # q)] = s_next w # [Suc (s_next w) ..< Suc (s_next w) + length q]"
    by (subst upt_conv_Cons) simp_all
  obtain w' where w': "accept_ready os lst ?w = Some w'" "queue (s_os w') = []"
    "s_events w' = s_events ?w @ map Connection [s_next ?w ..< s_next ?w + length q]"
    "s_conns w' = s_conns ?w @ [s_next ?w ..< s_next ?w + length q]"
    "s_drops w' = s_drops ?w @ [s_next ?w ..< s_next ?w + length q]"
    "\<And>i. i < length q \<Longrightarrow> s_objects w' (s_next ?w + i) = Some (adopt (fst (q ! i)), from_sockaddr (os_inet os) (snd (q ! i)))"
    "\<And>n. n < s_next ?w \<Longrightarrow> s_objects w' n = s_objects ?w n"
    using Cons.IH [OF w(1,2)] by blast
  have "s_objects w' (s_next w + i) = Some (adopt (fst ((x # q) ! i)), from_sockaddr (os_inet os) (snd ((x # q) ! i)))"
    if "i < length (x # q)" for i
    using that w'(6) [of "i - 1"] w'(7) [of "s_next w"] by (cases i) (simp_all add: w x)
  moreover have "s_objects w' n = s_objects w n" if "n < s_next w" for n
    using that w'(7) [of n] by (simp add: w)
  ultimately show ?case
    unfolding ids using step w'(1-5) by (intro exI [of _ w']) (simp add: w)
qed

text \<open>
  C22: When the listening socket becomes readable, every connection of the backlog is accepted, in
  order: each becomes a socket with its own descriptor and peer address, is announced once, and is
  kept alive until its close event; then the loop returns with the backlog empty.
\<close>

theorem server_accepts:
  assumes "accept_queue os (native (s_fd w)) queue" and "leaves_server queue lst"
  shows "\<exists>w'. accept_ready os lst w = Some w' \<and> queue (s_os w') = []
    \<and> s_events w' = s_events w @ map Connection [s_next w ..< s_next w + length (queue (s_os w))]
    \<and> (\<forall>i < length (queue (s_os w)).
         s_objects w' (s_next w + i) =
           Some (adopt (fst (queue (s_os w) ! i)), from_sockaddr (os_inet os) (snd (queue (s_os w) ! i)))
         \<and> s_next w + i \<in> set (s_conns w') \<and> s_next w + i \<notin> set (s_conns (conn_closed (s_next w + i) w')))"
proof -
  obtain w' where w': "accept_ready os lst w = Some w'" "queue (s_os w') = []"
    "s_events w' = s_events w @ map Connection [s_next w ..< s_next w + length (queue (s_os w))]"
    "s_conns w' = s_conns w @ [s_next w ..< s_next w + length (queue (s_os w))]"
    "s_drops w' = s_drops w @ [s_next w ..< s_next w + length (queue (s_os w))]"
    "\<And>i. i < length (queue (s_os w)) \<Longrightarrow> s_objects w' (s_next w + i) =
       Some (adopt (fst (queue (s_os w) ! i)), from_sockaddr (os_inet os) (snd (queue (s_os w) ! i)))"
    using accept_all [OF assms refl refl] by blast
  then show ?thesis
    by (intro exI [of _ w']) (simp add: conn_closed_def drop_conn_def)
qed

text \<open>A system whose state is the backlog of its only listening socket.\<close>

definition backlog_os :: "(int \<times> sockaddr) list os" where
  "backlog_os = (quiet_os letter_inet)\<lparr>os_accept := \<lambda>_ k. case k of
       [] \<Rightarrow> (Sockaddr_in 0 [], -1, EAGAIN, [])
     | (c, a) # rest \<Rightarrow> if c < 0 then (Sockaddr_in 0 [], -1, EAGAIN, []) else (a, c, 0, rest)\<rparr>"

definition backlog :: "(int \<times> sockaddr) list \<Rightarrow> (int \<times> sockaddr) list" where
  "backlog k = takeWhile (\<lambda>(c, _). 0 \<le> c) k"

lemma backlog_os_queue: "accept_queue backlog_os d backlog"
  by (auto simp: accept_queue_def backlog_os_def backlog_def quiet_os_def set_nonblocking_def split: list.splits)

theorem server_accepts_witness:
  "\<exists>w'. accept_ready backlog_os (\<lambda>_ w. w)
      (server_create (0 :: nat) (\<lambda>n. n) (make_loop 3) [(8, Sockaddr_in 1 [127, 0, 0, 1]), (9, Sockaddr_in 2 [127, 0, 0, 1])]) = Some w'
    \<and> s_events w' = [Connection 0, Connection 1]"
  using server_accepts [OF backlog_os_queue, where lst = "\<lambda>_ w. w" and
      w = "server_create (0 :: nat) (\<lambda>n. n) (make_loop 3) [(8, Sockaddr_in 1 [127, 0, 0, 1]), (9, Sockaddr_in 2 [127, 0, 0, 1])]"]
  by (auto simp: leaves_server_def server_create_def backlog_def)

section \<open>Listening again\<close>

text \<open>
  \<^verbatim>\<open>listen\<close> never stops watching: a second call closes the first listening descriptor, but the loop
  keeps watching its number.
\<close>

lemma listen_keeps_watches:
  "fst ` set (watches (s_loop w))
     \<subseteq> fst ` set (watches (s_loop (server_listen os (\<lambda>_ w. w) port host w)))"
  by (auto simp: server_listen_def listen_failed_def server_emit_def Let_def watch_keys
      split: option.splits prod.splits)

text \<open>
  A connection listener that closes the server: the accept loop goes on with the closed descriptor, and
  when the system refuses that, an error follows the close event.
\<close>

lemma accept_after_close:
  assumes "valid (s_fd w)" and "os_accept os (-1) (s_os (server_close os (\<lambda>_ w. w) w)) = (a, -1, e, k)"
    and "e \<noteq> 0" and "e \<noteq> EINTR" and "\<not> would_block e"
  shows "\<exists>w'. accept_ready os (\<lambda>_ w. w) (server_close os (\<lambda>_ w. w) w) = Some w'
    \<and> s_events w' = s_events w @ [Closed, Error_event (describe os e ''accept'')]"
proof -
  have "native (s_fd (server_close os (\<lambda>_ w. w) w)) = -1"
    and "s_events (server_close os (\<lambda>_ w. w) w) = s_events w @ [Closed]"
    using assms(1) by (auto simp: server_close_def server_emit_def Let_def close_descriptor_def reset_def native_def valid_def
        null_descriptor_def invalid_handle_def split: prod.splits if_splits)
  with assms(2-5) show ?thesis
    by (subst accept_ready.simps) (simp add: sock_accept_def server_emit_def)
qed

end
