(* ===== verification/Tcp_Backlog.thy ===== *)
theory Tcp_Backlog
  imports Tcp_Socket
begin

text \<open>
  The registration of a TCP socket (protocol/tcp/socket.hpp) asks for writability whenever the open
  socket has bytes queued. Without it the queue would never be flushed: only a readiness event does
  that once \<^verbatim>\<open>write\<close> has returned.
\<close>

definition write_interest :: "('k, 'c, 'z) tcp_scheme \<Rightarrow> bool" where
  "write_interest w \<longleftrightarrow>
     (case map_of (watches (t_loop w)) (native (t_desc w)) of
        None \<Rightarrow> False
      | Some e \<Rightarrow> has (we_events e) interest_write)"

definition backlog_watched :: "('k, 'c, 'z) tcp_scheme \<Rightarrow> bool" where
  "backlog_watched w \<longleftrightarrow> (t_state w = Open \<and> buffered w \<longrightarrow> write_interest w)"

text \<open>
  Listeners keep the registration, and keep the interest in writability where it holds. It need not
  hold when they are called: an error of \<^verbatim>\<open>send\<close> is emitted before the socket is closed.
\<close>

definition keeps_backlog :: "('k, 'c, 'z) listeners \<Rightarrow> bool" where
  "keeps_backlog lst \<longleftrightarrow> keeps_inv lst \<and> (\<forall>e w. tcp_inv w \<and> backlog_watched w \<longrightarrow> backlog_watched (lst e w))"

lemma tcp_inv_events [simp]: "tcp_inv (w\<lparr>t_events := es\<rparr>) = tcp_inv w" "tcp_inv (w\<lparr>t_os := k\<rparr>) = tcp_inv w"
  by (simp_all add: tcp_inv_def)

lemma backlog_fields [simp]:
  "backlog_watched (w\<lparr>t_events := es\<rparr>) = backlog_watched w" "backlog_watched (w\<lparr>t_os := k\<rparr>) = backlog_watched w"
  "backlog_watched (w\<lparr>t_ended := b\<rparr>) = backlog_watched w"
  by (simp_all add: backlog_watched_def write_interest_def buffered_def)

lemma backlog_emit:
  "keeps_backlog lst \<Longrightarrow> tcp_inv w \<Longrightarrow> backlog_watched w \<Longrightarrow> backlog_watched (tcp_emit lst e w)"
  by (simp add: keeps_backlog_def tcp_emit_def)

lemma not_open_watched: "t_state w \<noteq> Open \<Longrightarrow> backlog_watched w"
  by (simp add: backlog_watched_def)

lemma torn_down_inv: "is_live w \<Longrightarrow> tcp_inv w \<Longrightarrow> tcp_inv (torn_down os w)"
  by (auto simp: tcp_inv_def torn_down_def is_live_def watch_keys)

lemma backlog_close:
  "keeps_backlog lst \<Longrightarrow> tcp_inv w \<Longrightarrow> backlog_watched (close_with os lst w)"
  by (auto simp: close_with_eq intro!: backlog_emit torn_down_inv) (simp_all add: backlog_watched_def torn_down_def)

lemma emit_keeps_inv: "keeps_backlog lst \<Longrightarrow> tcp_inv w \<Longrightarrow> tcp_inv (tcp_emit lst e w)"
  by (simp add: keeps_backlog_def keeps_inv_def tcp_emit_def)

lemma backlog_fail: "keeps_backlog lst \<Longrightarrow> tcp_inv w \<Longrightarrow> backlog_watched (fail os lst m w)"
  unfolding fail_def by (intro backlog_close emit_keeps_inv)

text \<open>The send loop ends with the interest as it was, or with the socket failed.\<close>

lemma backlog_pump:
  "pump_output os lst w = Some w' \<Longrightarrow> keeps_backlog lst \<Longrightarrow> tcp_inv w \<Longrightarrow>
   backlog_watched w' \<or> t_loop w' = t_loop w \<and> t_desc w' = t_desc w \<and> t_state w' = t_state w \<and> buffered w"
proof (induction os lst w w' rule: pump_output.raw_induct [rotated, consumes 1, case_names step])
  case (step pump os lst w w')
  show ?case
  proof (cases "t_offset w < length (t_outbuf w)")
    case True
    obtain sent k where s: "sock_send os (t_desc w) (drop (t_offset w) (t_outbuf w)) (t_os w) = (sent, k)"
      by (metis surj_pair)
    let ?v = "w\<lparr>t_os := k, t_offset := t_offset w + nat (tr_count sent),
        t_sent := t_sent w @ take (nat (tr_count sent)) (drop (t_offset w) (t_outbuf w))\<rparr>"
    have "tcp_inv ?v" using step(4) by (simp add: tcp_inv_def)
    with step(1) [of os lst ?v w'] step(1) [of os lst "w\<lparr>t_os := k\<rparr>" w'] step(2-4) True s
      backlog_fail [OF step(3), of "w\<lparr>t_os := k\<rparr>"]
    show ?thesis by (auto simp: Let_def buffered_def split: if_splits)
  next
    case False
    with step(2) show ?thesis by (auto simp: backlog_watched_def buffered_def)
  qed
qed

lemma modify_interest_at:
  "map_of (watches s) h = Some e \<Longrightarrow> map_of (watches (modify h i s)) h = Some (e\<lparr>we_events := i\<rparr>)"
  by (simp add: modify_def on_poller_def)

lemma write_interest_modify:
  assumes "tcp_inv w" and "t_state w = Open"
  shows "write_interest (modify_interest (interest_or interest_read interest_write) w)"
proof -
  have "native (t_desc w) \<in> fst ` set (watches (t_loop w))"
    using assms by (auto simp: tcp_inv_def)
  then obtain e where "map_of (watches (t_loop w)) (native (t_desc w)) = Some e"
    by (metis domD dom_map_of_conv_image_fst)
  then show ?thesis
    by (simp add: write_interest_def modify_interest_def modify_interest_at has_def interest_or_def
        interest_read_def interest_write_def)
qed

lemma modify_fields [simp]:
  "t_state (modify_interest i w) = t_state w" "buffered (modify_interest i w) = buffered w"
  "tcp_inv (modify_interest i w) = tcp_inv w"
  by (simp_all add: modify_interest_def buffered_def tcp_inv_def)

lemma backlog_rw: "tcp_inv w \<Longrightarrow> backlog_watched (modify_interest (interest_or interest_read interest_write) w)"
  by (simp add: backlog_watched_def write_interest_modify)

lemma keeps_backlog_inv: "keeps_backlog lst \<Longrightarrow> keeps_inv lst"
  by (simp add: keeps_backlog_def)

lemma backlog_write:
  assumes "tcp_write os lst chunk w = Some (b, w')" and "keeps_backlog lst" and "tcp_inv w"
  shows "backlog_watched w'"
proof (cases "t_state w = Open")
  case True
  let ?w = "w\<lparr>t_outbuf := t_outbuf w @ chunk\<rparr>"
  have inv: "tcp_inv ?w" using assms(3) by (simp add: tcp_inv_def)
  obtain v where v: "(if buffered w then Some ?w else pump_output os lst ?w) = Some v"
    and w': "w' = (if buffered v then modify_interest (interest_or interest_read interest_write) v else v)"
    using assms(1) True by (auto simp: tcp_write_def append_bytes_def Let_def split: option.splits)
  have "tcp_inv v"
    using v inv registration.R_pump [of os lst ?w v] keeps_backlog_inv [OF assms(2)] by (auto split: if_splits)
  with w' show ?thesis by (auto intro: backlog_rw) (simp add: backlog_watched_def)
next
  case False
  with assms show ?thesis by (auto simp: tcp_write_def intro: backlog_fail)
qed

lemma backlog_connected:
  assumes "keeps_backlog lst" and "tcp_inv w" and "t_state w = Connecting"
  shows "backlog_watched (on_connected os lst w)"
proof -
  have "tcp_inv (tcp_emit lst Connect_event (modify_interest interest_read (w\<lparr>t_os := k, t_state := Open\<rparr>)))" for k
    using assms(2,3) by (intro emit_keeps_inv [OF assms(1)]) (simp add: tcp_inv_def modify_interest_def)
  then show ?thesis
    using assms(1,2)
    by (auto simp: on_connected_def Let_def split: prod.splits intro: backlog_fail backlog_rw)
      (simp add: backlog_watched_def)
qed

lemma backlog_writable:
  assumes "on_writable os lst w = Some w'" and "keeps_backlog lst" and "tcp_inv w" and "backlog_watched w"
  shows "backlog_watched w'"
proof -
  obtain v where v: "pump_output os lst w = Some v"
    using assms(1) by (auto simp: on_writable_def split: option.splits)
  have inv: "tcp_inv v"
    using registration.R_pump [OF v] keeps_backlog_inv [OF assms(2)] assms(3) by blast
  show ?thesis
  proof (cases "buffered v")
    case True
    have "backlog_watched v"
      using backlog_pump [OF v assms(2,3)] assms(4) by (auto simp: backlog_watched_def write_interest_def)
    with True assms(1) v show ?thesis by (simp add: on_writable_def)
  next
    case False
    then have "backlog_watched (tcp_emit lst Drain_event (modify_interest interest_read v))"
      using inv by (intro backlog_emit [OF assms(2)]) (simp_all add: backlog_watched_def)
    with False assms(1) v show ?thesis
      by (auto simp: on_writable_def Let_def split: prod.splits if_splits)
  qed
qed

lemma backlog_drain:
  "drain_input os lst w = Some w' \<Longrightarrow> keeps_backlog lst \<Longrightarrow> tcp_inv w \<Longrightarrow> backlog_watched w \<Longrightarrow> backlog_watched w'"
proof (induction os lst w w' rule: drain_input.raw_induct [rotated, consumes 1, case_names step])
  case (step drain os lst w w')
  obtain buf got k where g: "sock_recv os (t_desc w) 65536 (t_os w) = (buf, got, k)" by (metis prod_cases3)
  let ?e = "\<lambda>e. tcp_emit lst e (w\<lparr>t_os := k\<rparr>)"
  have e: "tcp_inv (?e e)" "backlog_watched (?e e)" for e
    using step(3-5) by (auto intro!: emit_keeps_inv backlog_emit)
  show ?case
    using step(1) [of os lst "?e _" w'] step(1) [of os lst "w\<lparr>t_os := k\<rparr>" w'] step(2-5) e g
      backlog_close [OF step(3) e(1)] backlog_fail [OF step(3), of "w\<lparr>t_os := k\<rparr>"]
    by (auto simp: Let_def split: if_splits)
qed

lemma backlog_io:
  assumes "on_io os lst r w = Some w'" and "keeps_backlog lst" and "tcp_inv w" and "backlog_watched w"
  shows "backlog_watched w'"
proof -
  have "tcp_inv v \<and> backlog_watched v" if "(if writable r then on_writable os lst w else Some w) = Some v" for v
    using that registration.R_on_writable [of os lst w v] keeps_backlog_inv [OF assms(2)] backlog_writable [OF _ assms(2-4)] assms(3,4)
    by (auto split: if_splits)
  with assms backlog_connected [OF assms(2,3)] show ?thesis
    by (auto simp: on_io_def split: if_splits option.splits intro: backlog_drain)
qed

lemma backlog_connect:
  assumes "keeps_backlog lst" and "tcp_inv w"
  shows "backlog_watched (connect_resolved os lst addrs w)"
proof -
  have f: "backlog_watched (fail os lst m (w\<lparr>t_os := k\<rparr>))" for m k
    using assms by (intro backlog_fail) simp_all
  then have "backlog_watched (leave_scope os d (fail os lst m (w\<lparr>t_os := k\<rparr>)))" for d m k
    by (simp add: leave_scope_def)
  with f backlog_fail [OF assms] show ?thesis
    by (auto simp: connect_resolved_def start_connect_def Let_def watch_self_def split: prod.splits
        intro!: not_open_watched)
qed

text \<open>
  C18: A socket used from its loop's thread never forgets a backlog: whenever it is open with bytes
  queued, its loop watches the descriptor for writability, so the next chance to send is not missed.
  All operations keep this, with every error path and whatever the listeners do with the socket.
\<close>

theorem tcp_backlog_watched:
  assumes "keeps_backlog lst" and "tcp_inv w" and "backlog_watched w"
  shows "(\<forall>r w'. on_io os lst r w = Some w' \<longrightarrow> backlog_watched w')
    \<and> (\<forall>chunk b w'. tcp_write os lst chunk w = Some (b, w') \<longrightarrow> backlog_watched w')
    \<and> backlog_watched (tcp_end os w) \<and> backlog_watched (tcp_destroy os lst w)
    \<and> backlog_watched (connect_resolved os lst addrs w)"
  using backlog_io [OF _ assms] backlog_write [OF _ assms(1,2)] backlog_close [OF assms(1,2)] backlog_connect [OF assms(1,2)] assms(3)
  by (auto simp: tcp_destroy_def tcp_end_def Let_def split: prod.splits)

lemma write_three_open:
  "tcp_write capacity_os (\<lambda>_ w. w) [1, 2, 3] (open_socket 2) = Some (b, w') \<Longrightarrow> t_state w' = Open"
  unfolding tcp_write_def
  by (subst (asm) pump_output.simps, subst (asm) pump_output.simps)
    (auto simp: tcp_eval buffered_def append_bytes_def modify_interest_def)

theorem tcp_backlog_watched_witness:
  "\<exists>w'. tcp_write capacity_os (\<lambda>_ w. w) [1, 2, 3] (open_socket 2) = Some (False, w') \<and> buffered w' \<and> write_interest w'"
proof -
  obtain w' where w': "tcp_write capacity_os (\<lambda>_ w. w) [1, 2, 3] (open_socket 2) = Some (False, w')"
    using write_three by blast
  have k: "keeps_backlog (\<lambda>_ (w :: (nat, nat) tcp). w)" by (simp add: keeps_backlog_def keeps_inv_def)
  have o: "t_state (open_socket (2 :: nat)) = Open" "backlog_watched (open_socket (2 :: nat))"
    by (simp_all add: tcp_eval backlog_watched_def buffered_def)
  have "buffered w'" using registration.R_write [OF w'] o(1) by simp
  moreover have "backlog_watched w'"
    using tcp_backlog_watched [OF k open_socket_ok(1) o(2)] w' by blast
  moreover have "t_state w' = Open" by (rule write_three_open [OF w'])
  ultimately show ?thesis using w' by (simp add: backlog_watched_def)
qed

section \<open>A half-close that cuts off queued bytes\<close>

text \<open>A system whose state is the room in the send buffer and whether the write side was shut.\<close>

definition shutdown_os :: "(nat \<times> bool) os" where
  "shutdown_os = (quiet_os letter_inet)\<lparr>
     os_send := \<lambda>_ b (k, shut).
       if k = 0 then (-1, EAGAIN, (0, shut)) else (int (min k (length b)), 0, (k - min k (length b), shut)),
     os_shutdown := \<lambda>_ how (k, shut). (0, 0, (k, True))\<rparr>"

text \<open>A listener that answers the drain event by sending the last chunk and ending the stream.\<close>

definition send_last :: "buffer \<Rightarrow> (nat \<times> bool, nat, unit) listeners" where
  "send_last chunk e w =
     (if e = Drain_event then
        case tcp_write shutdown_os (\<lambda>_ w. w) chunk w of
          None \<Rightarrow> w
        | Some (_, w) \<Rightarrow> tcp_end shutdown_os w
      else w)"

text \<open>
  The writable branch of \<^verbatim>\<open>on_io\<close> shuts the write side of an ended socket after its listeners ran, without
  looking at the queue again: the chunk a listener wrote there is cut off.
\<close>

lemma half_close_queued:
  "\<exists>w. on_io shutdown_os (send_last [1, 2, 3]) \<lparr>readable = False, writable = True, error = False, hangup = False\<rparr>
     (open_socket (2, False)) = Some w \<and> t_state w = Open \<and> buffered w \<and> snd (t_os w)"
  by (simp add: on_io_def on_writable_def pump_output.simps send_last_def tcp_emit_def tcp_write_def tcp_end_def
      shutdown_os_def sock_shutdown_def append_bytes_def buffered_def tcp_eval modify_interest_def)

end
