(* ===== verification/Tcp_Threads.thy ===== *)
theory Tcp_Threads
  imports Tcp_Backlog
begin

text \<open>
  A TCP socket used from several threads (protocol/tcp/socket.hpp). A call is a sequence of sections,
  each either a block that holds the socket's mutex or an action between two such blocks: a call of
  the loop, a system call or the emission of an event. A program counter names the section that is
  next; those of \<^verbatim>\<open>fail\<close> and \<^verbatim>\<open>close_with\<close> carry the one to go on with. Thread 0 is the loop's. Emitted
  events are recorded, and their listeners do nothing more.
\<close>

datatype tcp_pc =
    Rest
  | Write buffer
  | Relock
  | Ending
  | Failing string tcp_pc
  | Closing tcp_pc
  | Unwatching tcp_pc
  | Releasing tcp_pc
  | Announcing tcp_pc
  | Leaving descriptor
  | Starting socket_address
  | Installing descriptor socket_address
  | Watching
  | Io ready
  | Checking
  | Opening
  | Want_read
  | Connected
  | Rechecking
  | Pumping ready
  | Repumping ready
  | Drained ready
  | Drain_emit ready
  | Half_closing ready
  | Input

text \<open>
  The send loop under the lock. It ends with nothing queued, with the kernel's buffer full, or with an
  error, which is reported after the lock is released.
\<close>

partial_function (option) pump_locked ::
  "'k os \<Rightarrow> ('k, 'c) tcp \<Rightarrow> (nat option \<times> ('k, 'c) tcp) option" where
  "pump_locked os w =
     (if t_offset w < length (t_outbuf w) then
        let rest = drop (t_offset w) (t_outbuf w);
            (sent, k) = sock_send os (t_desc w) rest (t_os w);
            w = w\<lparr>t_os := k\<rparr> in
        if tr_count sent > 0 then
          pump_locked os
            (w\<lparr>t_offset := t_offset w + nat (tr_count sent), t_sent := t_sent w @ take (nat (tr_count sent)) rest\<rparr>)
        else if tr_count sent < 0 \<and> would_block (tr_error sent) then Some (None, w)
        else if tr_count sent < 0 \<and> tr_error sent = EINTR then pump_locked os w
        else Some (Some (tr_error sent), w)
      else Some (None, w\<lparr>t_outbuf := [], t_offset := 0\<rparr>))"

definition want_write :: "('k, 'c) tcp \<Rightarrow> ('k, 'c) tcp" where
  "want_write w = (if buffered w then modify_interest (interest_or interest_read interest_write) w else w)"

definition write_section :: "'k os \<Rightarrow> buffer \<Rightarrow> ('k, 'c) tcp \<Rightarrow> (tcp_pc \<times> ('k, 'c) tcp) option" where
  "write_section os chunk w =
     (if t_state w \<noteq> Open then Some (Failing ''ERR_STREAM_WRITE_AFTER_END: socket is not open'' Rest, w)
      else let had_backlog = buffered w; w = w\<lparr>t_outbuf := append_bytes (t_outbuf w) chunk\<rparr> in
        case (if had_backlog then Some (None, w) else pump_locked os w) of
          None \<Rightarrow> None
        | Some (None, w) \<Rightarrow> Some (Rest, want_write w)
        | Some (Some e, w) \<Rightarrow> Some (Failing (describe os e ''send'') Relock, w))"

definition close_section :: "tcp_pc \<Rightarrow> ('k, 'c) tcp \<Rightarrow> tcp_pc \<times> ('k, 'c) tcp" where
  "close_section next w = (if is_live w then Unwatching next else next, w\<lparr>t_state := Closed\<rparr>)"

definition release_section :: "'k os \<Rightarrow> ('k, 'c) tcp \<Rightarrow> ('k, 'c) tcp" where
  "release_section os w = (let (d, k) = close_descriptor os (t_desc w) (t_os w) in w\<lparr>t_desc := d, t_os := k\<rparr>)"

abbreviation record_event :: "tcp_event \<Rightarrow> ('k, 'c) tcp \<Rightarrow> ('k, 'c) tcp" where
  "record_event e w \<equiv> w\<lparr>t_events := t_events w @ [e]\<rparr>"

definition start_section :: "'k os \<Rightarrow> socket_address \<Rightarrow> ('k, 'c) tcp \<Rightarrow> tcp_pc \<times> ('k, 'c) tcp" where
  "start_section os addr w =
     (let (opened, k) = sock_open os (if is_inet6 addr then Inet6 else Inet) Stream (t_os w); w = w\<lparr>t_os := k\<rparr> in
      if op_error opened \<noteq> 0 then (Failing (describe os (op_error opened) ''socket'') Rest, w)
      else let d = op_handle opened; (nb, k) = set_nonblocking os d (t_os w); w = w\<lparr>t_os := k\<rparr> in
        if nb \<noteq> 0 then (Failing (describe os nb ''socket'') (Leaving d), w)
        else let (ec, k) = sock_connect os d addr (t_os w); w = w\<lparr>t_os := k\<rparr> in
          if ec \<noteq> 0 \<and> ec \<noteq> EINPROGRESS then (Failing (describe os ec ''connect'') (Leaving d), w)
          else (Installing d addr, w))"

definition install_section :: "'k os \<Rightarrow> descriptor \<Rightarrow> socket_address \<Rightarrow> ('k, 'c) tcp \<Rightarrow> ('k, 'c) tcp" where
  "install_section os d addr w =
     (let (self, _, closed) = move_assign (t_desc w) d in
      w\<lparr>t_desc := self, t_os := fold (os_close os) closed (t_os w), t_state := Connecting, t_peer := addr\<rparr>)"

definition after_output :: "ready \<Rightarrow> tcp_pc" where
  "after_output r = (if readable r \<or> hangup r then Input else Rest)"

definition io_section :: "ready \<Rightarrow> conn_state \<Rightarrow> tcp_pc" where
  "io_section r current =
     (case current of
        Connecting \<Rightarrow> Checking
      | Open \<Rightarrow> if writable r then Pumping r else after_output r
      | _ \<Rightarrow> Rest)"

definition check_section :: "'k os \<Rightarrow> ('k, 'c) tcp \<Rightarrow> tcp_pc \<times> ('k, 'c) tcp" where
  "check_section os w =
     (let (err, k) = pending_error os (t_desc w) (t_os w) in
      (if err \<noteq> 0 then Failing (describe os err ''connect'') Rest else Opening, w\<lparr>t_os := k\<rparr>))"

definition drained_section :: "ready \<Rightarrow> ('k, 'c) tcp \<Rightarrow> tcp_pc" where
  "drained_section r w = (if buffered w then after_output r else Drained r)"

definition pump_section :: "'k os \<Rightarrow> ready \<Rightarrow> ('k, 'c) tcp \<Rightarrow> (tcp_pc \<times> ('k, 'c) tcp) option" where
  "pump_section os r w =
     (case pump_locked os w of
        None \<Rightarrow> None
      | Some (None, w) \<Rightarrow> Some (drained_section r w, w)
      | Some (Some e, w) \<Rightarrow> Some (Failing (describe os e ''send'') (Repumping r), w))"

definition half_close_section :: "'k os \<Rightarrow> ('k, 'c) tcp \<Rightarrow> ('k, 'c) tcp" where
  "half_close_section os w =
     (if t_ended w then let (_, k) = sock_shutdown os (t_desc w) Shut_write (t_os w) in w\<lparr>t_os := k\<rparr> else w)"

text \<open>One turn of the receive loop.\<close>

definition input_section :: "'k os \<Rightarrow> ('k, 'c) tcp \<Rightarrow> tcp_pc \<times> ('k, 'c) tcp" where
  "input_section os w =
     (let (buf, got, k) = sock_recv os (t_desc w) 65536 (t_os w); w = w\<lparr>t_os := k\<rparr> in
      if tr_count got > 0 then (Input, record_event (Data (copy_buffer (take (nat (tr_count got)) buf))) w)
      else if tr_count got = 0 then (Closing Rest, record_event End_event w)
      else if would_block (tr_error got) then (Rest, w)
      else if tr_error got = EINTR then (Input, w)
      else (Failing (describe os (tr_error got) ''recv'') Rest, w))"

fun advance :: "'k os \<Rightarrow> tcp_pc \<Rightarrow> ('k, 'c) tcp \<Rightarrow> (tcp_pc \<times> ('k, 'c) tcp) option" where
  "advance os Rest w = None"
| "advance os (Write chunk) w = write_section os chunk w"
| "advance os Relock w = Some (Rest, want_write w)"
| "advance os Ending w = Some (Rest, tcp_end os w)"
| "advance os (Failing m next) w = Some (Closing next, record_event (Error_event m) w)"
| "advance os (Closing next) w = Some (close_section next w)"
| "advance os (Unwatching next) w = Some (Releasing next, w\<lparr>t_loop := unwatch (native (t_desc w)) (t_loop w)\<rparr>)"
| "advance os (Releasing next) w = Some (Announcing next, release_section os w)"
| "advance os (Announcing next) w = Some (next, record_event Close_event w)"
| "advance os (Leaving d) w = Some (Rest, leave_scope os d w)"
| "advance os (Starting addr) w = Some (start_section os addr w)"
| "advance os (Installing d addr) w = Some (Watching, install_section os d addr w)"
| "advance os Watching w = Some (Rest, watch_self interest_write w)"
| "advance os (Io r) w = Some (io_section r (t_state w), w)"
| "advance os Checking w = Some (check_section os w)"
| "advance os Opening w = Some (Want_read, w\<lparr>t_state := Open\<rparr>)"
| "advance os Want_read w = Some (Connected, modify_interest interest_read w)"
| "advance os Connected w = Some (Rechecking, record_event Connect_event w)"
| "advance os Rechecking w = Some (Rest, want_write w)"
| "advance os (Pumping r) w = pump_section os r w"
| "advance os (Repumping r) w = Some (drained_section r w, w)"
| "advance os (Drained r) w = Some (Drain_emit r, modify_interest interest_read w)"
| "advance os (Drain_emit r) w = Some (Half_closing r, record_event Drain_event w)"
| "advance os (Half_closing r) w = Some (after_output r, half_close_section os w)"
| "advance os Input w = Some (input_section os w)"

section \<open>Uninterrupted runs are the sequential operations\<close>

inductive alone :: "'k os \<Rightarrow> tcp_pc \<times> ('k, 'c) tcp \<Rightarrow> tcp_pc \<times> ('k, 'c) tcp \<Rightarrow> bool" for os where
  finished: "alone os c c"
| advance: "advance os s w = Some c \<Longrightarrow> alone os c c' \<Longrightarrow> alone os (s, w) c'"

abbreviation silent :: "('k, 'c, unit) listeners" where
  "silent \<equiv> \<lambda>_ w. w"

lemma alone_trans: "alone os c d \<Longrightarrow> alone os d e \<Longrightarrow> alone os c e"
  by (induction rule: alone.induct) (auto intro: alone.advance)

lemma alone_step: "advance os s w = Some c \<Longrightarrow> alone os (s, w) c"
  by (auto intro: alone.intros)

inductive_cases alone_restE: "alone os (Rest, w) c"
inductive_cases alone_stepE: "alone os (s, w) c"

lemma alone_unique: "alone os c (Rest, v) \<Longrightarrow> alone os c (Rest, w) \<Longrightarrow> v = w"
proof (induction c "(Rest :: tcp_pc, v)" rule: alone.induct)
  case finished
  then show ?case by (auto elim: alone_restE)
next
  case (advance s u c)
  from advance.prems have "alone os c (Rest, w)"
    using advance.hyps(1) by (cases rule: alone_stepE) auto
  then show ?case by (rule advance.hyps(3))
qed

lemma close_alone: "alone os (Closing next, w) (next, close_with os silent w)"
proof (cases "is_live w")
  case True
  then show ?thesis
    by (auto simp: close_with_def is_live_def close_section_def release_section_def tcp_emit_def Let_def
        split: prod.splits intro!: alone.advance alone.finished)
next
  case False
  then show ?thesis
    by (auto simp: close_with_eq close_section_def intro!: alone.advance alone.finished)
qed

lemma fail_alone: "alone os (Failing m next, w) (next, fail os silent m w)"
  using close_alone [of os "next" "record_event (Error_event m) w"]
  by (auto simp: fail_def tcp_emit_def intro: alone.advance)

lemma pump_sections:
  "pump_output os lst w = Some w' \<Longrightarrow> lst = silent \<Longrightarrow>
   \<exists>e v. pump_locked os w = Some (e, v) \<and> w' = (case e of None \<Rightarrow> v | Some e \<Rightarrow> fail os silent (describe os e ''send'') v)"
proof (induction os lst w w' rule: pump_output.raw_induct [rotated, consumes 1, case_names step])
  case (step pump os lst w w')
  show ?case
  proof (cases "t_offset w < length (t_outbuf w)")
    case True
    obtain sent k where "sock_send os (t_desc w) (drop (t_offset w) (t_outbuf w)) (t_os w) = (sent, k)"
      by (metis surj_pair)
    with step(2) True show ?thesis
      using step(1) [OF _ step(3)] step(3) by (subst pump_locked.simps) (auto simp: Let_def split: if_splits)
  next
    case False
    with step(2) show ?thesis by (subst pump_locked.simps) auto
  qed
qed

lemma write_alone:
  assumes "tcp_write os silent chunk w = Some (b, w')"
  shows "alone os (Write chunk, w) (Rest, w')"
proof (cases "t_state w = Open")
  case True
  let ?w = "w\<lparr>t_outbuf := append_bytes (t_outbuf w) chunk\<rparr>"
  obtain v where v: "(if buffered w then Some ?w else pump_output os silent ?w) = Some v" and w': "w' = want_write v"
    using assms True by (auto simp: tcp_write_def want_write_def Let_def split: option.splits)
  obtain e u where u: "(if buffered w then Some (None, ?w) else pump_locked os ?w) = Some (e, u)"
    and v': "v = (case e of None \<Rightarrow> u | Some e \<Rightarrow> fail os silent (describe os e ''send'') u)"
    using v pump_sections [of os silent ?w v] by (auto split: if_splits)
  show ?thesis
  proof (cases e)
    case None
    with True u v' w' show ?thesis by (intro alone_step) (simp add: write_section_def)
  next
    case (Some n)
    have "advance os (Write chunk) w = Some (Failing (describe os n ''send'') Relock, u)"
      using True u Some by (simp add: write_section_def)
    moreover have "alone os (Relock, v) (Rest, w')" using w' by (intro alone_step) simp
    ultimately show ?thesis
      using fail_alone [of os "describe os n ''send''" Relock u] v' Some by (auto intro: alone.advance alone_trans)
  qed
next
  case False
  with assms show ?thesis
    by (auto simp: tcp_write_def intro!: alone.advance [OF _ fail_alone] simp: write_section_def)
qed

lemma drain_alone:
  "drain_input os lst w = Some w' \<Longrightarrow> lst = silent \<Longrightarrow> alone os (Input, w) (Rest, w')"
proof (induction os lst w w' rule: drain_input.raw_induct [rotated, consumes 1, case_names step])
  case (step drain os lst w w')
  obtain buf got k where g: "sock_recv os (t_desc w) 65536 (t_os w) = (buf, got, k)" by (metis prod_cases3)
  obtain c where c: "input_section os w = c" by simp
  have "alone os c (Rest, w')"
    using step(2) g c step(1) [OF _ step(3)] step(3) close_alone [of os Rest "record_event End_event (w\<lparr>t_os := k\<rparr>)"]
      fail_alone [of os "describe os (tr_error got) ''recv''" Rest "w\<lparr>t_os := k\<rparr>"]
    by (auto simp: input_section_def tcp_emit_def Let_def split: if_splits intro: alone.finished)
  with c show ?case by (auto intro: alone.advance)
qed

lemma after_alone:
  assumes "(if readable r \<or> hangup r then drain_input os silent w else Some w) = Some w'"
  shows "alone os (after_output r, w) (Rest, w')"
  using assms drain_alone [of os silent w w'] by (auto simp: after_output_def split: if_splits intro: alone.finished)

lemma drained_alone:
  assumes "\<not> buffered w"
  shows "alone os (drained_section r w, w) (after_output r, half_close_section os (record_event Drain_event (modify_interest interest_read w)))"
  using assms by (auto simp: drained_section_def intro!: alone.advance alone.finished)

lemma writable_alone:
  assumes "on_writable os silent w = Some w'"
  shows "alone os (Pumping r, w) (after_output r, w')"
proof -
  obtain v where v: "pump_output os silent w = Some v"
    using assms by (auto simp: on_writable_def split: option.splits)
  then obtain e u where u: "pump_locked os w = Some (e, u)"
    and v': "v = (case e of None \<Rightarrow> u | Some e \<Rightarrow> fail os silent (describe os e ''send'') u)"
    using pump_sections [OF v refl] by blast
  have "alone os (Pumping r, w) (drained_section r v, v)"
  proof (cases e)
    case None
    with u v' show ?thesis by (intro alone_step) (simp add: pump_section_def)
  next
    case (Some n)
    have "alone os (Repumping r, v) (drained_section r v, v)" by (rule alone_step) simp
    moreover have "advance os (Pumping r) w = Some (Failing (describe os n ''send'') (Repumping r), u)"
      using u Some by (simp add: pump_section_def)
    ultimately show ?thesis
      using fail_alone [of os "describe os n ''send''" "Repumping r" u] v' Some by (auto intro: alone.advance alone_trans)
  qed
  moreover have "alone os (drained_section r v, v) (after_output r, w')"
    using assms v drained_alone [of v os r]
    by (cases "buffered v")
      (auto simp: on_writable_def drained_section_def half_close_section_def tcp_emit_def Let_def intro: alone.finished)
  ultimately show ?thesis by (rule alone_trans)
qed

lemma opening_alone:
  "alone os (Opening, w) (Rest, want_write (record_event Connect_event (modify_interest interest_read (w\<lparr>t_state := Open\<rparr>))))"
  by (rule alone.advance, simp, rule alone.advance, simp, rule alone.advance, simp, rule alone.advance, simp)
    (rule alone.finished)

lemma connected_alone: "alone os (Checking, w) (Rest, on_connected os silent w)"
proof -
  obtain err k where e: "pending_error os (t_desc w) (t_os w) = (err, k)" by (metis surj_pair)
  have "alone os (check_section os w) (Rest, on_connected os silent w)"
  proof (cases "err = 0")
    case True
    with opening_alone [of os "w\<lparr>t_os := k\<rparr>"] e show ?thesis
      by (simp add: check_section_def on_connected_def tcp_emit_def want_write_def Let_def)
  next
    case False
    with fail_alone e show ?thesis by (simp add: check_section_def on_connected_def)
  qed
  then show ?thesis by (auto intro: alone.advance)
qed

lemma io_alone:
  assumes "on_io os silent r w = Some w'"
  shows "alone os (Io r, w) (Rest, w')"
proof -
  have "alone os (io_section r (t_state w), w) (Rest, w')"
    using assms connected_alone [of os w] after_alone [of r os]
    by (cases "t_state w")
      (auto simp: on_io_def io_section_def split: option.splits if_splits
        intro: alone.finished alone_trans [OF writable_alone])
  then show ?thesis by (auto intro: alone.advance)
qed

lemma connect_alone: "alone os (Starting addr, w) (Rest, start_connect os silent addr w)"
proof -
  have scope: "alone os (Failing m (Leaving d), v) (Rest, leave_scope os d (fail os silent m v))" for m d v
    by (rule alone_trans [OF fail_alone alone_step]) simp
  have install: "alone os (Installing d addr, v) (Rest, watch_self interest_write (install_section os d addr v))" for d v
    by (auto intro!: alone.advance alone.finished)
  obtain opened k where o: "sock_open os (if is_inet6 addr then Inet6 else Inet) Stream (t_os w) = (opened, k)" by (metis surj_pair)
  obtain nb k' where n: "set_nonblocking os (op_handle opened) k = (nb, k')" by (metis surj_pair)
  obtain ec k'' where c: "sock_connect os (op_handle opened) addr k' = (ec, k'')" by (metis surj_pair)
  have "alone os (start_section os addr w) (Rest, start_connect os silent addr w)"
  proof -
    consider "op_error opened \<noteq> 0" | "op_error opened = 0" "nb \<noteq> 0"
      | "op_error opened = 0" "nb = 0" "ec \<noteq> 0 \<and> ec \<noteq> EINPROGRESS"
      | "op_error opened = 0" "nb = 0" "\<not> (ec \<noteq> 0 \<and> ec \<noteq> EINPROGRESS)" by blast
    then show ?thesis
    proof cases
      case 1
      then show ?thesis by (simp add: start_section_def start_connect_def o fail_alone)
    next
      case 2
      then show ?thesis by (simp add: start_section_def start_connect_def o n scope Let_def)
    next
      case 3
      then show ?thesis by (simp add: start_section_def start_connect_def o n c scope Let_def)
    next
      case 4
      then have "start_section os addr w = (Installing (op_handle opened) addr, w\<lparr>t_os := k''\<rparr>)"
        and "start_connect os silent addr w = watch_self interest_write (install_section os (op_handle opened) addr (w\<lparr>t_os := k''\<rparr>))"
        by (auto simp: start_section_def start_connect_def install_section_def o n c Let_def split: prod.splits)
      with install show ?thesis by simp
    qed
  qed
  then show ?thesis by (auto intro: alone.advance)
qed



section \<open>Interleavings\<close>

text \<open>
  Any thread may write, end or destroy; readiness events and connection attempts come from the loop.
  The kernel may change its state at any time, for instance by making room in its send buffer.
  \<open>th_accepted\<close> records the bytes of the writes that found the socket open, in their order.
\<close>

record ('k, 'c) threads =
  th_shared :: "('k, 'c) tcp"
  th_pcs :: "tcp_pc list"
  th_accepted :: buffer

datatype 'k action =
    Call nat tcp_pc
  | Run nat
  | Kernel 'k

fun may_call :: "nat \<Rightarrow> tcp_pc \<Rightarrow> bool" where
  "may_call i (Write chunk) = True"
| "may_call i Ending = True"
| "may_call i (Closing Rest) = True"
| "may_call i (Io r) = (i = 0)"
| "may_call i (Starting addr) = (i = 0)"
| "may_call i _ = False"

fun accepted_by :: "tcp_pc \<Rightarrow> ('k, 'c) tcp \<Rightarrow> buffer" where
  "accepted_by (Write chunk) w = (if t_state w = Open then chunk else [])"
| "accepted_by _ w = []"

fun perform :: "'k os \<Rightarrow> 'k action \<Rightarrow> ('k, 'c) threads \<Rightarrow> ('k, 'c) threads option" where
  "perform os (Call i c) s =
     (if i < length (th_pcs s) \<and> th_pcs s ! i = Rest \<and> may_call i c then Some (s\<lparr>th_pcs := (th_pcs s)[i := c]\<rparr>) else None)"
| "perform os (Run i) s =
     (if i < length (th_pcs s) then
        case advance os (th_pcs s ! i) (th_shared s) of
          None \<Rightarrow> None
        | Some (c, w) \<Rightarrow> Some (s\<lparr>th_shared := w, th_pcs := (th_pcs s)[i := c],
            th_accepted := th_accepted s @ accepted_by (th_pcs s ! i) (th_shared s)\<rparr>)
      else None)"
| "perform os (Kernel k) s = Some (s\<lparr>th_shared := (th_shared s)\<lparr>t_os := k\<rparr>\<rparr>)"

fun connects :: "'k action \<Rightarrow> bool" where
  "connects (Call i (Starting addr)) = True"
| "connects _ = False"

inductive threads_step :: "'k os \<Rightarrow> bool \<Rightarrow> ('k, 'c) threads \<Rightarrow> ('k, 'c) threads \<Rightarrow> bool" for os conn where
  perform: "perform os a s = Some t \<Longrightarrow> connects a \<longrightarrow> conn \<Longrightarrow> threads_step os conn s t"

inductive_cases threads_stepE: "threads_step os conn s t"

definition fresh_socket :: "nat \<Rightarrow> ('k, 'c) threads \<Rightarrow> bool" where
  "fresh_socket n s \<longleftrightarrow> th_pcs s = replicate n Rest \<and> th_accepted s = [] \<and> stream (th_shared s) = []
     \<and> out_ok (th_shared s) \<and> t_events (th_shared s) = [] \<and> tcp_inv (th_shared s) \<and> t_state (th_shared s) = Open"

subsection \<open>The bytes sent\<close>

lemma pump_stream:
  "pump_locked os w = Some (e, v) \<Longrightarrow> os_contract os \<Longrightarrow> out_ok w \<Longrightarrow> out_ok v \<and> stream v = stream w"
proof (induction os w "(e, v)" arbitrary: e v rule: pump_locked.raw_induct [rotated, consumes 1, case_names step])
  case (step pump os w e v)
  show ?case
  proof (cases "t_offset w < length (t_outbuf w)")
    case True
    obtain sent k where s: "sock_send os (t_desc w) (drop (t_offset w) (t_outbuf w)) (t_os w) = (sent, k)"
      by (metis surj_pair)
    let ?v = "w\<lparr>t_os := k, t_offset := t_offset w + nat (tr_count sent),
        t_sent := t_sent w @ take (nat (tr_count sent)) (drop (t_offset w) (t_outbuf w))\<rparr>"
    have n: "nat (tr_count sent) \<le> length (t_outbuf w) - t_offset w"
      using sock_send_count [OF step(3) s] by auto
    then have "out_ok ?v" "stream ?v = stream w"
      using True append_take_drop_id [of "nat (tr_count sent)" "drop (t_offset w) (t_outbuf w)"]
      by (simp_all add: out_ok_def stream_def add.commute)
    with step(1) [of os ?v] step(1) [of os "w\<lparr>t_os := k\<rparr>"] step(2-4) True s show ?thesis
      by (auto simp: Let_def split: if_splits)
  next
    case False
    with step(2,4) show ?thesis by (auto simp: out_ok_def stream_def)
  qed
qed

lemmas section_defs = close_section_def release_section_def start_section_def install_section_def io_section_def
  check_section_def half_close_section_def input_section_def want_write_def modify_interest_def leave_scope_def
  watch_self_def tcp_end_def

lemma write_stream:
  assumes "write_section os chunk w = Some (c, v)" and "os_contract os" and "out_ok w"
  shows "out_ok v \<and> stream v = stream w @ accepted_by (Write chunk) w"
proof (cases "t_state w = Open")
  case True
  let ?w = "w\<lparr>t_outbuf := append_bytes (t_outbuf w) chunk\<rparr>"
  have w: "out_ok ?w" "stream ?w = stream w @ chunk"
    using assms(3) by (simp_all add: out_ok_def stream_def append_bytes_def)
  obtain e u where u: "(if buffered w then Some (None, ?w) else pump_locked os ?w) = Some (e, u)"
    and v: "v = u \<or> v = want_write u"
    using assms(1) True by (auto simp: write_section_def Let_def split: option.splits)
  have "out_ok u \<and> stream u = stream w @ chunk"
    using u w pump_stream [OF _ assms(2) w(1)] by (auto split: if_splits)
  with v True show ?thesis by (auto simp: want_write_def modify_interest_def)
next
  case False
  with assms(1,3) show ?thesis by (auto simp: write_section_def)
qed

lemma advance_stream:
  assumes "advance os pc w = Some (pc', v)" and "os_contract os" and "out_ok w"
  shows "out_ok v \<and> stream v = stream w @ accepted_by pc w"
proof (cases pc)
  case (Write chunk)
  with assms write_stream show ?thesis by fastforce
next
  case (Pumping r)
  with assms show ?thesis by (auto simp: pump_section_def split: option.splits dest: pump_stream)
qed (use assms in \<open>auto simp: section_defs Let_def split: prod.splits if_splits\<close>)

definition stream_inv :: "('k, 'c) threads \<Rightarrow> bool" where
  "stream_inv s \<longleftrightarrow> out_ok (th_shared s) \<and> stream (th_shared s) = th_accepted s"

lemma perform_stream:
  "perform os a s = Some t \<Longrightarrow> os_contract os \<Longrightarrow> stream_inv s \<Longrightarrow> stream_inv t"
  by (cases a) (auto simp: stream_inv_def split: if_splits option.splits dest: advance_stream)

interpretation sent_bytes: invariant "fresh_socket n" "threads_step os conn" "\<lambda>s. os_contract os \<longrightarrow> stream_inv s" for n os conn
  by unfold_locales (auto simp: fresh_socket_def stream_inv_def elim!: threads_stepE dest: perform_stream [unfolded stream_inv_def])

end
