(* ===== verification/Tcp_Closing.thy ===== *)
theory Tcp_Closing
  imports Tcp_Threads
begin

text \<open>
  Closing a TCP socket that several threads use (protocol/tcp/socket.hpp, \<^verbatim>\<open>close_with\<close>), and runs of the
  sections of \<open>Tcp_Threads\<close> from given sockets.
\<close>

section \<open>The invariant of closing\<close>

text \<open>
  The sections of a socket that is never connecting, those of a thread that has taken it upon itself
  to close the socket, and what holds while it does.
\<close>

fun resumes :: "tcp_pc \<Rightarrow> bool" where
  "resumes Rest = True" | "resumes Relock = True" | "resumes (Repumping r) = True" | "resumes _ = False"

fun plain :: "tcp_pc \<Rightarrow> bool" where
  "plain (Failing m c) = resumes c"
| "plain (Closing c) = resumes c"
| "plain (Unwatching c) = resumes c"
| "plain (Releasing c) = resumes c"
| "plain (Announcing c) = resumes c"
| "plain c = (c \<in> {Rest, Relock, Ending, Input} \<or> (\<exists>b. c = Write b)
     \<or> (\<exists>r. c \<in> {Io r, Pumping r, Repumping r, Drained r, Drain_emit r, Half_closing r}))"

fun closes :: "tcp_pc \<Rightarrow> bool" where
  "closes (Unwatching c) = True" | "closes (Releasing c) = True" | "closes (Announcing c) = True" | "closes _ = False"

definition watched :: "('k, 'c) tcp \<Rightarrow> int set" where
  "watched w = fst ` set (watches (t_loop w))"

lemma watched_fields [simp]:
  "watched (w\<lparr>t_os := k\<rparr>) = watched w" "watched (w\<lparr>t_events := es\<rparr>) = watched w" "watched (w\<lparr>t_state := c\<rparr>) = watched w"
  "watched (w\<lparr>t_desc := d\<rparr>) = watched w" "watched (w\<lparr>t_ended := b\<rparr>) = watched w" "watched (w\<lparr>t_outbuf := q\<rparr>) = watched w"
  "watched (w\<lparr>t_offset := n\<rparr>) = watched w" "watched (w\<lparr>t_sent := q\<rparr>) = watched w"
  "watched (w\<lparr>t_loop := modify h i (t_loop w)\<rparr>) = watched w"
  "watched (w\<lparr>t_loop := unwatch h (t_loop w)\<rparr>) = watched w - {h}"
  by (simp_all add: watched_def watch_keys)

definition close_count :: "('k, 'c) tcp \<Rightarrow> nat" where
  "close_count w = count_list (t_events w) Close_event"

definition intact :: "int \<Rightarrow> ('k, 'c) tcp \<Rightarrow> bool" where
  "intact fd w \<longleftrightarrow> valid (t_desc w) \<and> native (t_desc w) = fd"

fun close_phase :: "int \<Rightarrow> tcp_pc \<Rightarrow> ('k, 'c) tcp \<Rightarrow> bool" where
  "close_phase fd (Unwatching c) w = (intact fd w \<and> watched w = {fd})"
| "close_phase fd (Releasing c) w = (intact fd w \<and> watched w = {})"
| "close_phase fd c w = (\<not> valid (t_desc w) \<and> watched w = {})"

definition settled :: "int \<Rightarrow> ('k, 'c) tcp \<Rightarrow> bool" where
  "settled fd w \<longleftrightarrow> t_state w = Open \<and> intact fd w \<and> watched w = {fd} \<and> close_count w = 0
     \<or> t_state w = Closed \<and> \<not> valid (t_desc w) \<and> watched w = {} \<and> close_count w = 1"

definition close_inv :: "int \<Rightarrow> ('k, 'c) threads \<Rightarrow> bool" where
  "close_inv fd s \<longleftrightarrow> (\<forall>c \<in> set (th_pcs s). plain c) \<and>
     ((\<forall>c \<in> set (th_pcs s). \<not> closes c) \<and> settled fd (th_shared s)
      \<or> (\<exists>i < length (th_pcs s). (\<forall>j < length (th_pcs s). closes (th_pcs s ! j) \<longleftrightarrow> j = i)
           \<and> t_state (th_shared s) = Closed \<and> close_phase fd (th_pcs s ! i) (th_shared s) \<and> close_count (th_shared s) = 0))"

text \<open>Sections other than those that close keep the descriptor, its watch and the state.\<close>

definition same_socket :: "('k, 'c) tcp \<Rightarrow> ('k, 'c) tcp \<Rightarrow> bool" where
  "same_socket w v \<longleftrightarrow> t_state v = t_state w \<and> t_desc v = t_desc w \<and> watched v = watched w \<and> close_count v = close_count w"

lemma pump_same: "pump_locked os w = Some (e, v) \<Longrightarrow> same_socket w v"
proof (induction os w "(e, v)" arbitrary: e v rule: pump_locked.raw_induct [rotated, consumes 1, case_names step])
  case (step pump os w e v)
  obtain sent k where s: "sock_send os (t_desc w) (drop (t_offset w) (t_outbuf w)) (t_os w) = (sent, k)"
    by (metis surj_pair)
  let ?v = "w\<lparr>t_os := k, t_offset := t_offset w + nat (tr_count sent),
      t_sent := t_sent w @ take (nat (tr_count sent)) (drop (t_offset w) (t_outbuf w))\<rparr>"
  have "same_socket ?v v \<longrightarrow> same_socket w v" "same_socket (w\<lparr>t_os := k\<rparr>) v \<longrightarrow> same_socket w v"
    "same_socket w (w\<lparr>t_os := k\<rparr>)" "same_socket w (w\<lparr>t_outbuf := [], t_offset := 0\<rparr>)"
    by (simp_all add: same_socket_def close_count_def)
  with s step(1) [of os ?v] step(1) [of os "w\<lparr>t_os := k\<rparr>"] step(2) show ?case
    by (auto simp: Let_def split: if_splits)
qed

lemma after_plain [simp]:
  "plain (after_output r)" "\<not> closes (after_output r)" "plain (drained_section r w)" "\<not> closes (drained_section r w)"
  by (simp_all add: after_output_def drained_section_def)

lemma same_trans: "same_socket u v \<Longrightarrow> same_socket v w \<Longrightarrow> same_socket u w"
  by (simp add: same_socket_def)

lemma interest_same [simp]: "same_socket w (modify_interest i w)" "same_socket w (want_write w)" "same_socket w w"
  by (simp_all add: same_socket_def close_count_def want_write_def modify_interest_def)

lemma write_same:
  assumes "write_section os chunk w = Some (c, v)"
  shows "same_socket w v \<and> plain c \<and> \<not> closes c"
proof (cases "t_state w = Open")
  case True
  let ?w = "w\<lparr>t_outbuf := append_bytes (t_outbuf w) chunk\<rparr>"
  obtain e u where u: "(if buffered w then Some (None, ?w) else pump_locked os ?w) = Some (e, u)"
    and cv: "(case e of None \<Rightarrow> Some (Rest, want_write u) | Some n \<Rightarrow> Some (Failing (describe os n ''send'') Relock, u)) = Some (c, v)"
    using assms True by (auto simp: write_section_def Let_def split: option.splits)
  from cv have v: "v = u \<or> v = want_write u" and c: "plain c \<and> \<not> closes c" by (cases e; force)+
  have "same_socket w ?w" by (simp add: same_socket_def close_count_def)
  moreover have "same_socket ?w u"
    using u pump_same [of os ?w e u] by (cases "buffered w") simp_all
  moreover have "same_socket u v" using v by (elim disjE) simp_all
  ultimately show ?thesis using c same_trans by blast
next
  case False
  with assms show ?thesis by (auto simp: write_section_def same_socket_def)
qed

lemma advance_same:
  assumes "advance os pc w = Some (pc', v)" and "plain pc" and "\<not> closes pc" and "\<And>c. pc \<noteq> Closing c"
    and "t_state w = Open \<or> t_state w = Closed"
  shows "same_socket w v \<and> plain pc' \<and> \<not> closes pc'"
proof (cases pc)
  case (Write chunk)
  with assms(1) write_same show ?thesis by simp
next
  case (Pumping r)
  with assms(1) show ?thesis
    by (auto simp: pump_section_def split: option.splits dest: pump_same)
next
  case (Closing c)
  with assms(4) show ?thesis by blast
next
  case (Input)
  with assms(1) show ?thesis
    by (auto simp: input_section_def same_socket_def close_count_def Let_def split: prod.splits if_splits)
next
  case (Io r)
  with assms(1,5) show ?thesis by (auto simp: io_section_def same_socket_def split: if_splits)
next
  case Ending
  with assms(1) show ?thesis
    by (auto simp: tcp_end_def same_socket_def close_count_def Let_def split: prod.splits if_splits)
next
  case (Half_closing r)
  with assms(1) show ?thesis
    by (auto simp: half_close_section_def same_socket_def close_count_def split: prod.splits if_splits)
next
  case Relock
  with assms(1) show ?thesis by auto
next
  case (Failing m c)
  with assms(1,2) show ?thesis by (auto simp: same_socket_def close_count_def)
next
  case (Repumping r)
  with assms(1) show ?thesis by (auto simp: same_socket_def)
next
  case (Drained r)
  with assms(1) show ?thesis by auto
next
  case (Drain_emit r)
  with assms(1) show ?thesis by (auto simp: same_socket_def close_count_def)
qed (use assms(1-3) in simp_all)

lemma closer_step:
  assumes "close_phase fd pc w" and "closes pc" and "plain pc" and "advance os pc w = Some (pc', v)"
    and "t_state w = Closed" and "close_count w = 0"
  shows "plain pc' \<and> t_state v = Closed \<and>
    (if closes pc' then close_phase fd pc' v \<and> close_count v = 0 else \<not> valid (t_desc v) \<and> watched v = {} \<and> close_count v = 1)"
proof (cases pc)
  case (Unwatching c)
  with assms show ?thesis by (simp add: intact_def close_count_def) (use assms in \<open>force simp: intact_def close_count_def\<close>)
next
  case (Releasing c)
  obtain d k where d: "close_descriptor os (t_desc w) (t_os w) = (d, k)" by (metis surj_pair)
  with close_descriptor_invalid [of os "t_desc w" "t_os w"] have "\<not> valid d" by simp
  with Releasing d assms show ?thesis by (auto simp: release_section_def close_count_def)
next
  case (Announcing c)
  with assms show ?thesis by (cases c) (auto simp: close_count_def)
qed (use assms(2) in simp_all)

lemma plain_update:
  "\<forall>c \<in> set pcs. plain c \<Longrightarrow> plain c' \<Longrightarrow> \<forall>c \<in> set (pcs[i := c']). plain c"
  using set_update_subset_insert [of pcs i c'] by auto

lemma close_phase_same: "same_socket w v \<Longrightarrow> close_phase fd c v \<longleftrightarrow> close_phase fd c w"
  by (cases c) (simp_all add: same_socket_def intact_def)

lemma close_keep:
  assumes "close_inv fd s" and "same_socket (th_shared s) (th_shared t)" and "th_pcs t = (th_pcs s)[i := c]"
    and "plain c" and "\<not> closes c" and "i < length (th_pcs s)" and "\<not> closes (th_pcs s ! i)"
  shows "close_inv fd t"
proof -
  have p: "\<forall>c \<in> set (th_pcs t). plain c"
    using plain_update assms(1,3,4) unfolding close_inv_def by metis
  have eq: "closes (th_pcs t ! j) \<longleftrightarrow> closes (th_pcs s ! j)" if "j < length (th_pcs s)" for j
    using that assms(3,5-7) by (cases "j = i") simp_all
  have keep: "th_pcs t ! j = th_pcs s ! j" if "closes (th_pcs s ! j)" for j
    using that assms(3,7) by (cases "j = i") simp_all
  have len: "length (th_pcs t) = length (th_pcs s)" using assms(3) by simp
  from assms(1) consider "\<forall>c \<in> set (th_pcs s). \<not> closes c" "settled fd (th_shared s)"
    | m where "m < length (th_pcs s)" "\<forall>j < length (th_pcs s). closes (th_pcs s ! j) \<longleftrightarrow> j = m" "t_state (th_shared s) = Closed"
        "close_phase fd (th_pcs s ! m) (th_shared s)" "close_count (th_shared s) = 0"
    unfolding close_inv_def by blast
  then show ?thesis
  proof cases
    case 1
    then have "settled fd (th_shared t)" using assms(2) by (simp add: same_socket_def settled_def intact_def)
    moreover have "\<forall>c \<in> set (th_pcs t). \<not> closes c" using 1(1) eq len by (metis in_set_conv_nth nth_mem)
    ultimately show ?thesis using p unfolding close_inv_def by blast
  next
    case 2
    then have "th_pcs t ! m = th_pcs s ! m" by (intro keep) simp
    then have "close_phase fd (th_pcs t ! m) (th_shared t)" "t_state (th_shared t) = Closed" "close_count (th_shared t) = 0"
      using 2 close_phase_same [OF assms(2)] assms(2) by (simp_all add: same_socket_def)
    then show ?thesis using p 2(1,2) eq len unfolding close_inv_def by metis
  qed
qed

text \<open>The thread that closes goes through its phases; the one that finds the socket open starts them.\<close>

lemma close_continues:
  assumes "close_inv fd s" and "i < length (th_pcs s)" and "advance os (th_pcs s ! i) (th_shared s) = Some (c, th_shared t)"
    and "th_pcs t = (th_pcs s)[i := c]" and "closes (th_pcs s ! i)"
  shows "close_inv fd t"
proof -
  let ?pcs = "th_pcs s" and ?w = "th_shared t"
  have plain: "plain (?pcs ! i)" using assms(1,2) by (simp add: close_inv_def)
  have only: "closes (?pcs ! j) \<longleftrightarrow> j = i" if "j < length ?pcs" for j
    using assms(1,2,5) that unfolding close_inv_def by (metis nth_mem)
  have "t_state (th_shared s) = Closed \<and> close_phase fd (?pcs ! i) (th_shared s) \<and> close_count (th_shared s) = 0"
    using assms(1,2,5) only unfolding close_inv_def by (metis nth_mem)
  then have st: "plain c \<and> t_state ?w = Closed \<and> (if closes c then close_phase fd c ?w \<and> close_count ?w = 0
      else \<not> valid (t_desc ?w) \<and> watched ?w = {} \<and> close_count ?w = 1)"
    using closer_step [OF _ assms(5) plain assms(3)] by blast
  have pl: "\<forall>c \<in> set (th_pcs t). plain c"
    using plain_update [of ?pcs c i] assms(1,4) st by (simp add: close_inv_def)
  have cl: "closes (th_pcs t ! j) \<longleftrightarrow> j = i \<and> closes c" if "j < length ?pcs" for j
    using that only [OF that] assms(4) by (cases "j = i") simp_all
  show ?thesis
  proof (cases "closes c")
    case True
    then show ?thesis using pl st cl assms(2,4) unfolding close_inv_def by (intro conjI disjI2 exI [of _ i]) simp_all
  next
    case False
    then have "\<forall>c \<in> set (th_pcs t). \<not> closes c" using cl assms(4) by (metis in_set_conv_nth length_list_update)
    with False st pl show ?thesis unfolding close_inv_def settled_def by simp
  qed
qed

lemma close_begins:
  assumes "close_inv fd s" and "i < length (th_pcs s)" and "th_pcs s ! i = Closing c'"
    and "close_section c' (th_shared s) = (c, th_shared t)" and "th_pcs t = (th_pcs s)[i := c]"
  shows "close_inv fd t"
proof -
  let ?pcs = "th_pcs s"
  have "plain (?pcs ! i)" using assms(1,2) by (simp add: close_inv_def)
  then have r: "resumes c'" using assms(3) by simp
  then have c': "plain c'" "\<not> closes c'" by (cases c'; simp)+
  have cw: "c = (if is_live (th_shared s) then Unwatching c' else c')" "th_shared t = (th_shared s)\<lparr>t_state := Closed\<rparr>"
    using assms(4) by (simp_all add: close_section_def)
  show ?thesis
  proof (cases "t_state (th_shared s) = Closed")
    case True
    then have "\<not> is_live (th_shared s)" "same_socket (th_shared s) (th_shared t)"
      using cw by (simp_all add: is_live_def same_socket_def close_count_def)
    with close_keep [of fd s t i c] cw c' assms show ?thesis by simp
  next
    case False
    then have st: "\<forall>c \<in> set ?pcs. \<not> closes c" "t_state (th_shared s) = Open" "intact fd (th_shared s)"
      "watched (th_shared s) = {fd}" "close_count (th_shared s) = 0"
      using assms(1) by (auto simp: close_inv_def settled_def)
    then have c: "c = Unwatching c'" using cw by (simp add: is_live_def intact_def)
    have "\<forall>c \<in> set (th_pcs t). plain c"
      using plain_update [of ?pcs c i] assms(1,5) c r by (simp add: close_inv_def)
    moreover have "closes (th_pcs t ! j) \<longleftrightarrow> j = i" if "j < length ?pcs" for j
      using that st(1) assms(5) c by (cases "j = i") simp_all
    ultimately show ?thesis
      using st cw(2) c assms(2,5) unfolding close_inv_def
      by (intro conjI disjI2 exI [of _ i]) (simp_all add: intact_def close_count_def)
  qed
qed

lemma close_run:
  assumes "close_inv fd s" and "i < length (th_pcs s)" and "advance os (th_pcs s ! i) (th_shared s) = Some (c, th_shared t)"
    and "th_pcs t = (th_pcs s)[i := c]"
  shows "close_inv fd t"
proof -
  consider (continue) "closes (th_pcs s ! i)" | (first) c' where "th_pcs s ! i = Closing c'"
    | (other) "\<not> closes (th_pcs s ! i)" "\<And>c'. th_pcs s ! i \<noteq> Closing c'" by blast
  then show ?thesis
  proof cases
    case continue
    from close_continues [OF assms this] show ?thesis .
  next
    case (first c')
    with close_begins [OF assms(1,2) first] assms(3,4) show ?thesis by simp
  next
    case other
    have "plain (th_pcs s ! i)" "t_state (th_shared s) = Open \<or> t_state (th_shared s) = Closed"
      using assms(1,2) by (auto simp: close_inv_def settled_def)
    from advance_same [OF assms(3) this(1) other this(2)] show ?thesis
      using close_keep [of fd s t i c] other assms by simp
  qed
qed

lemma call_plain: "may_call i c \<Longrightarrow> \<not> connects (Call i c) \<Longrightarrow> plain c \<and> \<not> closes c"
  by (cases "(i, c)" rule: may_call.cases) simp_all

lemma perform_close:
  assumes "perform os a s = Some t" and "close_inv fd s" and "\<not> connects a"
  shows "close_inv fd t"
proof (cases a)
  case (Call i c)
  with assms(1) have i: "i < length (th_pcs s)" "th_pcs s ! i = Rest" "may_call i c"
    and t: "t = s\<lparr>th_pcs := (th_pcs s)[i := c]\<rparr>" by (auto split: if_splits)
  have "plain c" "\<not> closes c" using call_plain [OF i(3)] assms(3) Call by blast+
  with close_keep [of fd s t i c] assms(2) i t show ?thesis by simp
next
  case (Run i)
  with assms(1) obtain c where i: "i < length (th_pcs s)" "advance os (th_pcs s ! i) (th_shared s) = Some (c, th_shared t)"
    "th_pcs t = (th_pcs s)[i := c]" by (auto split: if_splits option.splits)
  from close_run [OF assms(2) this] show ?thesis .
next
  case (Kernel k)
  then have t: "th_pcs t = th_pcs s" "th_shared t = (th_shared s)\<lparr>t_os := k\<rparr>" using assms(1) by auto
  have "close_phase fd c (th_shared t) \<longleftrightarrow> close_phase fd c (th_shared s)" for c
    using t by (intro close_phase_same) (simp add: same_socket_def close_count_def)
  with t assms(2) show ?thesis by (simp add: close_inv_def settled_def close_count_def intact_def)
qed

text \<open>A socket opened by \<^verbatim>\<open>Server\<close> or connected before, watched by its loop.\<close>

definition ready_socket :: "nat \<Rightarrow> int \<Rightarrow> ('k, 'c) threads \<Rightarrow> bool" where
  "ready_socket n fd s \<longleftrightarrow> fresh_socket n s \<and> intact fd (th_shared s) \<and> watched (th_shared s) = {fd}"

lemma ready_close: "ready_socket n fd s \<Longrightarrow> close_inv fd s"
  by (auto simp: ready_socket_def fresh_socket_def close_inv_def settled_def close_count_def)

lemma step_close: "close_inv fd s \<Longrightarrow> threads_step os False s t \<Longrightarrow> close_inv fd t"
  by (erule threads_stepE) (simp add: perform_close)

interpretation closing: invariant "ready_socket n fd" "threads_step os False" "close_inv fd" for n fd os
  by unfold_locales (fact ready_close, fact step_close)


section \<open>Runs\<close>

fun run_actions :: "'k os \<Rightarrow> 'k action list \<Rightarrow> ('k, 'c) threads \<Rightarrow> ('k, 'c) threads option" where
  "run_actions os [] s = Some s"
| "run_actions os (a # as) s = Option.bind (perform os a s) (run_actions os as)"

lemma run_reach:
  "run_actions os as s = Some t \<Longrightarrow> list_all (\<lambda>a. connects a \<longrightarrow> conn) as \<Longrightarrow> reach init (threads_step os conn) s
   \<Longrightarrow> reach init (threads_step os conn) t"
proof (induction as arbitrary: s)
  case (Cons a as)
  then obtain u where "perform os a s = Some u" "run_actions os as u = Some t" by (auto simp: bind_eq_Some_conv)
  moreover have "reach init (threads_step os conn) u"
    using Cons.prems calculation(1) by (auto intro: reach_step threads_step.perform)
  ultimately show ?case using Cons by simp
qed simp

definition in_threads :: "nat \<Rightarrow> ('k, 'c) tcp \<Rightarrow> ('k, 'c) threads" where
  "in_threads n w = \<lparr>th_shared = w, th_pcs = replicate n Rest, th_accepted = []\<rparr>"

lemma in_threads_ready: "ready_socket n 7 (in_threads n (open_socket k))"
  using open_socket_ok [of k]
  by (simp add: ready_socket_def fresh_socket_def in_threads_def stream_def channel_def intact_def watched_def tcp_eval
      watch_keys make_loop_def)

lemmas run_eval = reset_def invalid_handle_def close_section_def is_live_def release_section_def close_descriptor_def check_section_def pending_error_def
  numeral_3_eq_3 in_threads_def tcp_eval pump_locked.simps numeral_2_eq_2 write_section_def want_write_def
  buffered_def append_bytes_def modify_interest_def make_loop_def io_section_def pump_section_def drained_section_def
  half_close_section_def after_output_def write_interest_def has_def modify_def watch_def watch_table_def on_poller_def
  interest_read_def interest_write_def interest_or_def

text \<open>
  C9: Bytes under concurrent use. Whatever threads write, end, connect and destroy, and however their
  sections and the kernel's progress interleave, the bytes handed to the kernel followed by those queued are the
  chunks of the accepted writes in the order in which these took the lock: nothing is lost, repeated or reordered.
\<close>

theorem threads_keep_stream:
  assumes "reach (fresh_socket n) (threads_step os conn) s" and "os_contract os"
  shows "th_accepted s = t_sent (th_shared s) @ drop (t_offset (th_shared s)) (t_outbuf (th_shared s))"
  using sent_bytes.reach_inv [OF assms(1)] assms(2) by (simp add: stream_inv_def stream_def)

theorem threads_keep_stream_witness:
  "\<exists>s :: (nat, nat) threads. reach (fresh_socket 2) (threads_step capacity_os True) s \<and> th_accepted s = [1, 2] \<and> buffered (th_shared s)
     \<and> th_accepted s = t_sent (th_shared s) @ drop (t_offset (th_shared s)) (t_outbuf (th_shared s))"
proof -
  obtain s where s: "run_actions capacity_os [Call 1 (Write [1, 2]), Run 1] (in_threads 2 (open_socket 1)) = Some s"
    "th_accepted s = [1, 2]" "buffered (th_shared s)"
    by (simp add: run_eval)
  have "reach (fresh_socket 2) (threads_step capacity_os True) s"
    using run_reach [OF s(1), of True] in_threads_ready [of 2 "1 :: nat"] by (auto simp: ready_socket_def intro: reach_init)
  from threads_keep_stream [OF this capacity_os_contract] this s(2,3) show ?thesis by blast
qed

text \<open>
  C5: Closing under concurrent use. On a socket that is open and watched, with any threads writing, ending and
  destroying it while its loop dispatches events, the close event is emitted at most once. When no call is
  in progress, the socket is either open with its descriptor and its watch, and not yet announced closed, or
  closed with its descriptor released, unwatched and announced once.
\<close>

theorem threads_close_once:
  assumes "reach (ready_socket n fd) (threads_step os False) s"
  shows "close_count (th_shared s) \<le> 1
    \<and> (set (th_pcs s) \<subseteq> {Rest} \<longrightarrow>
        (if t_state (th_shared s) = Open
         then native (t_desc (th_shared s)) = fd \<and> watched (th_shared s) = {fd} \<and> close_count (th_shared s) = 0
         else t_state (th_shared s) = Closed \<and> \<not> valid (t_desc (th_shared s)) \<and> watched (th_shared s) = {}
           \<and> close_count (th_shared s) = 1))"
proof -
  have inv: "close_inv fd s" using closing.reach_inv [OF assms] .
  then have "close_count (th_shared s) \<le> 1" by (auto simp: close_inv_def settled_def)
  moreover have "settled fd (th_shared s)" if "set (th_pcs s) \<subseteq> {Rest}"
  proof -
    have "\<not> closes (th_pcs s ! i)" if "i < length (th_pcs s)" for i
      using \<open>set (th_pcs s) \<subseteq> {Rest}\<close> nth_mem [OF that] by auto
    with inv show ?thesis unfolding close_inv_def by blast
  qed
  ultimately show ?thesis by (auto simp: settled_def intact_def)
qed


theorem threads_close_once_witness:
  "\<exists>s :: (nat, nat) threads. reach (ready_socket 3 7) (threads_step capacity_os False) s \<and> th_pcs s = [Rest, Rest, Rest]
     \<and> t_state (th_shared s) = Closed \<and> close_count (th_shared s) = 1"
proof -
  let ?as = "[Call 1 (Closing Rest), Call 2 (Closing Rest), Run 1, Run 2, Run 1, Run 1, Run 1]"
  have "\<exists>s. run_actions capacity_os ?as (in_threads 3 (open_socket 1)) = Some s \<and> th_pcs s = [Rest, Rest, Rest]
     \<and> t_state (th_shared s) = Closed"
    by (simp add: run_eval)
  then obtain s where s: "run_actions capacity_os ?as (in_threads 3 (open_socket 1)) = Some s" "th_pcs s = [Rest, Rest, Rest]"
     "t_state (th_shared s) = Closed" by blast
  have "reach (ready_socket 3 7) (threads_step capacity_os False) s"
    using run_reach [OF s(1), of False] in_threads_ready [of 3 "1 :: nat"] by (auto intro: reach_init)
  with threads_close_once [OF this] s(2,3) show ?thesis by auto
qed

text \<open>
  C31: A lost interest in writability. Two threads and the loop can leave an open socket at rest with bytes
  queued and nobody watching for writability: a write between the moment the loop has flushed the queue and
  the moment it drops its interest re-arms the interest too early. The bytes stay until the next write.
\<close>

theorem write_interest_lost:
  "\<exists>s :: (nat, nat) threads. reach (ready_socket 2 7) (threads_step capacity_os False) s \<and> th_pcs s = [Rest, Rest]
     \<and> t_state (th_shared s) = Open \<and> buffered (th_shared s) \<and> \<not> write_interest (th_shared s)"
proof -
  let ?as = "[Call 1 (Write [1, 2]), Run 1, Kernel 5, Call 0 (Io \<lparr>readable = False, writable = True, error = False, hangup = False\<rparr>),
    Run 0, Run 0, Kernel 0, Call 1 (Write [3]), Run 1, Run 0, Run 0, Run 0]"
  have "\<exists>s. run_actions capacity_os ?as (in_threads 2 (open_socket 1)) = Some s \<and> th_pcs s = [Rest, Rest]
     \<and> t_state (th_shared s) = Open \<and> buffered (th_shared s) \<and> \<not> write_interest (th_shared s)"
    by (simp add: run_eval)
  then obtain s where s: "run_actions capacity_os ?as (in_threads 2 (open_socket 1)) = Some s" "th_pcs s = [Rest, Rest]"
     "t_state (th_shared s) = Open" "buffered (th_shared s)" "\<not> write_interest (th_shared s)" by blast
  have "reach (ready_socket 2 7) (threads_step capacity_os False) s"
    using run_reach [OF s(1), of False] in_threads_ready [of 2 "1 :: nat"] by (auto intro: reach_init)
  with s(2-5) show ?thesis by blast
qed


text \<open>
  A connection attempt can undo a concurrent \<^verbatim>\<open>destroy\<close>. The loop checks the state and sets it to open in
  two sections. When \<^verbatim>\<open>destroy\<close> comes between them the closed socket is open again, a second \<^verbatim>\<open>destroy\<close>
  finds it live, and the close event is emitted twice, the last one before the connect event.
\<close>

theorem destroy_race_closes_twice:
  "\<exists>as s. run_actions capacity_os as (in_threads 3 ((open_socket 1)\<lparr>t_state := Connecting\<rparr>)) = Some s
     \<and> \<not> list_ex connects as \<and> t_events (th_shared s) = [Close_event, Close_event, Connect_event]"
  by (rule exI [of _ "[Call 0 (Io \<lparr>readable = False, writable = True, error = False, hangup = False\<rparr>), Run 0, Run 0,
    Call 1 (Closing Rest), Run 1, Run 0, Call 2 (Closing Rest), Run 2, Run 1, Run 1, Run 1, Run 2, Run 2, Run 2,
    Run 0, Run 0, Run 0]"]) (simp add: run_eval)

end
