(* ===== verification/Tcp_Pipe.thy ===== *)
theory Tcp_Pipe
  imports Tcp_Socket "HOL-Library.Sublist"
begin

text \<open>
  Two TCP sockets and the network between them. The receiving side of a socket (protocol/tcp/socket.hpp,
  \<^verbatim>\<open>drain_input\<close>) hands over what its kernel received and nothing else; with the sending side this
  gives the stream from one program to the other.
\<close>

section \<open>The receiving side\<close>

text \<open>
  What is documented of the kernel: of the bytes \<open>pend k\<close> that arrived for the socket, a successful
  \<^verbatim>\<open>recv\<close> takes those it returns from the front, and no other call changes them.
\<close>

definition input_contract :: "'k os \<Rightarrow> ('k \<Rightarrow> buffer) \<Rightarrow> bool" where
  "input_contract os pend \<longleftrightarrow> kernel_calls os (\<lambda>k l. pend l = pend k)
     \<and> (\<forall>h m k b r e l. os_recv os h m k = (b, r, e, l) \<and> 0 < r \<longrightarrow> pend k = take (nat r) b @ pend l)"

fun data_of :: "tcp_event \<Rightarrow> buffer" where
  "data_of (Data c) = c"
| "data_of _ = []"

definition received_data :: "('k, 'c, 'z) tcp_scheme \<Rightarrow> buffer" where
  "received_data w = concat (map data_of (t_events w))"

definition input_of :: "('k \<Rightarrow> buffer) \<Rightarrow> ('k, 'c, 'z) tcp_scheme \<Rightarrow> buffer" where
  "input_of pend w = received_data w @ pend (t_os w)"

definition keeps_input :: "('k \<Rightarrow> buffer) \<Rightarrow> ('k, 'c, 'z) listeners \<Rightarrow> bool" where
  "keeps_input pend lst \<longleftrightarrow> (\<forall>e w. input_of pend (lst e w) = input_of pend w)"

lemma input_of_fields [simp]:
  "input_of pend (w\<lparr>t_state := c\<rparr>) = input_of pend w" "input_of pend (w\<lparr>t_outbuf := q\<rparr>) = input_of pend w"
  "input_of pend (w\<lparr>t_offset := n\<rparr>) = input_of pend w" "input_of pend (w\<lparr>t_sent := q\<rparr>) = input_of pend w"
  "input_of pend (w\<lparr>t_ended := b\<rparr>) = input_of pend w" "input_of pend (w\<lparr>t_loop := l\<rparr>) = input_of pend w"
  "input_of pend (w\<lparr>t_desc := d\<rparr>) = input_of pend w" "input_of pend (w\<lparr>t_peer := a\<rparr>) = input_of pend w"
  "pend k = pend (t_os w) \<Longrightarrow> input_of pend (w\<lparr>t_os := k\<rparr>) = input_of pend w"
  by (simp_all add: input_of_def received_data_def)

lemma input_of_emit:
  "keeps_input pend lst \<Longrightarrow> input_of pend (tcp_emit lst e w) = received_data w @ data_of e @ pend (t_os w)"
  by (simp add: keeps_input_def tcp_emit_def input_of_def received_data_def)

lemma data_of_other [simp]: "(\<forall>c. e \<noteq> Data c) \<Longrightarrow> data_of e = []"
  by (cases e) auto

lemma input_emit_other:
  "(\<forall>c. e \<noteq> Data c) \<Longrightarrow> keeps_input pend lst \<Longrightarrow> input_of pend (tcp_emit lst e w) = input_of pend w"
  by (subst input_of_emit) (simp_all add: input_of_def)

lemma input_closes: "input_contract os pend \<Longrightarrow> pend (snd (close_descriptor os d k)) = pend k"
  unfolding input_contract_def using kernel_calls.K_close_descriptor [of os "\<lambda>k l. pend l = pend k"] by blast

lemma input_calls: "input_contract os pend \<Longrightarrow> kernel_calls os (\<lambda>k l. pend l = pend k)"
  by (simp add: input_contract_def)

lemma input_received:
  assumes "input_contract os pend" and "keeps_input pend lst" and "os_recv os h m (t_os w) = (b, r, e, k)" and "0 < r"
  shows "input_of pend (tcp_emit lst (Data (take (nat r) b)) (w\<lparr>t_os := k\<rparr>)) = input_of pend w"
proof -
  have "pend (t_os w) = take (nat r) b @ pend k" using assms(1,3,4) unfolding input_contract_def by blast
  then show ?thesis by (subst input_of_emit [OF assms(2)]) (simp add: input_of_def received_data_def)
qed

lemmas input_laws = kernel_calls.K_socket [OF input_calls] kernel_calls.K_getfl [OF input_calls] kernel_calls.K_setfl [OF input_calls]
  kernel_calls.K_connect [OF input_calls] kernel_calls.K_send [OF input_calls] kernel_calls.K_recv [OF input_calls]
  kernel_calls.K_shutdown [OF input_calls] kernel_calls.K_so_error [OF input_calls] kernel_calls.K_close [OF input_calls]

interpretation receiving: tcp_calls os "\<lambda>k l. input_contract os pend \<longrightarrow> pend l = pend k" lst
  "\<lambda>w w'. input_contract os pend \<longrightarrow> keeps_input pend lst \<longrightarrow> input_of pend w' = input_of pend w" for os pend lst
  by unfold_locales
    (auto simp: input_received input_closes input_emit_other modify_interest_def watch_self_def torn_down_def dest: input_laws)

text \<open>
  Input is conserved. The bytes handed to the program in data events, followed by those the kernel still
  holds, are the same before and after every operation, every readiness event and every error path: nothing
  that arrives is lost, repeated or reordered before it is delivered, whatever the socket sends meanwhile.
\<close>

theorem tcp_input_conserved:
  assumes "input_contract os pend" and "keeps_input pend lst"
  shows "(on_io os lst r w = Some w' \<longrightarrow> received_data w' @ pend (t_os w') = received_data w @ pend (t_os w))
    \<and> (tcp_write os lst chunk w = Some (b, w') \<longrightarrow> received_data w' @ pend (t_os w') = received_data w @ pend (t_os w))
    \<and> received_data (tcp_end os w) @ pend (t_os (tcp_end os w)) = received_data w @ pend (t_os w)
    \<and> received_data (tcp_destroy os lst w) @ pend (t_os (tcp_destroy os lst w)) = received_data w @ pend (t_os w)"
  using receiving.R_on_io [of os lst r w w' pend] receiving.R_write [of os lst chunk w b w' pend]
    receiving.R_end [of os pend lst w] receiving.R_close_with [of os pend lst w] assms
  by (auto simp: tcp_destroy_def input_of_def)

section \<open>A connection\<close>

text \<open>
  Both ends of a connection. The network carries the bytes the kernel of one end took, in order, to the
  kernel of the other, where \<open>arrive\<close> adds them to what is pending; \<open>to_far\<close> and \<open>to_near\<close> count the
  bytes carried.
\<close>

record ('k, 'c, 'y, 'd, 'z) duplex =
  near :: "('k, 'c, 'y) tcp_scheme"
  far :: "('k, 'd, 'z) tcp_scheme"
  to_far :: nat
  to_near :: nat

text \<open>What a program or its kernel does to one end.\<close>

inductive end_step :: "'k os \<Rightarrow> ('k \<Rightarrow> buffer) \<Rightarrow> ('k, 'c, 'z) listeners \<Rightarrow>
  ('k, 'c, 'z) tcp_scheme \<Rightarrow> ('k, 'c, 'z) tcp_scheme \<Rightarrow> bool" for os pend lst where
  io: "on_io os lst r w = Some w' \<Longrightarrow> end_step os pend lst w w'"
| writing: "tcp_write os lst chunk w = Some (b, w') \<Longrightarrow> end_step os pend lst w w'"
| ending: "end_step os pend lst w (tcp_end os w)"
| destroy: "end_step os pend lst w (tcp_destroy os lst w)"
| kernel: "pend k = pend (t_os w) \<Longrightarrow> end_step os pend lst w (w\<lparr>t_os := k\<rparr>)"

definition carried :: "nat \<Rightarrow> nat \<Rightarrow> ('k, 'c, 'y) tcp_scheme \<Rightarrow> buffer" where
  "carried from n w = take n (drop from (t_sent w))"

inductive duplex_step :: "(buffer \<Rightarrow> 'k \<Rightarrow> 'k) \<Rightarrow>
  (('k, 'c, 'y) tcp_scheme \<Rightarrow> ('k, 'c, 'y) tcp_scheme \<Rightarrow> bool) \<Rightarrow> (('k, 'd, 'z) tcp_scheme \<Rightarrow> ('k, 'd, 'z) tcp_scheme \<Rightarrow> bool) \<Rightarrow>
  ('k, 'c, 'y, 'd, 'z) duplex \<Rightarrow> ('k, 'c, 'y, 'd, 'z) duplex \<Rightarrow> bool" for arrive N F where
  near: "N (near s) w \<Longrightarrow> duplex_step arrive N F s (s\<lparr>near := w\<rparr>)"
| far: "F (far s) w \<Longrightarrow> duplex_step arrive N F s (s\<lparr>far := w\<rparr>)"
| carry_far: "duplex_step arrive N F s (s\<lparr>
    far := (far s)\<lparr>t_os := arrive (carried (to_far s) n (near s)) (t_os (far s))\<rparr>,
    to_far := to_far s + length (carried (to_far s) n (near s))\<rparr>)"
| carry_near: "duplex_step arrive N F s (s\<lparr>
    near := (near s)\<lparr>t_os := arrive (carried (to_near s) n (far s)) (t_os (near s))\<rparr>,
    to_near := to_near s + length (carried (to_near s) n (far s))\<rparr>)"

definition link_ok :: "('k \<Rightarrow> buffer) \<Rightarrow> ('k, 'c, 'y) tcp_scheme \<Rightarrow> nat \<Rightarrow> ('k, 'd, 'z) tcp_scheme \<Rightarrow> bool" where
  "link_ok pend a n b \<longleftrightarrow> out_ok a \<and> n \<le> length (t_sent a) \<and> input_of pend b = take n (t_sent a)"

definition network_contract :: "'k os \<Rightarrow> ('k \<Rightarrow> buffer) \<Rightarrow> (buffer \<Rightarrow> 'k \<Rightarrow> 'k) \<Rightarrow> bool" where
  "network_contract os pend arrive \<longleftrightarrow> os_contract os \<and> input_contract os pend \<and> (\<forall>b k. pend (arrive b k) = pend k @ b)"

lemma simulates_sent_grows: "simulates w w' \<Longrightarrow> out_ok w \<Longrightarrow> \<exists>x. t_sent w' = t_sent w @ x"
proof -
  have "chan_step\<^sup>*\<^sup>* (s, q) (s', q') \<Longrightarrow> \<exists>x. s' = s @ x" for s q s' q'
  proof (induction "(s', q')" arbitrary: s' q' rule: rtranclp_induct)
    case (step y)
    then show ?case by (cases y) (auto elim!: chan_step.cases)
  qed simp
  then show "simulates w w' \<Longrightarrow> out_ok w \<Longrightarrow> ?thesis" by (auto simp: simulates_def channel_def)
qed

lemma end_step_related:
  assumes "end_step os pend lst w w'" and "os_contract os" and "input_contract os pend" and "keeps_channel lst" and "keeps_input pend lst"
  shows "simulates w w' \<and> input_of pend w' = input_of pend w"
  using assms(1)
proof cases
  case (io r)
  with assms sending.R_on_io receiving.R_on_io show ?thesis by blast
next
  case (writing chunk b)
  with assms sending.R_write receiving.R_write show ?thesis by blast
next
  case ending
  with assms sending.R_end receiving.R_end show ?thesis by blast
next
  case destroy
  with assms sending.R_close_with receiving.R_close_with show ?thesis unfolding tcp_destroy_def by blast
next
  case (kernel k)
  then show ?thesis by (simp add: simulates_same)
qed

text \<open>What makes a step of an end harmless to both directions.\<close>

definition good_end :: "('k \<Rightarrow> buffer) \<Rightarrow> (('k, 'c, 'z) tcp_scheme \<Rightarrow> ('k, 'c, 'z) tcp_scheme \<Rightarrow> bool) \<Rightarrow> bool" where
  "good_end pend E \<longleftrightarrow> (\<forall>w w'. E w w' \<longrightarrow> simulates w w' \<and> input_of pend w' = input_of pend w)"

lemma link_sender: "link_ok pend a n b \<Longrightarrow> simulates a a' \<Longrightarrow> link_ok pend a' n b"
  using simulates_sent_grows [of a a'] by (auto simp: link_ok_def simulates_def)

lemma link_receiver: "link_ok pend a n b \<Longrightarrow> input_of pend b' = input_of pend b \<Longrightarrow> link_ok pend a n b'"
  by (simp add: link_ok_def)

lemma link_carry:
  assumes "link_ok pend a n b" and "\<forall>c k. pend (arrive c k) = pend k @ c"
  shows "link_ok pend a (n + length (carried n m a)) (b\<lparr>t_os := arrive (carried n m a) (t_os b)\<rparr>)"
proof -
  have "take (n + min (length (t_sent a) - n) m) (t_sent a) = take n (t_sent a) @ take m (drop n (t_sent a))"
    by (simp add: take_add min_def)
  with assms show ?thesis
    by (auto simp: link_ok_def carried_def input_of_def received_data_def)
qed

lemma link_kernel: "link_ok pend (a\<lparr>t_os := k\<rparr>) n b \<longleftrightarrow> link_ok pend a n b"
  by (simp add: link_ok_def)

definition links_ok :: "('k \<Rightarrow> buffer) \<Rightarrow> ('k, 'c, 'y, 'd, 'z) duplex \<Rightarrow> bool" where
  "links_ok pend s \<longleftrightarrow> link_ok pend (near s) (to_far s) (far s) \<and> link_ok pend (far s) (to_near s) (near s)"

definition connected :: "('k \<Rightarrow> buffer) \<Rightarrow> ('k, 'c, 'y, 'd, 'z) duplex \<Rightarrow> bool" where
  "connected pend s \<longleftrightarrow> to_far s = 0 \<and> to_near s = 0 \<and> out_ok (near s) \<and> out_ok (far s)
     \<and> input_of pend (near s) = [] \<and> input_of pend (far s) = [] \<and> t_sent (near s) = [] \<and> t_sent (far s) = []"

lemma links_step:
  assumes "duplex_step arrive N F s t" and "good_end pend N" and "good_end pend F"
    and "\<forall>c k. pend (arrive c k) = pend k @ c" and "links_ok pend s"
  shows "links_ok pend t"
  using assms(1)
proof cases
  case (near w)
  with assms show ?thesis by (auto simp: links_ok_def good_end_def intro: link_sender link_receiver)
next
  case (far w)
  with assms show ?thesis by (auto simp: links_ok_def good_end_def intro: link_sender link_receiver)
next
  case (carry_far n)
  with link_carry [OF _ assms(4), of "near s" "to_far s" "far s" n] assms(5) show ?thesis by (simp add: links_ok_def link_kernel)
next
  case (carry_near n)
  with link_carry [OF _ assms(4), of "far s" "to_near s" "near s" n] assms(5) show ?thesis by (simp add: links_ok_def link_kernel)
qed

lemma connected_links: "connected pend s \<Longrightarrow> links_ok pend s"
  by (simp add: connected_def links_ok_def link_ok_def)

interpretation link: invariant "connected pend" "duplex_step arrive N F"
  "\<lambda>s. good_end pend N \<longrightarrow> good_end pend F \<longrightarrow> (\<forall>c k. pend (arrive c k) = pend k @ c) \<longrightarrow> links_ok pend s" for pend arrive N F
  by unfold_locales (auto intro: connected_links links_step)

lemma ends_good:
  assumes "network_contract os pend arrive" and "keeps_channel lst" and "keeps_input pend lst"
  shows "good_end pend (end_step os pend lst)"
  using assms end_step_related unfolding good_end_def network_contract_def by blast

lemma link_prefix:
  assumes "link_ok pend a n b"
  shows "prefix (received_data b) (stream a)"
    and "n = length (t_sent a) \<Longrightarrow> pend (t_os b) = [] \<Longrightarrow> \<not> buffered a \<Longrightarrow> received_data b = stream a"
proof -
  have eq: "received_data b @ pend (t_os b) = take n (t_sent a)" using assms by (simp add: link_ok_def input_of_def)
  then have "stream a = received_data b @ pend (t_os b) @ drop n (t_sent a) @ drop (t_offset a) (t_outbuf a)"
    by (metis append.assoc append_take_drop_id stream_def)
  then show "prefix (received_data b) (stream a)" by (metis prefixI)
  show "received_data b = stream a" if "n = length (t_sent a)" "pend (t_os b) = []" "\<not> buffered a"
    using that eq by (simp add: stream_def buffered_def)
qed


text \<open>A system whose state is the input that has arrived, and which takes all output at once.\<close>

definition pipe_os :: "buffer os" where
  "pipe_os = (quiet_os letter_inet)\<lparr>
     os_send := \<lambda>_ b k. (int (length b), 0, k),
     os_recv := \<lambda>_ n k.
       if n = 0 \<or> k = [] then ([], -1, EAGAIN, k) else (take n k, int (min n (length k)), 0, drop n k)\<rparr>"

lemma pipe_os_contract: "network_contract pipe_os (\<lambda>k. k) (\<lambda>b k. k @ b)"
  by (auto simp: network_contract_def input_contract_def os_contract_def kernel_calls_def pipe_os_def quiet_os_def EAGAIN_def
      min_def split: if_splits)

definition pipe_between :: "(buffer, nat) tcp \<Rightarrow> (buffer, nat) tcp \<Rightarrow> (buffer, nat, unit, nat, unit) duplex" where
  "pipe_between a b = \<lparr>near = a, far = b, to_far = 0, to_near = 0\<rparr>"

lemma silent_keeps: "keeps_channel (\<lambda>_ w. w)" "keeps_input pend (\<lambda>_ w. w)"
  by (simp_all add: keeps_channel_def keeps_input_def simulates_same)

lemmas pipe_eval = pipe_os_def pipe_between_def tcp_write_def on_io_def pump_output.simps drain_input.simps
  append_bytes_def copy_buffer_def buffered_def carried_def tcp_emit_def

text \<open>One end writes three bytes, the network carries them and the other end is told that it can read.\<close>

lemma pipe_write:
  "tcp_write pipe_os lst [1, 2, 3] (open_socket []) = Some (True, (open_socket [])\<lparr>t_sent := [1, 2, 3]\<rparr>)"
  by (simp add: pipe_eval tcp_eval)

lemma pipe_read:
  "\<exists>w. on_io pipe_os (\<lambda>_ w. w) \<lparr>readable = True, writable = False, error = False, hangup = False\<rparr>
     ((open_socket [])\<lparr>t_os := [1, 2, 3]\<rparr>) = Some w \<and> t_events w = [Data [1, 2, 3]]"
  by (simp add: pipe_eval tcp_eval)

theorem tcp_input_conserved_witness:
  "\<exists>w. on_io pipe_os (\<lambda>_ w. w) \<lparr>readable = True, writable = False, error = False, hangup = False\<rparr>
     ((open_socket [])\<lparr>t_os := [1, 2, 3]\<rparr>) = Some w \<and> received_data w @ t_os w = [1, 2, 3]"
proof -
  have "input_contract pipe_os (\<lambda>k. k)" using pipe_os_contract by (simp add: network_contract_def)
  from tcp_input_conserved [OF this silent_keeps(2), of "\<lparr>readable = True, writable = False, error = False, hangup = False\<rparr>"
      "(open_socket [])\<lparr>t_os := [1, 2, 3]\<rparr>"] pipe_read
  show ?thesis by (auto simp: received_data_def tcp_eval)
qed


end
