(* ===== verification/Tcp_Echo.thy ===== *)
theory Tcp_Echo
  imports Tcp_Pipe Tcp_Threads
begin

text \<open>
  The echo example (examples/lnw-example-tcp-echo.cpp): a server that writes back what it receives, and a client
  that sends a line when it is connected and keeps what comes back in a promise.
\<close>

section \<open>The programs\<close>

text \<open>
  The listeners of the server's end. A write can emit an error and a close event, to which this program
  does not listen.
\<close>

fun echo_conn :: "'k os \<Rightarrow> ('k, 'c, unit) listeners" where
  "echo_conn os (Data chunk) w =
     (case tcp_write os (\<lambda>_ w. w) chunk w of
        None \<Rightarrow> w
      | Some (_, w) \<Rightarrow> w)"
| "echo_conn os _ w = w"

text \<open>
  The client's. A second value for the promise throws out of the listener and ends the process, since
  nothing on the loop's thread catches it.
\<close>

record ('k, 'c) echo_client = "('k, 'c) tcp" +
  cl_echoed :: "string option"
  cl_terminated :: bool

definition hello :: string where
  "hello = ''hello over tcp'' @ [CHR 10]"

fun client_listener :: "'k os \<Rightarrow> tcp_event \<Rightarrow> ('k, 'c) echo_client \<Rightarrow> ('k, 'c) echo_client" where
  "client_listener os Connect_event w =
     (case tcp_write os (\<lambda>_ w. w) (make_buffer hello) w of
        None \<Rightarrow> w
      | Some (_, w) \<Rightarrow> w)"
| "client_listener os (Data chunk) w =
     (case cl_echoed w of
        None \<Rightarrow> w\<lparr>cl_echoed := Some (to_string chunk)\<rparr>
      | Some _ \<Rightarrow> w\<lparr>cl_terminated := True\<rparr>)"
| "client_listener os _ w = w"

section \<open>The server's end\<close>

text \<open>While its end is open the server has written exactly what it received; after that, at most.\<close>

definition echo_ok :: "('k, 'c, 'z) tcp_scheme \<Rightarrow> bool" where
  "echo_ok w \<longleftrightarrow> out_ok w \<and>
     (t_state w = Open \<and> stream w = received_data w \<or> t_state w = Closed \<and> prefix (stream w) (received_data w))"

definition echoes :: "'k os \<Rightarrow> bool" where
  "echoes os \<longleftrightarrow> os_contract os \<and> (\<exists>rank. interrupts_bounded os rank)"

lemma received_fields [simp]:
  "received_data (w\<lparr>t_os := k\<rparr>) = received_data w" "received_data (w\<lparr>t_state := c\<rparr>) = received_data w"
  "received_data (w\<lparr>t_loop := l\<rparr>) = received_data w" "received_data (w\<lparr>t_desc := d\<rparr>) = received_data w"
  "received_data (w\<lparr>t_outbuf := q\<rparr>) = received_data w" "received_data (w\<lparr>t_offset := n\<rparr>) = received_data w"
  "received_data (w\<lparr>t_sent := q\<rparr>) = received_data w" "received_data (w\<lparr>t_ended := b\<rparr>) = received_data w"
  "received_data (w\<lparr>t_events := t_events w @ [e]\<rparr>) = received_data w @ data_of e"
  by (simp_all add: received_data_def)

lemma pump_events: "pump_locked os w = Some (e, v) \<Longrightarrow> t_events v = t_events w \<and> t_state v = t_state w"
proof (induction os w "(e, v)" arbitrary: e v rule: pump_locked.raw_induct [rotated, consumes 1, case_names step])
  case (step pump os w e v)
  obtain sent k where s: "sock_send os (t_desc w) (drop (t_offset w) (t_outbuf w)) (t_os w) = (sent, k)"
    by (metis surj_pair)
  let ?v = "w\<lparr>t_os := k, t_offset := t_offset w + nat (tr_count sent),
      t_sent := t_sent w @ take (nat (tr_count sent)) (drop (t_offset w) (t_outbuf w))\<rparr>"
  from s step(1) [of os ?v] step(1) [of os "w\<lparr>t_os := k\<rparr>"] step(2) show ?case
    by (auto simp: Let_def split: if_splits)
qed

lemma fail_keeps:
  "stream (fail os silent m w) = stream w" "out_ok (fail os silent m w) = out_ok w"
  "t_state (fail os silent m w) = Closed" "received_data (fail os silent m w) = received_data w"
  by (simp_all add: fail_def close_with_eq tcp_emit_def torn_down_def) (simp add: received_data_def)

lemma pump_echo:
  assumes "pump_output os silent w = Some w'" and "os_contract os" and "out_ok w"
  shows "out_ok w' \<and> stream w' = stream w \<and> received_data w' = received_data w \<and> (t_state w' = t_state w \<or> t_state w' = Closed)"
proof -
  obtain e v where v: "pump_locked os w = Some (e, v)"
    and w': "w' = (case e of None \<Rightarrow> v | Some e \<Rightarrow> fail os silent (describe os e ''send'') v)"
    using pump_sections [OF assms(1) refl] by blast
  have "received_data v = received_data w" using pump_events [OF v] by (simp add: received_data_def)
  with pump_stream [OF v assms(2,3)] pump_events [OF v] w' show ?thesis
    by (cases e) (simp_all add: fail_keeps)
qed

lemma write_echo:
  assumes "tcp_write os silent chunk w = Some (b, w')" and "os_contract os" and "out_ok w"
  shows "out_ok w' \<and> received_data w' = received_data w
    \<and> (if t_state w = Open then stream w' = stream w @ chunk \<and> (t_state w' = Open \<or> t_state w' = Closed)
       else stream w' = stream w \<and> t_state w' = Closed)"
proof (cases "t_state w = Open")
  case True
  let ?w = "w\<lparr>t_outbuf := append_bytes (t_outbuf w) chunk\<rparr>"
  have w: "out_ok ?w" "stream ?w = stream w @ chunk"
    using assms(3) by (simp_all add: out_ok_def stream_def append_bytes_def)
  obtain v where v: "(if buffered w then Some ?w else pump_output os silent ?w) = Some v"
    and w': "w' = (if buffered v then modify_interest (interest_or interest_read interest_write) v else v)"
    using assms(1) True by (auto simp: tcp_write_def Let_def split: option.splits)
  have "out_ok v \<and> stream v = stream w @ chunk \<and> received_data v = received_data w \<and> (t_state v = Open \<or> t_state v = Closed)"
    using v w True pump_echo [of os ?w v] assms(2) by (cases "buffered w") auto
  with w' True show ?thesis by (simp add: modify_interest_def)
next
  case False
  with assms(1,3) show ?thesis by (auto simp: tcp_write_def fail_keeps)
qed

lemma echo_received:
  assumes "echoes os" and "echo_ok w"
  shows "echo_ok (tcp_emit (echo_conn os) (Data c) (w\<lparr>t_os := k\<rparr>))"
proof -
  let ?w = "w\<lparr>t_os := k, t_events := t_events w @ [Data c]\<rparr>"
  obtain rank where "interrupts_bounded os rank" using assms(1) by (auto simp: echoes_def)
  then obtain u where "pump_output os silent (?w\<lparr>t_outbuf := append_bytes (t_outbuf ?w) c\<rparr>) = Some u"
    using pump_terminates by blast
  then obtain b w' where w': "tcp_write os silent c ?w = Some (b, w')"
    by (cases "t_state w = Open"; cases "buffered ?w") (auto simp: tcp_write_def Let_def)
  have "received_data ?w = received_data w @ c" using received_fields(9) [of "w\<lparr>t_os := k\<rparr>" "Data c"] by simp
  with write_echo [OF w'] assms w' show ?thesis
    by (auto simp: tcp_emit_def echo_ok_def echoes_def split: if_splits)
qed

lemma echo_emit: "(\<forall>c. e \<noteq> Data c) \<Longrightarrow> echo_ok w \<Longrightarrow> echo_ok (tcp_emit (echo_conn os) e w)"
  by (cases e) (auto simp: tcp_emit_def echo_ok_def)

lemma echo_sent:
  assumes "echo_ok w" and "n \<le> length (t_outbuf w) - t_offset w"
  shows "echo_ok (w\<lparr>t_os := k, t_offset := t_offset w + n, t_sent := t_sent w @ take n (drop (t_offset w) (t_outbuf w))\<rparr>)"
proof -
  let ?v = "w\<lparr>t_os := k, t_offset := t_offset w + n, t_sent := t_sent w @ take n (drop (t_offset w) (t_outbuf w))\<rparr>"
  have "stream ?v = stream w"
    using append_take_drop_id [of n "drop (t_offset w) (t_outbuf w)"] by (simp add: stream_def add.commute)
  with assms show ?thesis by (auto simp: echo_ok_def out_ok_def)
qed

lemma echo_fields [simp]:
  "echo_ok (w\<lparr>t_os := k\<rparr>) = echo_ok w" "echo_ok (w\<lparr>t_ended := b\<rparr>) = echo_ok w" "echo_ok (modify_interest i w) = echo_ok w"
  by (simp_all add: echo_ok_def modify_interest_def)

lemma echo_closed: "echo_ok w \<Longrightarrow> echo_ok (torn_down os w)" "echo_ok w \<Longrightarrow> echo_ok (w\<lparr>t_state := Closed\<rparr>)"
  by (auto simp: echo_ok_def torn_down_def)

lemma echo_cleared: "\<not> buffered w \<Longrightarrow> echo_ok w \<Longrightarrow> echo_ok (w\<lparr>t_outbuf := [], t_offset := 0\<rparr>)"
  by (auto simp: echo_ok_def stream_def out_ok_def buffered_def)

lemma echo_connected: "echo_ok w \<Longrightarrow> t_state w \<noteq> Connecting"
  by (auto simp: echo_ok_def)

interpretation echoing: tcp_effects os "\<lambda>_ _. True" "echo_conn os" "\<lambda>w w'. echoes os \<longrightarrow> echo_ok w \<longrightarrow> echo_ok w'" for os
  by unfold_locales
    (auto simp: echo_received echo_emit echo_closed echo_cleared echoes_def dest: echo_connected intro: echo_sent)

section \<open>Both programs\<close>

inductive echo_end :: "'k os \<Rightarrow> ('k \<Rightarrow> buffer) \<Rightarrow> ('k, 'c) tcp \<Rightarrow> ('k, 'c) tcp \<Rightarrow> bool" for os pend where
  io: "on_io os (echo_conn os) r w = Some w' \<Longrightarrow> echo_end os pend w w'"
| destroy: "echo_end os pend w (tcp_destroy os (echo_conn os) w)"
| kernel: "pend k = pend (t_os w) \<Longrightarrow> echo_end os pend w (w\<lparr>t_os := k\<rparr>)"

lemma echo_end_ok:
  assumes "echo_end os pend w w'" and "echoes os" and "echo_ok w"
  shows "echo_ok w'"
  using assms echoing.R_on_io [of os _ w w'] echoing.R_close_with [of os w]
  by (cases rule: echo_end.cases) (simp_all add: tcp_destroy_def)

lemma writes_keep:
  assumes "network_contract os pend arrive" and "tcp_write os (\<lambda>_ w. w) chunk w = Some (b, w')"
  shows "simulates w w'" "input_of pend w' = input_of pend w"
  using assms(1) sending.R_write [OF assms(2)] receiving.R_write [OF assms(2), of pend] silent_keeps
  by (auto simp: network_contract_def)

lemma echo_keeps:
  assumes "network_contract os pend arrive"
  shows "simulates w (echo_conn os e w)" "input_of pend (echo_conn os e w) = input_of pend w"
  using writes_keep [OF assms, of _ w] by (cases e; auto simp: simulates_same split: option.splits)+

lemma client_keeps:
  assumes "network_contract os pend arrive"
  shows "simulates w (client_listener os e w)" "input_of pend (client_listener os e w) = input_of pend w"
  using writes_keep [OF assms, of _ w]
  by (cases e; auto simp: simulates_same input_of_def received_data_def split: option.splits)+

lemma listeners_good:
  assumes "network_contract os pend arrive"
  shows "keeps_channel (echo_conn os)" "keeps_input pend (echo_conn os)"
    "keeps_channel (client_listener os)" "keeps_input pend (client_listener os)"
  unfolding keeps_channel_def keeps_input_def using echo_keeps [OF assms] client_keeps [OF assms] by blast+

lemma echo_end_good:
  assumes "network_contract os pend arrive"
  shows "good_end pend (echo_end os pend)"
proof -
  have "end_step os pend (echo_conn os) w w'" if "echo_end os pend w w'" for w w'
    using that by (cases rule: echo_end.cases) (auto intro: end_step.intros)
  with ends_good [OF assms listeners_good(1,2) [OF assms]] show ?thesis unfolding good_end_def by blast
qed

definition echo_start :: "('k \<Rightarrow> buffer) \<Rightarrow> ('k, 'c, 'y, 'd, unit) duplex \<Rightarrow> bool" where
  "echo_start pend s \<longleftrightarrow> connected pend s \<and> echo_ok (far s)"

lemma echo_step_ok:
  "duplex_step arrive N (echo_end os pend) s t \<Longrightarrow> echoes os \<Longrightarrow> echo_ok (far s) \<Longrightarrow> echo_ok (far t)"
  by (erule duplex_step.cases) (auto dest: echo_end_ok)

interpretation server_end: invariant "echo_start pend" "duplex_step arrive N (echo_end os pend)" "\<lambda>s. echoes os \<longrightarrow> echo_ok (far s)"
  for pend arrive N os
  by unfold_locales (auto simp: echo_start_def intro: echo_step_ok)

interpretation echo_link: invariant "echo_start pend" "duplex_step arrive N F"
  "\<lambda>s. good_end pend N \<longrightarrow> good_end pend F \<longrightarrow> (\<forall>c k. pend (arrive c k) = pend k @ c) \<longrightarrow> links_ok pend s" for pend arrive N F
  by unfold_locales (auto simp: echo_start_def intro: connected_links links_step)

text \<open>
  C4: The echo comes back. However the client, the server and the network interleave, the client has received a
  prefix of what the server wrote, the server has written a prefix of what it received, and it has received a
  prefix of what the client wrote: the client only ever reads its own bytes, in order. Once nothing is under
  way and the server's end is still open, it has read them all.
\<close>

theorem echo_comes_back:
  assumes "network_contract os pend arrive" and "interrupts_bounded os rank"
    and "reach (echo_start pend) (duplex_step arrive (end_step os pend (client_listener os)) (echo_end os pend)) s"
  shows "prefix (received_data (near s)) (stream (far s)) \<and> prefix (stream (far s)) (received_data (far s))
    \<and> prefix (received_data (far s)) (stream (near s)) \<and> prefix (received_data (near s)) (stream (near s))
    \<and> (to_far s = length (t_sent (near s)) \<and> to_near s = length (t_sent (far s)) \<and> pend (t_os (far s)) = []
       \<and> pend (t_os (near s)) = [] \<and> \<not> buffered (near s) \<and> \<not> buffered (far s) \<and> t_state (far s) = Open
       \<longrightarrow> received_data (near s) = stream (near s))"
proof -
  have "links_ok pend s"
    using echo_link.reach_inv [OF assms(3)] ends_good [OF assms(1) listeners_good(3,4) [OF assms(1)]]
      echo_end_good [OF assms(1)] assms(1) unfolding network_contract_def by blast
  then have l: "link_ok pend (near s) (to_far s) (far s)" "link_ok pend (far s) (to_near s) (near s)"
    by (simp_all add: links_ok_def)
  have e: "echo_ok (far s)"
    using server_end.reach_inv [OF assms(3)] assms(1,2) by (auto simp: echoes_def network_contract_def)
  then have p: "prefix (stream (far s)) (received_data (far s))" by (auto simp: echo_ok_def)
  have "prefix (received_data (near s)) (stream (near s))"
    using link_prefix(1) [OF l(1)] link_prefix(1) [OF l(2)] p by (meson prefix_order.trans)
  with p e link_prefix [OF l(1)] link_prefix [OF l(2)] show ?thesis by (auto simp: echo_ok_def)
qed

section \<open>A run\<close>

definition client_of :: "('k, nat) tcp \<Rightarrow> ('k, nat) echo_client" where
  "client_of w = tcp.extend w (echo_client.fields None False)"

abbreviation readable_now :: ready where
  "readable_now \<equiv> \<lparr>readable = True, writable = False, error = False, hangup = False\<rparr>"

lemmas echo_eval = client_of_def tcp.defs echo_client.defs pipe_eval tcp_eval to_string_def Let_def

text \<open>The client writes three bytes; the echo arrives in two pieces.\<close>

lemma client_sends:
  "tcp_write pipe_os lst [1, 2, 3] (client_of (open_socket [])) = Some (True, (client_of (open_socket []))\<lparr>t_sent := [1, 2, 3]\<rparr>)"
  by (simp add: echo_eval)

lemma server_echoes:
  "on_io pipe_os (echo_conn pipe_os) readable_now ((open_socket [])\<lparr>t_os := [1, 2, 3]\<rparr>) =
     Some ((open_socket [])\<lparr>t_events := [Data [1, 2, 3]], t_sent := [1, 2, 3]\<rparr>)"
  by (simp add: echo_eval)

definition client_after :: "tcp_event list \<Rightarrow> string option \<Rightarrow> bool \<Rightarrow> (buffer, nat) echo_client" where
  "client_after es echoed b = (client_of (open_socket []))\<lparr>t_sent := [1, 2, 3], t_events := es, cl_echoed := echoed, cl_terminated := b\<rparr>"

lemma client_reads:
  "on_io pipe_os (client_listener pipe_os) readable_now ((client_after [] None False)\<lparr>t_os := [1, 2]\<rparr>) =
     Some (client_after [Data [1, 2]] (Some (to_string [1, 2])) False)"
  "on_io pipe_os (client_listener pipe_os) readable_now ((client_after [Data [1, 2]] (Some (to_string [1, 2])) False)\<lparr>t_os := [3]\<rparr>) =
     Some (client_after [Data [1, 2], Data [3]] (Some (to_string [1, 2])) True)"
  by (simp_all add: client_after_def echo_eval)

type_synonym echo_net = "(buffer, nat, unit echo_client_ext, nat, unit) duplex"

abbreviation echo_steps :: "echo_net \<Rightarrow> echo_net \<Rightarrow> bool" where
  "echo_steps \<equiv> duplex_step (\<lambda>b k. k @ b) (end_step pipe_os (\<lambda>k. k) (client_listener pipe_os)) (echo_end pipe_os (\<lambda>k. k))"

definition echo_net :: "(buffer, nat) echo_client \<Rightarrow> (buffer, nat) tcp \<Rightarrow> nat \<Rightarrow> nat \<Rightarrow> echo_net" where
  "echo_net a b m n = \<lparr>near = a, far = b, to_far = m, to_near = n\<rparr>"

lemma net_near: "end_step pipe_os (\<lambda>k. k) (client_listener pipe_os) a a' \<Longrightarrow> echo_steps (echo_net a b m n) (echo_net a' b m n)"
  using duplex_step.near [of _ "echo_net a b m n" a'] by (simp add: echo_net_def)

lemma net_far: "echo_end pipe_os (\<lambda>k. k) b b' \<Longrightarrow> echo_steps (echo_net a b m n) (echo_net a b' m n)"
  using duplex_step.far [of _ "echo_net a b m n" b'] by (simp add: echo_net_def)

lemma net_carry_far:
  "t_os b = [] \<Longrightarrow> echo_steps (echo_net a b m n) (echo_net a (b\<lparr>t_os := carried m i a\<rparr>) (m + length (carried m i a)) n)"
  using duplex_step.carry_far [of "\<lambda>b k. k @ b" "end_step pipe_os (\<lambda>k. k) (client_listener pipe_os)"
      "echo_end pipe_os (\<lambda>k. k)" "echo_net a b m n" i] by (simp add: echo_net_def)

lemma net_carry_near:
  "t_os a = [] \<Longrightarrow> echo_steps (echo_net a b m n) (echo_net (a\<lparr>t_os := carried n i b\<rparr>) b m (n + length (carried n i b)))"
  using duplex_step.carry_near [of "\<lambda>b k. k @ b" "end_step pipe_os (\<lambda>k. k) (client_listener pipe_os)"
      "echo_end pipe_os (\<lambda>k. k)" "echo_net a b m n" i] by (simp add: echo_net_def)

lemma echo_run:
  "echo_steps\<^sup>*\<^sup>* (echo_net (client_of (open_socket [])) (open_socket []) 0 0)
     (echo_net (client_after [Data [1, 2], Data [3]] (Some (to_string [1, 2])) True)
       ((open_socket [])\<lparr>t_events := [Data [1, 2, 3]], t_sent := [1, 2, 3]\<rparr>) 3 3)"
proof -
  let ?o = "open_socket [] :: (buffer, nat) tcp"
  let ?f = "?o\<lparr>t_events := [Data [1, 2, 3]], t_sent := [1, 2, 3]\<rparr>"
  have a: "client_after [] None False = (client_of ?o)\<lparr>t_sent := [1, 2, 3]\<rparr>"
    by (simp add: client_after_def echo_eval)
  have e: "t_os (client_after es c b) = []" for es c b by (simp add: client_after_def echo_eval)
  have "echo_steps (echo_net (client_of ?o) ?o 0 0) (echo_net (client_after [] None False) ?o 0 0)"
    unfolding a by (rule net_near [OF end_step.writing [OF client_sends]])
  moreover have "echo_steps (echo_net (client_after [] None False) ?o 0 0) (echo_net (client_after [] None False) (?o\<lparr>t_os := [1, 2, 3]\<rparr>) 3 0)"
    using net_carry_far [of ?o "client_after [] None False" 0 0 3] by (simp add: carried_def client_after_def tcp_eval numeral_3_eq_3)
  moreover have "echo_steps (echo_net (client_after [] None False) (?o\<lparr>t_os := [1, 2, 3]\<rparr>) 3 0) (echo_net (client_after [] None False) ?f 3 0)"
    by (rule net_far [OF echo_end.io [OF server_echoes]])
  moreover have "echo_steps (echo_net (client_after [] None False) ?f 3 0) (echo_net ((client_after [] None False)\<lparr>t_os := [1, 2]\<rparr>) ?f 3 2)"
    using net_carry_near [OF e, of _ _ _ ?f 3 0 2] by (simp add: carried_def numeral_2_eq_2)
  moreover have "echo_steps (echo_net ((client_after [] None False)\<lparr>t_os := [1, 2]\<rparr>) ?f 3 2)
      (echo_net (client_after [Data [1, 2]] (Some (to_string [1, 2])) False) ?f 3 2)"
    by (rule net_near [OF end_step.io [OF client_reads(1)]])
  moreover have "echo_steps (echo_net (client_after [Data [1, 2]] (Some (to_string [1, 2])) False) ?f 3 2)
      (echo_net ((client_after [Data [1, 2]] (Some (to_string [1, 2])) False)\<lparr>t_os := [3]\<rparr>) ?f 3 3)"
    using net_carry_near [OF e, of _ _ _ ?f 3 2 1] by (simp add: carried_def numeral_2_eq_2 numeral_3_eq_3)
  moreover have "echo_steps (echo_net ((client_after [Data [1, 2]] (Some (to_string [1, 2])) False)\<lparr>t_os := [3]\<rparr>) ?f 3 3)
      (echo_net (client_after [Data [1, 2], Data [3]] (Some (to_string [1, 2])) True) ?f 3 3)"
    by (rule net_near [OF end_step.io [OF client_reads(2)]])
  ultimately show ?thesis by (meson converse_rtranclp_into_rtranclp rtranclp.rtrancl_refl)
qed

lemma echo_net_start: "echo_start (\<lambda>k. k) (echo_net (client_of (open_socket [])) (open_socket []) 0 0)"
  by (simp add: echo_start_def echo_net_def connected_def echo_ok_def out_ok_def stream_def input_of_def received_data_def echo_eval)

lemma echo_reached:
  "reach (echo_start (\<lambda>k. k)) echo_steps (echo_net (client_after [Data [1, 2], Data [3]] (Some (to_string [1, 2])) True)
     ((open_socket [])\<lparr>t_events := [Data [1, 2, 3]], t_sent := [1, 2, 3]\<rparr>) 3 3)"
  by (rule reach_steps [OF echo_run]) (rule reach_init, rule echo_net_start)

text \<open>
  The client's promise can be given a value only once: when the echo arrives in two pieces, the first is taken
  for the whole line and the second ends the process.
\<close>

lemma second_chunk_terminates:
  "\<exists>s. reach (echo_start (\<lambda>k. k)) echo_steps s \<and> stream (near s) = [1, 2, 3]
     \<and> cl_echoed (near s) = Some (to_string [1, 2]) \<and> cl_terminated (near s)"
  by (rule exI, rule conjI, rule echo_reached) (simp add: echo_net_def client_after_def stream_def echo_eval)

theorem echo_comes_back_witness:
  "\<exists>s. reach (echo_start (\<lambda>k. k)) echo_steps s \<and> received_data (near s) = [1, 2, 3]
     \<and> prefix (received_data (near s)) (stream (near s))"
proof -
  have "interrupts_bounded pipe_os (\<lambda>_. 0)" by (simp add: interrupts_bounded_def pipe_os_def EINTR_def)
  note echoed = echo_comes_back [OF pipe_os_contract this echo_reached]
  show ?thesis
    by (rule exI, rule conjI, rule echo_reached, use echoed in \<open>simp add: echo_net_def client_after_def received_data_def\<close>)
qed

end
