(* ===== verification/Backend.thy ===== *)
theory Backend
  imports Tcp_Socket
begin

text \<open>
  The choice of a backend (core/config.hpp) and the facade of the socket operations over it
  (core/socket_ops.hpp, impl/standalone/socket_ops.hpp).
\<close>

section \<open>The configuration header\<close>

text \<open>What a macro is defined as: nothing, a number, or an identifier that is not a macro.\<close>

datatype token = Empty | Number int | Identifier string

text \<open>The value of \<^verbatim>\<open>(M + 0)\<close> in a condition of the preprocessor, where such an identifier counts as 0.\<close>

fun plus_zero :: "token \<Rightarrow> int" where
  "plus_zero Empty = 0"
| "plus_zero (Number n) = n"
| "plus_zero (Identifier s) = 0"

text \<open>
  The two macros, and whether one was defined anew with another replacement without an \<^verbatim>\<open>#undef\<close>, which
  a compiler must diagnose.
\<close>

record macros =
  lnw_posix :: "token option"
  lnw_standalone :: "token option"
  redefined :: bool

definition undef_posix :: "macros \<Rightarrow> macros" where
  "undef_posix m = m\<lparr>lnw_posix := None\<rparr>"

definition undef_standalone :: "macros \<Rightarrow> macros" where
  "undef_standalone m = m\<lparr>lnw_standalone := None\<rparr>"

definition define_posix :: "int \<Rightarrow> macros \<Rightarrow> macros" where
  "define_posix n m = m\<lparr>lnw_posix := Some (Number n), redefined := redefined m \<or> lnw_posix m \<notin> {None, Some (Number n)}\<rparr>"

definition define_standalone :: "int \<Rightarrow> macros \<Rightarrow> macros" where
  "define_standalone n m =
     m\<lparr>lnw_standalone := Some (Number n), redefined := redefined m \<or> lnw_standalone m \<notin> {None, Some (Number n)}\<rparr>"

definition is_set :: "token option \<Rightarrow> bool" where
  "is_set t = (case t of None \<Rightarrow> False | Some v \<Rightarrow> plus_zero v \<noteq> 0)"

text \<open>\<open>unix\<close>: one of \<^verbatim>\<open>__unix__\<close>, \<^verbatim>\<open>__APPLE__\<close> and \<^verbatim>\<open>__linux__\<close> is defined.\<close>

definition config :: "bool \<Rightarrow> macros \<Rightarrow> macros" where
  "config unix m =
     (if is_set (lnw_standalone m) then define_posix 0 (define_standalone 1 (undef_standalone m))
      else if is_set (lnw_posix m) then define_standalone 0 (define_posix 1 (undef_posix m))
      else if unix then define_standalone 0 (define_posix 1 m)
      else define_standalone 1 (define_posix 0 m))"

datatype backend = Posix | Standalone

text \<open>The conditions under which the facades name their backend.\<close>

definition selected :: "macros \<Rightarrow> backend option" where
  "selected m = (if is_set (lnw_posix m) then Some Posix else if is_set (lnw_standalone m) then Some Standalone else None)"

lemmas config_defs = config_def selected_def define_posix_def define_standalone_def undef_posix_def undef_standalone_def is_set_def


text \<open>
  The override documented as \<^verbatim>\<open>-DLNW_NET_BACKEND_STANDALONE=POSIX\<close> counts as no request. Away from Unix the
  standalone backend is then selected, and on Unix a macro is redefined; so it is when both are set.
\<close>

lemma override_posix:
  "selected (config False \<lparr>lnw_posix = None, lnw_standalone = Some (Identifier ''POSIX''), redefined = False\<rparr>) = Some Standalone
   \<and> redefined (config u \<lparr>lnw_posix = None, lnw_standalone = Some (Identifier ''POSIX''), redefined = False\<rparr>)
   \<and> redefined (config u \<lparr>lnw_posix = Some (Number 1), lnw_standalone = Some (Number 1), redefined = False\<rparr>)"
  by (simp add: config_defs)

section \<open>The facade\<close>

text \<open>
  The operations a backend has to provide, over its own descriptors \<open>'d\<close>; the facade's functions are those of
  the backend it names.
\<close>

record ('d, 'k) socket_backend =
  be_open :: "domain \<Rightarrow> transport \<Rightarrow> 'k \<Rightarrow> ('d \<times> nat) \<times> 'k"
  be_set_nonblocking :: "'d \<Rightarrow> 'k \<Rightarrow> nat \<times> 'k"
  be_set_reuse_addr :: "'d \<Rightarrow> 'k \<Rightarrow> nat \<times> 'k"
  be_connect :: "'d \<Rightarrow> socket_address \<Rightarrow> 'k \<Rightarrow> nat \<times> 'k"
  be_bind :: "'d \<Rightarrow> socket_address \<Rightarrow> 'k \<Rightarrow> nat \<times> 'k"
  be_listen :: "'d \<Rightarrow> int \<Rightarrow> 'k \<Rightarrow> nat \<times> 'k"
  be_accept :: "'d \<Rightarrow> 'k \<Rightarrow> ('d \<times> socket_address \<times> nat) \<times> 'k"
  be_send :: "'d \<Rightarrow> byte list \<Rightarrow> 'k \<Rightarrow> transfer \<times> 'k"
  be_recv :: "'d \<Rightarrow> nat \<Rightarrow> 'k \<Rightarrow> byte list \<times> transfer \<times> 'k"
  be_send_to :: "'d \<Rightarrow> byte list \<Rightarrow> socket_address \<Rightarrow> 'k \<Rightarrow> transfer \<times> 'k"
  be_recv_from :: "'d \<Rightarrow> nat \<Rightarrow> 'k \<Rightarrow> byte list \<times> received \<times> 'k"
  be_shutdown :: "'d \<Rightarrow> shut \<Rightarrow> 'k \<Rightarrow> nat \<times> 'k"
  be_local_endpoint :: "'d \<Rightarrow> 'k \<Rightarrow> socket_address \<times> 'k"
  be_pending_error :: "'d \<Rightarrow> 'k \<Rightarrow> nat \<times> 'k"
  be_describe :: "nat \<Rightarrow> string \<Rightarrow> string"

definition posix_backend :: "'k os \<Rightarrow> (descriptor, 'k) socket_backend" where
  "posix_backend os =
     \<lparr>be_open = \<lambda>d t k. (let (r, k) = sock_open os d t k in ((op_handle r, op_error r), k)),
      be_set_nonblocking = set_nonblocking os, be_set_reuse_addr = set_reuse_addr os, be_connect = sock_connect os,
      be_bind = sock_bind os, be_listen = sock_listen os,
      be_accept = \<lambda>s k. (let (r, k) = sock_accept os s k in ((ac_handle r, ac_peer r, ac_error r), k)),
      be_send = sock_send os, be_recv = sock_recv os, be_send_to = send_to os, be_recv_from = recv_from os,
      be_shutdown = sock_shutdown os, be_local_endpoint = local_endpoint os, be_pending_error = pending_error os,
      be_describe = describe os\<rparr>"

text \<open>The standalone functions do nothing and report that they are not supported; \<open>buf\<close> is the caller's untouched buffer.\<close>

definition sa_status :: "nat" where
  "sa_status = sa_unsupported"

definition sa_local_endpoint :: socket_address where
  "sa_local_endpoint = null_address"

definition sa_describe :: "(nat \<Rightarrow> string) \<Rightarrow> nat \<Rightarrow> string \<Rightarrow> string" where
  "sa_describe strerror e pre = pre @ '': '' @ strerror e"

definition standalone_backend :: "(nat \<Rightarrow> string) \<Rightarrow> byte list \<Rightarrow> (sa_descriptor, 'k) socket_backend" where
  "standalone_backend strerror buf =
     \<lparr>be_open = \<lambda>_ _ k. (sa_opened, k),
      be_set_nonblocking = \<lambda>_ k. (sa_status, k), be_set_reuse_addr = \<lambda>_ k. (sa_status, k), be_connect = \<lambda>_ _ k. (sa_status, k),
      be_bind = \<lambda>_ _ k. (sa_status, k), be_listen = \<lambda>_ _ k. (sa_status, k),
      be_accept = \<lambda>_ k. (sa_accepted, k),
      be_send = \<lambda>_ _ k. (sa_transfer, k), be_recv = \<lambda>_ _ k. (buf, sa_transfer, k), be_send_to = \<lambda>_ _ _ k. (sa_transfer, k),
      be_recv_from = \<lambda>_ _ k. (buf, sa_received, k),
      be_shutdown = \<lambda>_ _ k. (sa_status, k), be_local_endpoint = \<lambda>_ k. (sa_local_endpoint, k), be_pending_error = \<lambda>_ k. (sa_status, k),
      be_describe = sa_describe strerror\<rparr>"

text \<open>The standalone handles among the POSIX ones, and a system that supports no call.\<close>

definition of_sa :: "sa_descriptor \<Rightarrow> descriptor" where
  "of_sa d = \<lparr>owned_fd = (if sa_valid d then uint (owned_handle d) else invalid_handle)\<rparr>"

definition refusing_os :: "byte list \<Rightarrow> 'k os \<Rightarrow> 'k os" where
  "refusing_os buf os = os\<lparr>
     os_socket := \<lambda>_ _ k. (-1, sa_unsupported, k), os_getfl := \<lambda>_ k. (-1, sa_unsupported, k),
     os_setfl := \<lambda>_ _ k. (-1, sa_unsupported, k), os_reuse_addr := \<lambda>_ k. (-1, sa_unsupported, k),
     os_connect := \<lambda>_ _ k. (-1, sa_unsupported, k), os_bind := \<lambda>_ _ k. (-1, sa_unsupported, k),
     os_listen := \<lambda>_ _ k. (-1, sa_unsupported, k), os_accept := \<lambda>_ k. (Sockaddr_in 0 [], -1, sa_unsupported, k),
     os_send := \<lambda>_ _ k. (-1, sa_unsupported, k), os_recv := \<lambda>_ _ k. (buf, -1, sa_unsupported, k),
     os_sendto := \<lambda>_ _ _ k. (-1, sa_unsupported, k), os_recvfrom := \<lambda>_ _ k. (buf, Sockaddr_in 0 [], -1, sa_unsupported, k),
     os_shutdown := \<lambda>_ _ k. (-1, sa_unsupported, k), os_getsockname := \<lambda>_ k. (Sockaddr_in 0 [], -1, sa_unsupported, k),
     os_so_error := \<lambda>_ k. (0, -1, sa_unsupported, k)\<rparr>"

lemmas backend_defs = posix_backend_def standalone_backend_def refusing_os_def of_sa_def sa_opened_def sa_accepted_def sa_transfer_def
  sa_received_def sa_status_def sa_unsupported_def sa_local_endpoint_def sa_describe_def sa_valid_def null_descriptor_def

lemmas wrapper_defs = sock_open_def set_nonblocking_def set_reuse_addr_def sock_connect_def sock_bind_def sock_listen_def sock_accept_def
  sock_send_def sock_recv_def send_to_def recv_from_def sock_shutdown_def local_endpoint_def pending_error_def describe_def


text \<open>
  The failure of a standalone build is explicit. A connection attempt to the address its resolver gives emits
  one error that names the call and leaves the socket closed, without a descriptor and unwatched.
\<close>

theorem standalone_connect_fails:
  assumes "t_state w = Idle" and "tcp_inv w"
  shows "t_events (connect_resolved (refusing_os buf os) (\<lambda>_ w. w) (sa_resolve host port) w) =
      t_events w @ [Error_event (''socket: '' @ os_strerror os 38)]
    \<and> t_state (connect_resolved (refusing_os buf os) (\<lambda>_ w. w) (sa_resolve host port) w) = Closed
    \<and> tcp_inv (connect_resolved (refusing_os buf os) (\<lambda>_ w. w) (sa_resolve host port) w)"
proof -
  have "\<not> valid (t_desc w)" using assms by (auto simp: tcp_inv_def)
  with assms show ?thesis
    by (simp add: connect_resolved_def start_connect_def sa_resolve_def Let_def refusing_os_def sa_unsupported_def sock_open_def
        describe_def fail_def tcp_emit_def close_with_eq is_live_def tcp_inv_def)
qed

theorem standalone_connect_fails_witness:
  "t_events (connect_resolved (refusing_os [] (quiet_os letter_inet)) (\<lambda>_ w. w) (sa_resolve ''localhost'' 80)
       (tcp_create (0 :: nat) (make_loop 3) (0 :: nat)))
     = [Error_event (''socket: '' @ os_strerror (quiet_os letter_inet :: nat os) 38)]"
proof -
  let ?w = "tcp_create (0 :: nat) (make_loop 3) (0 :: nat)"
  have "t_state ?w = Idle" "tcp_inv ?w" "t_events ?w = []"
    by (simp_all add: tcp_create_def tcp_inv_def make_loop_def valid_def null_descriptor_def invalid_handle_def)
  with standalone_connect_fails [OF this(1,2), of "[]" "quiet_os letter_inet" "''localhost''" 80] show ?thesis by simp
qed

end
