(* ===== verification/Udp_Peer.thy ===== *)
theory Udp_Peer
  imports Event_Loop Socket_Ops Buffer
begin

text \<open>
  \<^verbatim>\<open>protocol::udp::peer\<close> (protocol/udp/peer.hpp): a datagram socket on the event loop. The state holds
  the peer, the loop it is registered with and the state of the operating system. Emitting an event
  appends it to the history \<open>u_events\<close> and runs the listeners: \<open>lst e\<close> is what all listeners of event
  \<open>e\<close> together do to the state, so they may use the peer again.
\<close>

datatype udp_event =
    Listening
  | Message buffer socket_address
  | Error_event string
  | Closed

text \<open>\<open>u_drain\<close> names the callback that the peer registers with the loop.\<close>

record ('k, 'c) udp =
  u_family :: domain
  u_fd :: descriptor
  u_reading :: bool
  u_local :: socket_address
  u_drain :: 'c
  u_loop :: "'c event_loop"
  u_os :: 'k
  u_events :: "udp_event list"

definition udp_create :: "string \<Rightarrow> 'c \<Rightarrow> 'c event_loop \<Rightarrow> 'k \<Rightarrow> ('k, 'c) udp" where
  "udp_create family cb loop k =
     \<lparr>u_family = (if family = ''udp6'' then Inet6 else Inet), u_fd = null_descriptor, u_reading = False,
      u_local = null_address, u_drain = cb, u_loop = loop, u_os = k, u_events = []\<rparr>"

definition udp_emit ::
  "(udp_event \<Rightarrow> ('k, 'c, 'z) udp_scheme \<Rightarrow> ('k, 'c, 'z) udp_scheme) \<Rightarrow> udp_event \<Rightarrow>
   ('k, 'c, 'z) udp_scheme \<Rightarrow> ('k, 'c, 'z) udp_scheme" where
  "udp_emit lst e w = lst e (w\<lparr>u_events := u_events w @ [e]\<rparr>)"

definition udp_open ::
  "'k os \<Rightarrow> (udp_event \<Rightarrow> ('k, 'c, 'z) udp_scheme \<Rightarrow> ('k, 'c, 'z) udp_scheme) \<Rightarrow>
   ('k, 'c, 'z) udp_scheme \<Rightarrow> bool \<times> ('k, 'c, 'z) udp_scheme" where
  "udp_open os lst w =
     (if valid (u_fd w) then (True, w)
      else let (opened, k) = sock_open os (u_family w) Datagram (u_os w); w = w\<lparr>u_os := k\<rparr> in
        if op_error opened \<noteq> 0 then
          (False, udp_emit lst (Error_event (describe os (op_error opened) ''socket'')) w)
        else let w = w\<lparr>u_fd := op_handle opened\<rparr>;
                 (e, k) = set_nonblocking os (u_fd w) (u_os w); w = w\<lparr>u_os := k\<rparr> in
          if e \<noteq> 0 then
            let w = udp_emit lst (Error_event (describe os e ''socket'')) w;
                (d, k) = close_descriptor os (u_fd w) (u_os w)
            in (False, w\<lparr>u_fd := d, u_os := k\<rparr>)
          else let (_, k) = set_reuse_addr os (u_fd w) (u_os w) in (True, w\<lparr>u_os := k\<rparr>))"

definition read_back_local :: "'k os \<Rightarrow> ('k, 'c, 'z) udp_scheme \<Rightarrow> ('k, 'c, 'z) udp_scheme" where
  "read_back_local os w = (let (a, k) = local_endpoint os (u_fd w) (u_os w) in w\<lparr>u_local := a, u_os := k\<rparr>)"

definition begin_reading :: "('k, 'c, 'z) udp_scheme \<Rightarrow> ('k, 'c, 'z) udp_scheme" where
  "begin_reading w =
     (if u_reading w then w
      else w\<lparr>u_reading := True, u_loop := watch (native (u_fd w)) interest_read (u_drain w) (u_loop w)\<rparr>)"

definition udp_bind ::
  "'k os \<Rightarrow> (udp_event \<Rightarrow> ('k, 'c, 'z) udp_scheme \<Rightarrow> ('k, 'c, 'z) udp_scheme) \<Rightarrow> u16 \<Rightarrow> string \<Rightarrow>
   ('k, 'c, 'z) udp_scheme \<Rightarrow> ('k, 'c, 'z) udp_scheme" where
  "udp_bind os lst port address w =
     (let address = (if u_family w = Inet6 \<and> address = ''0.0.0.0'' then ''::'' else address);
          (ok, w) = udp_open os lst w in
      if \<not> ok then w
      else let a = \<lparr>sa_address = address, sa_port = port,
                     sa_family = (if u_family w = Inet6 then AF_INET6 else AF_INET)\<rparr>;
               (e, k) = sock_bind os (u_fd w) a (u_os w); w = w\<lparr>u_os := k\<rparr> in
        if e \<noteq> 0 then udp_emit lst (Error_event (describe os e ''bind'')) w
        else udp_emit lst Listening (begin_reading (read_back_local os w)))"

definition udp_send ::
  "'k os \<Rightarrow> (udp_event \<Rightarrow> ('k, 'c, 'z) udp_scheme \<Rightarrow> ('k, 'c, 'z) udp_scheme) \<Rightarrow> byte list \<Rightarrow> u16 \<Rightarrow> string \<Rightarrow>
   ('k, 'c, 'z) udp_scheme \<Rightarrow> bool \<times> ('k, 'c, 'z) udp_scheme" where
  "udp_send os lst datagram port host w =
     (let (ok, w) = udp_open os lst w in
      if \<not> ok then (False, w)
      else case resolve_one os host port True of
        None \<Rightarrow> (False, udp_emit lst (Error_event (''ENOTFOUND: '' @ host)) w)
      | Some dest \<Rightarrow>
          let (n, k) = send_to os (u_fd w) datagram dest (u_os w); w = w\<lparr>u_os := k\<rparr> in
          if tr_error n \<noteq> 0 then (False, udp_emit lst (Error_event (describe os (tr_error n) ''sendto'')) w)
          else if \<not> u_reading w then (True, begin_reading (read_back_local os w))
          else (True, w))"

definition udp_close ::
  "'k os \<Rightarrow> (udp_event \<Rightarrow> ('k, 'c, 'z) udp_scheme \<Rightarrow> ('k, 'c, 'z) udp_scheme) \<Rightarrow>
   ('k, 'c, 'z) udp_scheme \<Rightarrow> ('k, 'c, 'z) udp_scheme" where
  "udp_close os lst w =
     (if \<not> valid (u_fd w) then w
      else let w = w\<lparr>u_loop := unwatch (native (u_fd w)) (u_loop w)\<rparr>;
               (d, k) = close_descriptor os (u_fd w) (u_os w);
               w = w\<lparr>u_fd := d, u_os := k, u_reading := False\<rparr>
           in udp_emit lst Closed w)"

definition udp_destroy :: "'k os \<Rightarrow> ('k, 'c, 'z) udp_scheme \<Rightarrow> ('k, 'c, 'z) udp_scheme" where
  "udp_destroy os w = (let (d, k) = close_descriptor os (u_fd w) (u_os w) in w\<lparr>u_fd := d, u_os := k\<rparr>)"

text \<open>The receive loop returns \<open>None\<close> if it never ends.\<close>

partial_function (option) udp_drain ::
  "'k os \<Rightarrow> (udp_event \<Rightarrow> ('k, 'c, 'z) udp_scheme \<Rightarrow> ('k, 'c, 'z) udp_scheme) \<Rightarrow>
   ('k, 'c, 'z) udp_scheme \<Rightarrow> ('k, 'c, 'z) udp_scheme option" where
  "udp_drain os lst w =
     (let (buf, got, k) = recv_from os (u_fd w) 65536 (u_os w); w = w\<lparr>u_os := k\<rparr> in
      if rc_count got \<ge> 0 \<and> rc_error got = 0 then
        udp_drain os lst (udp_emit lst (Message (copy_buffer (take (nat (rc_count got)) buf)) (rc_from got)) w)
      else if would_block (rc_error got) then Some w
      else if rc_error got = EINTR then udp_drain os lst w
      else Some (udp_emit lst (Error_event (describe os (rc_error got) ''recvfrom'')) w))"

section \<open>Registration with the loop\<close>

text \<open>
  The peer's loop watches its descriptor while it reads, and nothing otherwise; it reads only with an
  open descriptor.
\<close>

definition udp_inv :: "('k, 'c, 'z) udp_scheme \<Rightarrow> bool" where
  "udp_inv w \<longleftrightarrow> (u_reading w \<longrightarrow> valid (u_fd w))
     \<and> fst ` set (watches (u_loop w)) = (if u_reading w then {native (u_fd w)} else {})"

text \<open>
  Listeners may use the peer in any way that keeps this, except that an error listener does not make
  it start reading: \<^verbatim>\<open>open_socket\<close> closes the descriptor after it has emitted the error.
\<close>

definition listeners_keep :: "(udp_event \<Rightarrow> ('k, 'c, 'z) udp_scheme \<Rightarrow> ('k, 'c, 'z) udp_scheme) \<Rightarrow> bool" where
  "listeners_keep lst \<longleftrightarrow> (\<forall>e w. udp_inv w \<longrightarrow> udp_inv (lst e w))
     \<and> (\<forall>m w. \<not> u_reading w \<longrightarrow> \<not> u_reading (lst (Error_event m) w))"

lemma udp_inv_fields [simp]:
  "udp_inv (w\<lparr>u_events := es\<rparr>) = udp_inv w" "udp_inv (w\<lparr>u_os := k\<rparr>) = udp_inv w"
  "udp_inv (w\<lparr>u_local := a\<rparr>) = udp_inv w"
  by (simp_all add: udp_inv_def)

lemma emit_inv: "listeners_keep lst \<Longrightarrow> udp_inv w \<Longrightarrow> udp_inv (udp_emit lst e w)"
  by (simp add: listeners_keep_def udp_emit_def)

lemma reading_inv: "udp_inv w \<Longrightarrow> valid (u_fd w) \<Longrightarrow> udp_inv (begin_reading w)"
  by (auto simp: udp_inv_def begin_reading_def watch_keys)

lemma read_back_inv [simp]:
  "udp_inv (read_back_local os w) = udp_inv w" "u_fd (read_back_local os w) = u_fd w"
  "u_reading (read_back_local os w) = u_reading w"
  by (simp_all add: read_back_local_def split: prod.splits)

lemma fd_inv: "udp_inv w \<Longrightarrow> \<not> u_reading w \<Longrightarrow> udp_inv (w\<lparr>u_fd := d\<rparr>)"
  by (simp add: udp_inv_def)

lemma open_inv:
  assumes "listeners_keep lst" and "udp_inv w" and "udp_open os lst w = (ok, w')" and "os_contract os"
  shows "udp_inv w' \<and> (ok \<longrightarrow> valid (u_fd w'))"
proof (cases "valid (u_fd w)")
  case True
  with assms show ?thesis by (simp add: udp_open_def)
next
  case False
  with assms(2) have idle: "\<not> u_reading w" by (auto simp: udp_inv_def)
  have stays: "\<not> u_reading (udp_emit lst (Error_event m) v)" if "\<not> u_reading v" for m v
    using assms(1) that by (simp add: listeners_keep_def udp_emit_def)
  show ?thesis
    using assms(3) False idle assms(2) sock_open_handle [OF assms(4)]
    by (auto simp: udp_open_def Let_def split: prod.splits if_splits
        intro!: emit_inv [OF assms(1)] fd_inv stays)
qed

lemma bind_inv:
  assumes "listeners_keep lst" and "udp_inv w" and "os_contract os"
  shows "udp_inv (udp_bind os lst port address w)"
  using open_inv [OF assms(1,2) _ assms(3)]
  by (auto simp: udp_bind_def Let_def split: prod.splits
      intro!: emit_inv [OF assms(1)] reading_inv)

lemma send_inv:
  assumes "listeners_keep lst" and "udp_inv w" and "os_contract os"
  shows "udp_inv (snd (udp_send os lst datagram port host w))"
  using open_inv [OF assms(1,2) _ assms(3)]
  by (auto simp: udp_send_def Let_def split: prod.splits option.splits
      intro!: emit_inv [OF assms(1)] reading_inv)

lemma closed_inv: "udp_inv w \<Longrightarrow>
  udp_inv (w\<lparr>u_loop := unwatch (native (u_fd w)) (u_loop w), u_fd := d, u_os := k, u_reading := False\<rparr>)"
  by (auto simp: udp_inv_def watch_keys split: if_splits)

lemma close_inv:
  assumes "listeners_keep lst" and "udp_inv w"
  shows "udp_inv (udp_close os lst w)"
  using assms(2) closed_inv [OF assms(2)]
  by (auto simp: udp_close_def Let_def split: prod.splits intro!: emit_inv [OF assms(1)])

lemmas udp_drain_induct = udp_drain.raw_induct [rotated, consumes 1, case_names step]

lemma drain_inv:
  "udp_drain os lst w = Some w' \<Longrightarrow> listeners_keep lst \<Longrightarrow> udp_inv w \<Longrightarrow> udp_inv w'"
proof (induction os lst w w' rule: udp_drain_induct)
  case (step drain os lst w w')
  then show ?case
    using emit_inv [of lst "w\<lparr>u_os := _\<rparr>"]
    by (auto simp: Let_def split: prod.splits if_splits intro: step.IH)
qed

text \<open>
  C23: A peer is registered with its loop exactly while it reads, under its own descriptor and only
  while that is open, whatever it binds, sends, receives and closes and whatever its listeners do
  with it, errors of every call included.
\<close>

theorem udp_registration:
  assumes "os_contract os" and "listeners_keep lst" and "udp_inv w"
  shows "udp_inv (udp_bind os lst port address w)
    \<and> udp_inv (snd (udp_send os lst datagram port' host w))
    \<and> udp_inv (udp_close os lst w)
    \<and> (\<forall>w'. udp_drain os lst w = Some w' \<longrightarrow> udp_inv w')"
  using bind_inv [OF assms(2,3,1)] send_inv [OF assms(2,3,1)] close_inv [OF assms(2,3)]
    drain_inv [OF _ assms(2,3)] by blast

text \<open>A peer that closes itself when it is bound.\<close>

definition closing_listeners :: "unit os \<Rightarrow> udp_event \<Rightarrow> (unit, nat) udp \<Rightarrow> (unit, nat) udp" where
  "closing_listeners os e w = (if e = Listening then udp_close os (\<lambda>_ w. w) w else w)"

lemma closing_listeners_keep: "listeners_keep (closing_listeners os)"
proof -
  have "listeners_keep (\<lambda>_ (w :: (unit, nat) udp). w)" by (simp add: listeners_keep_def)
  from close_inv [OF this, of _ os] show ?thesis
    by (auto simp: listeners_keep_def closing_listeners_def)
qed

definition fresh_peer :: "(unit, nat) udp" where
  "fresh_peer = udp_create ''udp4'' 0 (make_loop 3) ()"

theorem udp_registration_witness:
  "udp_inv (udp_bind (quiet_os letter_inet) (closing_listeners (quiet_os letter_inet)) 53 ''0.0.0.0'' fresh_peer)"
proof -
  have "udp_inv fresh_peer"
    by (simp add: udp_inv_def fresh_peer_def udp_create_def make_loop_def)
  from udp_registration [OF quiet_os_contract closing_listeners_keep this] show ?thesis by blast
qed

section \<open>Delivery\<close>

text \<open>
  The documented behaviour of a datagram socket: \<^verbatim>\<open>recvfrom\<close> takes the datagrams queued for it in
  order, each with its sender, and would block when there are none. \<open>queue\<close> reads the queue of
  descriptor \<open>d\<close> off the state of the system; every datagram fits the receive buffer.
\<close>

definition datagram_queue :: "'k os \<Rightarrow> int \<Rightarrow> ('k \<Rightarrow> (byte list \<times> sockaddr) list) \<Rightarrow> bool" where
  "datagram_queue os d queue \<longleftrightarrow> (\<forall>k. case queue k of
       [] \<Rightarrow> (\<exists>buf a k'. os_recvfrom os d 65536 k = (buf, a, -1, EAGAIN, k') \<and> queue k' = [])
     | (b, a) # rest \<Rightarrow> (\<exists>k'. os_recvfrom os d 65536 k = (b, a, int (length b), 0, k') \<and> queue k' = rest))"

text \<open>Listeners that neither close the peer nor take from its queue; they may send.\<close>

definition listeners_leave ::
  "('k \<Rightarrow> (byte list \<times> sockaddr) list) \<Rightarrow> (udp_event \<Rightarrow> ('k, 'c, 'z) udp_scheme \<Rightarrow> ('k, 'c, 'z) udp_scheme) \<Rightarrow> bool" where
  "listeners_leave queue lst \<longleftrightarrow> (\<forall>e w. u_fd (lst e w) = u_fd w \<and> queue (u_os (lst e w)) = queue (u_os w)
     \<and> u_events (lst e w) = u_events w)"

lemma drain_delivers:
  assumes "datagram_queue os d queue" and "listeners_leave queue lst"
    and "native (u_fd w) = d" and "queue (u_os w) = q"
  shows "\<exists>w'. udp_drain os lst w = Some w' \<and> queue (u_os w') = []
    \<and> u_events w' = u_events w @ map (\<lambda>(b, a). Message b (from_sockaddr (os_inet os) a)) q"
  using assms(3,4)
proof (induction q arbitrary: w)
  case Nil
  then obtain buf a k where "os_recvfrom os d 65536 (u_os w) = (buf, a, -1, EAGAIN, k)" "queue k = []"
    using spec [OF assms(1) [unfolded datagram_queue_def], of "u_os w"] by auto
  with Nil show ?case
    by (subst udp_drain.simps) (simp add: recv_from_def would_block_def EAGAIN_def)
next
  case (Cons x q)
  obtain b a where x: "x = (b, a)" by (cases x)
  with Cons.prems obtain k where k: "os_recvfrom os d 65536 (u_os w) = (b, a, int (length b), 0, k)" "queue k = q"
    using spec [OF assms(1) [unfolded datagram_queue_def], of "u_os w"] by auto
  let ?m = "Message b (from_sockaddr (os_inet os) a)"
  let ?w = "udp_emit lst ?m (w\<lparr>u_os := k\<rparr>)"
  have "native (u_fd ?w) = d" "queue (u_os ?w) = q" "u_events ?w = u_events w @ [?m]"
    using assms(2) Cons.prems k(2) by (simp_all add: listeners_leave_def udp_emit_def)
  with Cons.IH [of ?w] obtain w' where "udp_drain os lst ?w = Some w'" "queue (u_os w') = []"
    "u_events w' = u_events w @ ?m # map (\<lambda>(b, a). Message b (from_sockaddr (os_inet os) a)) q"
    by auto
  moreover have "udp_drain os lst w = udp_drain os lst ?w"
    using k(1) Cons.prems by (subst udp_drain.simps) (simp add: recv_from_def copy_buffer_def)
  ultimately show ?case by (simp add: x)
qed

text \<open>
  C24: When the descriptor becomes readable the peer delivers every datagram queued, once each, in
  order, whole and with its sender, and then returns; nothing is left in the queue.
\<close>

theorem udp_delivery:
  assumes "datagram_queue os d queue" and "listeners_leave queue lst" and "native (u_fd w) = d"
  shows "\<exists>w'. udp_drain os lst w = Some w' \<and> queue (u_os w') = []
    \<and> u_events w' = u_events w @ map (\<lambda>(b, a). Message b (from_sockaddr (os_inet os) a)) (queue (u_os w))"
  using drain_delivers [OF assms refl] .

text \<open>A system whose state is the queue of datagrams of its only socket.\<close>

definition queue_os :: "(byte list \<times> sockaddr) list os" where
  "queue_os = (quiet_os letter_inet)\<lparr>os_recvfrom := \<lambda>_ _ k. case k of
       [] \<Rightarrow> ([], Sockaddr_in 0 [], -1, EAGAIN, [])
     | (b, a) # rest \<Rightarrow> (b, a, int (length b), 0, rest)\<rparr>"

lemma queue_os_queue: "datagram_queue queue_os d (\<lambda>k. k)"
  by (auto simp: datagram_queue_def queue_os_def split: list.splits)

theorem udp_delivery_witness:
  "\<exists>w'. udp_drain queue_os (\<lambda>_ w. w)
      \<lparr>u_family = Inet, u_fd = \<lparr>owned_fd = 7\<rparr>, u_reading = True, u_local = null_address, u_drain = 0 :: nat,
       u_loop = make_loop 3, u_os = [([1, 2], Sockaddr_in 53 [127, 0, 0, 1])], u_events = []\<rparr> = Some w'
    \<and> u_events w' = [Message [1, 2] (from_sockaddr letter_inet (Sockaddr_in 53 [127, 0, 0, 1]))]"
  using udp_delivery [OF queue_os_queue, where d = 7 and lst = "\<lambda>_ w. w" and w = "\<lparr>u_family = Inet, u_fd = \<lparr>owned_fd = 7\<rparr>, u_reading = True,
      u_local = null_address, u_drain = 0 :: nat, u_loop = make_loop 3,
      u_os = [([1, 2], Sockaddr_in 53 [127, 0, 0, 1])], u_events = []\<rparr>"]
  by (auto simp: listeners_leave_def native_def queue_os_def quiet_os_def)

section \<open>What users of a peer keep\<close>

text \<open>
  A property of a state built on a peer that does not depend on the peer's own fields, nor on anything
  of the loop but its timers, is kept by the peer's operations if the listeners keep it.
\<close>

definition peer_frame :: "(('k, 'c, 'z) udp_scheme \<Rightarrow> bool) \<Rightarrow> bool" where
  "peer_frame P \<longleftrightarrow> (\<forall>w d k r a es. P (w\<lparr>u_fd := d\<rparr>) = P w \<and> P (w\<lparr>u_os := k\<rparr>) = P w \<and> P (w\<lparr>u_reading := r\<rparr>) = P w
       \<and> P (w\<lparr>u_local := a\<rparr>) = P w \<and> P (w\<lparr>u_events := es\<rparr>) = P w)
     \<and> (\<forall>w l. timers l = timers (u_loop w) \<and> next_timer_id l = next_timer_id (u_loop w) \<longrightarrow> P (w\<lparr>u_loop := l\<rparr>) = P w)"

lemma frame_fields:
  assumes "peer_frame P"
  shows "P (w\<lparr>u_fd := d\<rparr>) = P w" "P (w\<lparr>u_os := k\<rparr>) = P w" "P (w\<lparr>u_reading := r\<rparr>) = P w"
    "P (w\<lparr>u_local := a\<rparr>) = P w" "P (w\<lparr>u_events := es\<rparr>) = P w"
    "timers l = timers (u_loop w) \<Longrightarrow> next_timer_id l = next_timer_id (u_loop w) \<Longrightarrow> P (w\<lparr>u_loop := l\<rparr>) = P w"
  using assms by (simp_all add: peer_frame_def)

lemma emit_frame: "peer_frame P \<Longrightarrow> (\<And>e w. P w \<Longrightarrow> P (lst e w)) \<Longrightarrow> P w \<Longrightarrow> P (udp_emit lst e w)"
  by (simp add: udp_emit_def frame_fields)

lemma open_frame:
  assumes "peer_frame P" and "\<And>e w. P w \<Longrightarrow> P (lst e w)" and "P w" and "udp_open os lst w = (ok, w')"
  shows "P w'"
  using assms(3,4) emit_frame [OF assms(1,2)]
  by (auto simp: udp_open_def Let_def frame_fields [OF assms(1)] split: prod.splits if_splits)

lemma reading_frame: "peer_frame P \<Longrightarrow> P (begin_reading (read_back_local os w)) = P w"
  by (simp add: begin_reading_def read_back_local_def frame_fields split: prod.splits)

lemma send_frame:
  assumes "peer_frame P" and "\<And>e w. P w \<Longrightarrow> P (lst e w)" and "P w"
  shows "P (snd (udp_send os lst datagram port host w))"
  using open_frame [OF assms(1,2,3)] emit_frame [OF assms(1,2)]
  by (auto simp: udp_send_def Let_def frame_fields [OF assms(1)] reading_frame [OF assms(1)]
      split: prod.splits option.splits)

lemma drain_frame:
  "udp_drain os lst w = Some w' \<Longrightarrow> peer_frame P \<Longrightarrow> \<forall>e w. P w \<longrightarrow> P (lst e w) \<Longrightarrow> P w \<Longrightarrow> P w'"
proof (induction os lst w w' rule: udp_drain_induct)
  case (step drain os lst w w')
  obtain buf got k where r: "recv_from os (u_fd w) 65536 (u_os w) = (buf, got, k)" by (metis surj_pair)
  have w: "P (w\<lparr>u_os := k\<rparr>)" using step(3,5) by (simp add: frame_fields)
  then have e: "P (udp_emit lst e (w\<lparr>u_os := k\<rparr>))" for e
    using step(4) by (intro emit_frame [OF step(3)]) auto
  show ?case
    using step(2) r w e step(1) [OF _ step(3,4)] by (auto simp: Let_def split: if_splits)
qed

text \<open>
  A network that takes every datagram given to \<^verbatim>\<open>sendto\<close>: \<open>sent\<close> reads the datagrams taken so far from
  the state of the system.
\<close>

definition records_sends :: "'k os \<Rightarrow> ('k \<Rightarrow> (byte list \<times> sockaddr) list) \<Rightarrow> bool" where
  "records_sends os sent \<longleftrightarrow>
     (\<forall>d b a k. \<exists>k'. os_sendto os d b a k = (int (length b), 0, k') \<and> sent k' = sent k @ [(b, a)])
     \<and> (\<forall>d k a r e k'. os_getsockname os d k = (a, r, e, k') \<longrightarrow> sent k' = sent k)"

lemma records_sendsD:
  assumes "records_sends os sent"
  shows "\<exists>k'. os_sendto os d b a k = (int (length b), 0, k') \<and> sent k' = sent k @ [(b, a)]"
    and "os_getsockname os d k = (a, r, e, k') \<Longrightarrow> sent k' = sent k"
  using assms unfolding records_sends_def by (blast, metis)

lemma read_back_fields:
  assumes "records_sends os sent"
  shows "sent (u_os (begin_reading (read_back_local os w))) = sent (u_os w)"
    and "udp.more (begin_reading (read_back_local os w)) = udp.more w"
    and "timers (u_loop (begin_reading (read_back_local os w))) = timers (u_loop w)"
    and "u_fd (begin_reading (read_back_local os w)) = u_fd w"
  using records_sendsD(2) [OF assms]
  by (auto simp: begin_reading_def read_back_local_def local_endpoint_def split: prod.splits if_splits)

lemma send_taken:
  assumes "records_sends os sent" and "valid (u_fd w)" and "resolve_one os host port True = Some dest"
  shows "\<exists>w'. udp_send os lst datagram port host w = (True, w') \<and> udp.more w' = udp.more w \<and> u_fd w' = u_fd w
    \<and> timers (u_loop w') = timers (u_loop w)
    \<and> sent (u_os w') = sent (u_os w) @ [(datagram, to_sockaddr (os_inet os) dest)]"
proof -
  obtain k where k: "os_sendto os (native (u_fd w)) datagram (to_sockaddr (os_inet os) dest) (u_os w)
      = (int (length datagram), 0, k)" "sent k = sent (u_os w) @ [(datagram, to_sockaddr (os_inet os) dest)]"
    using records_sendsD(1) [OF assms(1)] by blast
  with assms(2,3) read_back_fields [OF assms(1), where w = "w\<lparr>u_os := k\<rparr>"] show ?thesis
    by (simp add: udp_send_def udp_open_def send_to_def Let_def)
qed

text \<open>A system whose state is the list of datagrams sent.\<close>

definition mail_os :: "(byte list \<times> sockaddr) list os" where
  "mail_os = (quiet_os letter_inet)\<lparr>os_sendto := \<lambda>_ b a k. (int (length b), 0, k @ [(b, a)])\<rparr>"

lemma mail_os_records: "records_sends mail_os (\<lambda>k. k)"
  by (simp add: records_sends_def mail_os_def quiet_os_def)

lemma mail_os_resolves:
  "resolve_one mail_os host port True = Some (from_sockaddr letter_inet (Sockaddr_in 0 [127, 0, 0, 1]))"
  by (simp add: resolve_one_def resolve_def mail_os_def quiet_os_def)

section \<open>Where the peer departs from its description\<close>

text \<open>Listeners that close the peer on the first message; the system knows no descriptor -1.\<close>

definition EBADF :: nat where "EBADF = 9"

definition one_message_os :: "(byte list \<times> sockaddr) list os" where
  "one_message_os = queue_os\<lparr>os_recvfrom := \<lambda>d n k.
     if d < 0 then ([], Sockaddr_in 0 [], -1, EBADF, k) else os_recvfrom queue_os d n k\<rparr>"

text \<open>
  A peer closed by its message listener emits an error after its close event: the receive loop goes
  on with the descriptor closed.
\<close>

lemma error_after_close:
  "\<exists>w'. udp_drain one_message_os (\<lambda>e w. case e of Message _ _ \<Rightarrow> udp_close one_message_os (\<lambda>_ w. w) w | _ \<Rightarrow> w)
      \<lparr>u_family = Inet, u_fd = \<lparr>owned_fd = 7\<rparr>, u_reading = True, u_local = null_address, u_drain = 0 :: nat,
       u_loop = make_loop 3, u_os = [([1], Sockaddr_in 53 [127, 0, 0, 1])], u_events = []\<rparr> = Some w'
    \<and> (\<exists>m. u_events w' = [m, Closed, Error_event ''recvfrom: error''])"
  by (subst udp_drain.simps, subst udp_drain.simps)
    (simp add: one_message_os_def queue_os_def quiet_os_def recv_from_def native_def udp_emit_def udp_close_def
      valid_def close_descriptor_def reset_def invalid_handle_def would_block_def EBADF_def EAGAIN_def
      EWOULDBLOCK_def EINTR_def describe_def)

text \<open>The destructor closes the descriptor but leaves its watch, and the poller waiting for it.\<close>

lemma peer_destructor_leaves_watch:
  assumes "udp_inv w" and "u_reading w"
  shows "\<not> valid (u_fd (udp_destroy os w)) \<and> native (u_fd w) \<in> fst ` set (watches (u_loop (udp_destroy os w)))"
  using assms by (auto simp: udp_destroy_def udp_inv_def close_descriptor_def reset_def valid_def
      invalid_handle_def split: prod.splits)

end
