(* ===== verification/Wire_Reader.thy ===== *)
theory Wire_Reader
  imports Prelude
begin

text \<open>
  \<^verbatim>\<open>dns::wire::reader\<close> (protocol/dns/wire/reader.hpp): a cursor over a span of bytes. Each
  read returns its optional result together with the moved reader; the outcome is undefined
  behaviour where the source would index the span out of range. The name decoder follows
  compression pointers under the source's iteration cap \<open>safety\<close>.

  The reference for the decoder is the inductive relation \<open>name_at\<close>: it has one rule per kind
  of octet of RFC 1035 and no iteration cap. The decoder computes exactly that relation: the
  cap rejects pointer loops and never a name that has a decoding.
\<close>

record reader =
  rd_buffer :: "byte list"
  rd_position :: nat

definition make_reader :: "byte list \<Rightarrow> reader" where
  "make_reader buffer = \<lparr>rd_buffer = buffer, rd_position = 0\<rparr>"

definition remaining :: "reader \<Rightarrow> nat" where
  "remaining r = size_sub (length (rd_buffer r)) (rd_position r)"

definition at_end :: "reader \<Rightarrow> bool" where
  "at_end r \<longleftrightarrow> length (rd_buffer r) \<le> rd_position r"

definition seek :: "nat \<Rightarrow> reader \<Rightarrow> reader" where
  "seek p r = r\<lparr>rd_position := p\<rparr>"

definition read_u8 :: "reader \<Rightarrow> (byte option \<times> reader) exec" where
  "read_u8 r =
     (if remaining r < 1 then Done (None, r)
      else bind_exec (at_span (rd_buffer r) (rd_position r))
        (\<lambda>b. Done (Some b, r\<lparr>rd_position := rd_position r + 1\<rparr>)))"

definition join_u16 :: "byte \<Rightarrow> byte \<Rightarrow> u16" where
  "join_u16 hi lo = push_bit 8 (ucast hi) OR ucast lo"

definition read_u16 :: "reader \<Rightarrow> (u16 option \<times> reader) exec" where
  "read_u16 r =
     (if remaining r < 2 then Done (None, r)
      else bind_exec (at_span (rd_buffer r) (rd_position r)) (\<lambda>hi.
           bind_exec (at_span (rd_buffer r) (rd_position r + 1)) (\<lambda>lo.
             Done (Some (join_u16 hi lo), r\<lparr>rd_position := rd_position r + 2\<rparr>))))"

fun read_u32_loop :: "byte list \<Rightarrow> nat \<Rightarrow> nat \<Rightarrow> u32 \<Rightarrow> u32 exec" where
  "read_u32_loop buf p 0 value = Done value"
| "read_u32_loop buf p (Suc left) value =
     bind_exec (at_span buf p)
       (\<lambda>b. read_u32_loop buf (p + 1) left (push_bit 8 value OR ucast b))"

definition read_u32 :: "reader \<Rightarrow> (u32 option \<times> reader) exec" where
  "read_u32 r =
     (if remaining r < 4 then Done (None, r)
      else bind_exec (read_u32_loop (rd_buffer r) (rd_position r) 4 0)
        (\<lambda>v. Done (Some v, r\<lparr>rd_position := rd_position r + 4\<rparr>)))"

definition subspan :: "'a list \<Rightarrow> nat \<Rightarrow> nat \<Rightarrow> 'a list exec" where
  "subspan xs offset count =
     (if offset + count \<le> length xs then Done (take count (drop offset xs)) else UB)"

definition read_bytes :: "nat \<Rightarrow> reader \<Rightarrow> (byte list option \<times> reader) exec" where
  "read_bytes count r =
     (if remaining r < count then Done (None, r)
      else bind_exec (subspan (rd_buffer r) (rd_position r) count)
        (\<lambda>slice. Done (Some slice, r\<lparr>rd_position := rd_position r + count\<rparr>)))"

fun push_label :: "byte list \<Rightarrow> nat \<Rightarrow> nat \<Rightarrow> string \<Rightarrow> string exec" where
  "push_label buf i 0 name = Done name"
| "push_label buf i (Suc left) name =
     bind_exec (at_span buf i) (\<lambda>b. push_label buf (i + 1) left (name @ [char_of_byte b]))"

definition is_pointer :: "byte \<Rightarrow> bool" where
  "is_pointer b \<longleftrightarrow> b AND 0xC0 = 0xC0"

definition is_reserved :: "byte \<Rightarrow> bool" where
  "is_reserved b \<longleftrightarrow> \<not> is_pointer b \<and> b AND 0xC0 \<noteq> 0"

definition pointer_target :: "byte \<Rightarrow> byte \<Rightarrow> nat" where
  "pointer_target hi lo = unat (push_bit 8 (ucast (hi AND 0x3F) :: u64) OR ucast lo)"

fun read_name_loop ::
  "byte list \<Rightarrow> nat \<Rightarrow> nat \<Rightarrow> bool \<Rightarrow> nat \<Rightarrow> string \<Rightarrow> (string option \<times> nat) exec" where
  "read_name_loop buf 0 cursor jumped position name = Done (None, position)"
| "read_name_loop buf (Suc safety) cursor jumped position name =
     (if length buf \<le> cursor then Done (None, position)
      else bind_exec (at_span buf cursor) (\<lambda>len.
        if is_pointer len then
          (if length buf \<le> cursor + 1 then Done (None, position)
           else bind_exec (at_span buf (cursor + 1)) (\<lambda>low.
             read_name_loop buf safety (pointer_target len low) True
               (if jumped then position else cursor + 2) name))
        else if is_reserved len then Done (None, position)
        else if len = 0 then Done (Some name, if jumped then position else cursor + 1)
        else if length buf < cursor + 1 + unat len then Done (None, position)
        else bind_exec
          (push_label buf (cursor + 1) (unat len) (if name \<noteq> [] then name @ ''.'' else name))
          (\<lambda>name'. read_name_loop buf safety (cursor + 1 + unat len) jumped position name')))"

definition read_name :: "reader \<Rightarrow> (string option \<times> reader) exec" where
  "read_name r =
     bind_exec
       (read_name_loop (rd_buffer r) (length (rd_buffer r)) (rd_position r) False (rd_position r) [])
       (\<lambda>(name, p). Done (name, r\<lparr>rd_position := p\<rparr>))"

lemmas reader_defs [wire_defs] =
  remaining_def read_u8_def read_u16_def read_u32_def read_bytes_def

section \<open>The decoding relation\<close>

definition label_text :: "byte list \<Rightarrow> nat \<Rightarrow> nat \<Rightarrow> string" where
  "label_text buf i n = map char_of_byte (take n (drop i buf))"

inductive name_at :: "byte list \<Rightarrow> nat \<Rightarrow> string list \<Rightarrow> nat \<Rightarrow> bool" for buf where
  root: "c < length buf \<Longrightarrow> buf ! c = 0 \<Longrightarrow> name_at buf c [] (c + 1)"
| label: "c < length buf \<Longrightarrow> \<not> is_pointer (buf ! c) \<Longrightarrow> \<not> is_reserved (buf ! c) \<Longrightarrow>
    buf ! c \<noteq> 0 \<Longrightarrow> c + 1 + unat (buf ! c) \<le> length buf \<Longrightarrow>
    name_at buf (c + 1 + unat (buf ! c)) ls e \<Longrightarrow>
    name_at buf c (label_text buf (c + 1) (unat (buf ! c)) # ls) e"
| pointer: "c + 1 < length buf \<Longrightarrow> is_pointer (buf ! c) \<Longrightarrow>
    name_at buf (pointer_target (buf ! c) (buf ! (c + 1))) ls e \<Longrightarrow>
    name_at buf c ls (c + 2)"

fun dotted :: "string list \<Rightarrow> string" where
  "dotted [] = []"
| "dotted [l] = l"
| "dotted (l # ls) = l @ ''.'' @ dotted ls"

text \<open>The decoder's accumulator, label by label.\<close>

fun add_labels :: "string \<Rightarrow> string list \<Rightarrow> string" where
  "add_labels name [] = name"
| "add_labels name (l # ls) = add_labels ((if name \<noteq> [] then name @ ''.'' else name) @ l) ls"

lemma dotted_Cons: "dotted (l # ls) = l @ (if ls = [] then [] else ''.'' @ dotted ls)"
  by (cases ls) auto

lemma add_labels_nonempty:
  "name \<noteq> [] \<Longrightarrow> add_labels name ls = name @ (if ls = [] then [] else ''.'' @ dotted ls)"
  by (induction ls arbitrary: name) (auto simp: dotted_Cons simp del: dotted.simps(2,3))

lemma add_labels_dotted: "(\<forall>l \<in> set ls. l \<noteq> []) \<Longrightarrow> add_labels [] ls = dotted ls"
  by (cases ls) (auto simp: add_labels_nonempty dotted_Cons simp del: dotted.simps(2,3))

lemma byte_zero_unat: "unat (b :: byte) = 0 \<longleftrightarrow> b = 0"
  by (simp add: unat_eq_0)

lemma name_at_labels: "name_at buf c ls e \<Longrightarrow> l \<in> set ls \<Longrightarrow> l \<noteq> []"
proof (induction rule: name_at.induct)
  case (label c ls e)
  have "label_text buf (c + 1) (unat (buf ! c)) \<noteq> []"
    using label.hyps byte_zero_unat [of "buf ! c"] by (auto simp: label_text_def)
  with label show ?case by auto
qed simp_all

lemma zero_not_pointer [simp]: "\<not> is_pointer 0" and zero_not_reserved [simp]: "\<not> is_reserved 0"
  by (simp_all add: is_pointer_def is_reserved_def)

section \<open>The decoder never leaves the span\<close>

lemma push_label_eq:
  "i + n \<le> length buf \<Longrightarrow> push_label buf i n name = Done (name @ label_text buf i n)"
proof (induction n arbitrary: i name)
  case 0
  then show ?case by (simp add: label_text_def)
next
  case (Suc n)
  then have "i < length buf" by simp
  with Suc show ?case by (simp add: label_text_def Cons_nth_drop_Suc [symmetric])
qed

lemma read_name_loop_safe: "read_name_loop buf s c j p nm \<noteq> UB"
  by (induction buf s c j p nm rule: read_name_loop.induct) (auto simp: push_label_eq)

lemma read_name_safe: "read_name r \<noteq> UB"
  by (auto simp: read_name_def exec_simps read_name_loop_safe)

section \<open>The decoder computes the relation\<close>

lemma read_name_loop_sound:
  "read_name_loop buf s c j p nm = Done (Some r, q) \<Longrightarrow>
   \<exists>ls e. name_at buf c ls e \<and> r = add_labels nm ls \<and> q = (if j then p else e)"
proof (induction s arbitrary: c j p nm)
  case 0
  then show ?case by simp
next
  case (Suc s)
  from Suc.prems have c: "c < length buf" by (auto split: if_splits)
  consider (ptr) "is_pointer (buf ! c)" | (zero) "buf ! c = 0"
    | (lab) "\<not> is_pointer (buf ! c)" "\<not> is_reserved (buf ! c)" "buf ! c \<noteq> 0"
    using Suc.prems c by (auto split: if_splits)
  then show ?case
  proof cases
    case ptr
    with Suc.prems c have c1: "c + 1 < length buf" by (auto split: if_splits)
    with ptr Suc.prems c have
      "read_name_loop buf s (pointer_target (buf ! c) (buf ! (c + 1))) True
         (if j then p else c + 2) nm = Done (Some r, q)"
      by simp
    from Suc.IH [OF this] obtain ls e where
      "name_at buf (pointer_target (buf ! c) (buf ! (c + 1))) ls e" and
      "r = add_labels nm ls" and "q = (if j then p else c + 2)"
      by auto
    with name_at.pointer [OF c1 ptr] show ?thesis by blast
  next
    case zero
    with Suc.prems c name_at.root [OF c zero] show ?thesis
      by (intro exI [of _ "[]"] exI [of _ "c + 1"]) simp
  next
    case lab
    let ?n = "unat (buf ! c)"
    from lab Suc.prems c have n: "c + 1 + ?n \<le> length buf" by (auto split: if_splits)
    with lab Suc.prems c have "read_name_loop buf s (c + 1 + ?n) j p
        ((if nm \<noteq> [] then nm @ ''.'' else nm) @ label_text buf (c + 1) ?n) = Done (Some r, q)"
      by (simp add: push_label_eq)
    from Suc.IH [OF this] obtain ls e where "name_at buf (c + 1 + ?n) ls e" and
      "r = add_labels nm (label_text buf (c + 1) ?n # ls)" and "q = (if j then p else e)"
      by auto
    with name_at.label [OF c lab n] show ?thesis by blast
  qed
qed

text \<open>The relation with its number of visited octets: a proof device for the iteration cap.\<close>

inductive name_steps :: "byte list \<Rightarrow> nat \<Rightarrow> string list \<Rightarrow> nat \<Rightarrow> nat \<Rightarrow> bool" for buf where
  "c < length buf \<Longrightarrow> buf ! c = 0 \<Longrightarrow> name_steps buf c [] (c + 1) 0"
| "c < length buf \<Longrightarrow> \<not> is_pointer (buf ! c) \<Longrightarrow> \<not> is_reserved (buf ! c) \<Longrightarrow>
    buf ! c \<noteq> 0 \<Longrightarrow> c + 1 + unat (buf ! c) \<le> length buf \<Longrightarrow>
    name_steps buf (c + 1 + unat (buf ! c)) ls e n \<Longrightarrow>
    name_steps buf c (label_text buf (c + 1) (unat (buf ! c)) # ls) e (Suc n)"
| "c + 1 < length buf \<Longrightarrow> is_pointer (buf ! c) \<Longrightarrow>
    name_steps buf (pointer_target (buf ! c) (buf ! (c + 1))) ls e n \<Longrightarrow>
    name_steps buf c ls (c + 2) (Suc n)"

lemma name_at_steps: "name_at buf c ls e \<Longrightarrow> \<exists>n. name_steps buf c ls e n"
  by (induction rule: name_at.induct) (blast intro: name_steps.intros)+

lemma name_steps_in_range: "name_steps buf c ls e n \<Longrightarrow> c < length buf"
  by (erule name_steps.cases) auto

lemma name_steps_unique: "name_steps buf c ls e n \<Longrightarrow> name_steps buf c ls' e' n' \<Longrightarrow> n' = n"
proof (induction arbitrary: ls' e' n' rule: name_steps.induct)
  case (1 c)
  from "1.prems" "1.hyps" show ?case by cases auto
next
  case (2 c ls e n)
  from "2.prems" "2.hyps"(1-5) obtain ls'' e'' m where "n' = Suc m"
    and "name_steps buf (c + 1 + unat (buf ! c)) ls'' e'' m"
    by cases auto
  with "2.IH" show ?case by blast
next
  case (3 c ls e n)
  from "3.prems" "3.hyps"(1,2) obtain ls'' e'' m where "n' = Suc m"
    and "name_steps buf (pointer_target (buf ! c) (buf ! (c + 1))) ls'' e'' m"
    by cases auto
  with "3.IH" show ?case by blast
qed

text \<open>A decoding visits no octet twice, so it visits at most as many as the span has.\<close>

lemma name_steps_distinct:
  "name_steps buf c ls e n \<Longrightarrow>
   \<exists>S. S \<subseteq> {..<length buf} \<and> card S = Suc n \<and> (\<forall>d \<in> S. \<exists>ls' e' m. m \<le> n \<and> name_steps buf d ls' e' m)"
proof (induction n arbitrary: c ls e)
  case 0
  then show ?case by (intro exI [of _ "{c}"]) (auto dest: name_steps_in_range)
next
  case (Suc n)
  from Suc.prems obtain d ls' e' where d: "name_steps buf d ls' e' n"
    by cases auto
  from Suc.IH [OF d] obtain S where S: "S \<subseteq> {..<length buf}" "card S = Suc n"
    "\<forall>d \<in> S. \<exists>ls' e' m. m \<le> n \<and> name_steps buf d ls' e' m"
    by blast
  have "c \<notin> S"
    using S(3) Suc.prems name_steps_unique by fastforce
  moreover have "finite S"
    using S(1) finite_subset by blast
  ultimately have "card (insert c S) = Suc (Suc n)"
    using S(2) by simp
  moreover have "\<forall>d \<in> insert c S. \<exists>ls' e' m. m \<le> Suc n \<and> name_steps buf d ls' e' m"
    using S(3) Suc.prems by (metis insertE le_Suc_eq order_refl)
  moreover have "insert c S \<subseteq> {..<length buf}"
    using S(1) Suc.prems by (auto dest: name_steps_in_range)
  ultimately show ?case by blast
qed

lemma name_steps_bound:
  assumes "name_steps buf c ls e n"
  shows "n < length buf"
proof -
  from name_steps_distinct [OF assms] obtain S where "S \<subseteq> {..<length buf}" "card S = Suc n"
    by blast
  then have "Suc n \<le> card {..<length buf}"
    by (metis card_mono finite_lessThan)
  then show ?thesis by simp
qed

lemma read_name_loop_complete:
  "name_steps buf c ls e n \<Longrightarrow> n < s \<Longrightarrow>
   read_name_loop buf s c j p nm = Done (Some (add_labels nm ls), if j then p else e)"
proof (induction arbitrary: s j p nm rule: name_steps.induct)
  case (1 c)
  then show ?case by (cases s) auto
next
  case (2 c ls e n)
  then obtain t where "s = Suc t" "n < t" by (cases s) auto
  with 2 show ?case by (simp add: push_label_eq)
next
  case (3 c ls e n)
  then obtain t where "s = Suc t" "n < t" by (cases s) auto
  with 3 show ?case by simp
qed

lemma name_steps_length: "name_steps buf c ls e n \<Longrightarrow> length ls \<le> n"
  by (induction rule: name_steps.induct) auto

lemma read_name_Some_iff:
  "read_name r = Done (Some nm, r') \<longleftrightarrow>
   (\<exists>ls e. name_at (rd_buffer r) (rd_position r) ls e \<and> nm = dotted ls \<and> r' = r\<lparr>rd_position := e\<rparr>)"
proof
  assume "read_name r = Done (Some nm, r')"
  then obtain q where
    "read_name_loop (rd_buffer r) (length (rd_buffer r)) (rd_position r) False (rd_position r) []
      = Done (Some nm, q)" and r': "r' = r\<lparr>rd_position := q\<rparr>"
    by (auto simp: read_name_def exec_simps)
  from read_name_loop_sound [OF this(1)] obtain ls where
    ls: "name_at (rd_buffer r) (rd_position r) ls q" "nm = add_labels [] ls"
    by auto
  moreover have "add_labels [] ls = dotted ls"
    using ls name_at_labels by (blast intro: add_labels_dotted)
  ultimately show "\<exists>ls e. name_at (rd_buffer r) (rd_position r) ls e \<and> nm = dotted ls
      \<and> r' = r\<lparr>rd_position := e\<rparr>"
    using r' by metis
next
  assume "\<exists>ls e. name_at (rd_buffer r) (rd_position r) ls e \<and> nm = dotted ls
      \<and> r' = r\<lparr>rd_position := e\<rparr>"
  then obtain ls e n where *: "name_at (rd_buffer r) (rd_position r) ls e"
    "name_steps (rd_buffer r) (rd_position r) ls e n" "nm = dotted ls" "r' = r\<lparr>rd_position := e\<rparr>"
    using name_at_steps by blast
  moreover have "add_labels [] ls = dotted ls"
    using * name_at_labels by (blast intro: add_labels_dotted)
  ultimately show "read_name r = Done (Some nm, r')"
    by (simp add: read_name_def read_name_loop_complete name_steps_bound)
qed

lemma read_name_buffer: "read_name r = Done (x, r') \<Longrightarrow> rd_buffer r' = rd_buffer r"
  by (auto simp: read_name_def exec_simps)

lemma read_name_loop_position:
  "read_name_loop buf s c j p nm = Done (x, q) \<Longrightarrow> p \<le> length buf \<Longrightarrow> q \<le> length buf"
proof (induction s arbitrary: c j p nm)
  case 0
  then show ?case by simp
next
  case (Suc s)
  show ?case
  proof (cases "c < length buf \<and> is_pointer (buf ! c) \<and> c + 1 < length buf")
    case True
    with Suc.prems show ?thesis
      by (intro Suc.IH [of "pointer_target (buf ! c) (buf ! (c + 1))" True
            "if j then p else c + 2" nm]) auto
  next
    case False
    with Suc.prems show ?thesis
      by (auto simp: exec_simps push_label_eq split: if_splits dest: Suc.IH)
  qed
qed

section \<open>Reads stay inside the span\<close>

text \<open>
  The contract every read keeps: from a cursor inside the span (or at its end) it has a defined
  outcome, leaves the cursor inside and never changes the bytes. \<open>seek\<close> is the one operation
  that can leave it, since it does not check its argument.
\<close>

definition reader_ok :: "reader \<Rightarrow> bool" where
  "reader_ok r \<longleftrightarrow> rd_position r \<le> length (rd_buffer r)"

definition within :: "byte list \<Rightarrow> ('a \<times> reader) exec \<Rightarrow> bool" where
  "within buf m \<longleftrightarrow> (\<exists>x r'. m = Done (x, r') \<and> reader_ok r' \<and> rd_buffer r' = buf)"

lemma within_Done [simp]: "within buf (Done (x, r)) \<longleftrightarrow> reader_ok r \<and> rd_buffer r = buf"
  by (auto simp: within_def)

lemma within_not_UB: "within buf m \<Longrightarrow> m \<noteq> UB"
  by (auto simp: within_def)

locale safe_read =
  fixes get :: "reader \<Rightarrow> ('a option \<times> reader) exec"
  assumes safe: "reader_ok r \<Longrightarrow> within (rd_buffer r) (get r)"
begin

lemma within_bind:
  assumes "reader_ok r" and "rd_buffer r = buf"
    and "\<And>x r'. reader_ok r' \<Longrightarrow> rd_buffer r' = buf \<Longrightarrow> within buf (k (x, r'))"
  shows "within buf (bind_exec (get r) k)"
  using assms safe [of r] by (auto simp: within_def)

end

interpretation sr_u8: safe_read read_u8
  by unfold_locales (auto simp: read_u8_def remaining_def reader_ok_def)

interpretation sr_u16: safe_read read_u16
  by unfold_locales (auto simp: read_u16_def remaining_def reader_ok_def)

lemma read_u16_Some:
  "read_u16 r = Done (Some v, r') \<Longrightarrow> reader_ok r \<Longrightarrow>
   reader_ok r' \<and> rd_buffer r' = rd_buffer r \<and> rd_position r' = rd_position r + 2"
  by (auto simp: read_u16_def remaining_def reader_ok_def split: if_splits)

lemma read_u32_loop_safe: "p + n \<le> length buf \<Longrightarrow> \<exists>v. read_u32_loop buf p n x = Done v"
  by (induction n arbitrary: p x) auto

interpretation sr_u32: safe_read read_u32
proof
  fix r :: reader
  assume r: "reader_ok r"
  show "within (rd_buffer r) (read_u32 r)"
  proof (cases "remaining r < 4")
    case True
    with r show ?thesis by (simp add: read_u32_def)
  next
    case False
    with r have "rd_position r + 4 \<le> length (rd_buffer r)"
      by (simp add: remaining_def reader_ok_def)
    with read_u32_loop_safe [OF this, of 0] show ?thesis
      using False by (auto simp: read_u32_def reader_ok_def)
  qed
qed

interpretation sr_bytes: safe_read "read_bytes count" for count
  by unfold_locales (auto simp: read_bytes_def remaining_def reader_ok_def subspan_def)

interpretation sr_name: safe_read read_name
proof
  fix r :: reader
  assume "reader_ok r"
  then show "within (rd_buffer r) (read_name r)"
    using read_name_safe [of r]
    by (auto simp: exec_not_UB_iff read_name_def exec_simps reader_ok_def dest: read_name_loop_position)
qed

section \<open>Big-endian values\<close>

lemma join_u16_of_nat: "join_u16 hi lo = of_nat (256 * unat hi + unat lo)"
proof -
  have "join_u16 hi lo = push_bit 8 (ucast hi) + ucast lo"
    unfolding join_u16_def
    by (rule disjunctive_add [symmetric]) (auto simp: bit_simps dest: bit_imp_le_length)
  then show ?thesis
    by (simp add: push_bit_eq_mult unsigned_ucast_eq)
qed

section \<open>Properties\<close>

text \<open>C33: every read stays inside the span. From a cursor inside the span (or at its end) each of
  the five reads has a defined outcome, leaves the bytes alone and the cursor inside; a 16-bit read
  returns the big-endian value of the next two octets, or \<^verbatim>\<open>nullopt\<close> without moving when fewer
  remain.\<close>

theorem reads_stay_inside:
  assumes "reader_ok r"
  shows "within (rd_buffer r) (read_u8 r) \<and> within (rd_buffer r) (read_u32 r) \<and>
    within (rd_buffer r) (read_bytes n r) \<and> within (rd_buffer r) (read_name r) \<and>
    read_u16 r =
      (if rd_position r + 2 \<le> length (rd_buffer r)
       then Done (Some (of_nat (256 * unat (rd_buffer r ! rd_position r)
                               + unat (rd_buffer r ! (rd_position r + 1)))),
                  r\<lparr>rd_position := rd_position r + 2\<rparr>)
       else Done (None, r))"
  using assms sr_u8.safe sr_u32.safe sr_bytes.safe sr_name.safe
  by (auto simp: read_u16_def remaining_def reader_ok_def join_u16_of_nat)

theorem reads_stay_inside_witness:
  "reader_ok \<lparr>rd_buffer = [1, 2, 3], rd_position = 1\<rparr> \<and>
   read_u16 \<lparr>rd_buffer = [1, 2, 3], rd_position = 1\<rparr>
     = Done (Some 515, \<lparr>rd_buffer = [1, 2, 3], rd_position = 3\<rparr>)"
proof -
  have ok: "reader_ok \<lparr>rd_buffer = [1, 2, 3], rd_position = 1\<rparr>" by (simp add: reader_ok_def)
  show ?thesis using ok reads_stay_inside [OF ok, of 0] by simp
qed

text \<open>\<^verbatim>\<open>seek\<close> does not check its argument, and \<^verbatim>\<open>remaining\<close> then wraps around: after a seek past
  the end, the next one-byte read indexes the span out of range. It does so exactly when the
  target lies beyond the end.\<close>

theorem read_after_seek:
  assumes "p < 2 ^ 64"
  shows "read_u8 (seek p r) = UB \<longleftrightarrow> length (rd_buffer r) < p"
  using assms by (auto simp: read_u8_def seek_def remaining_def size_sub_def exec_simps)

theorem read_after_seek_witness:
  "read_u8 (seek 2 (make_reader [7])) = UB \<and> length (rd_buffer (make_reader [7])) < 2"
  using read_after_seek [of 2 "make_reader [7]"] by (simp add: make_reader_def)

text \<open>C1: \<^verbatim>\<open>reader::read_name\<close> decodes exactly the names of the wire format. It returns a name, with the
  cursor just past the name in the original stream, precisely when the octets at the cursor have a
  decoding (in any number of pointer jumps), and \<^verbatim>\<open>nullopt\<close> precisely when they have none. The
  iteration cap, the size of the span, therefore rejects every pointer loop and no valid name.\<close>

theorem read_name_exact:
  "(\<forall>nm r'. read_name r = Done (Some nm, r') \<longleftrightarrow>
     (\<exists>ls e. name_at (rd_buffer r) (rd_position r) ls e \<and> nm = dotted ls \<and> r' = r\<lparr>rd_position := e\<rparr>))
   \<and> ((\<exists>r'. read_name r = Done (None, r')) \<longleftrightarrow> (\<nexists>ls e. name_at (rd_buffer r) (rd_position r) ls e))"
proof -
  obtain x r' where x: "read_name r = Done (x, r')"
    using read_name_safe by (metis exec_not_UB_iff surj_pair)
  then have "(\<exists>r'. read_name r = Done (None, r')) \<longleftrightarrow> (\<nexists>nm r'. read_name r = Done (Some nm, r'))"
    by (cases x) auto
  then show ?thesis by (simp add: read_name_Some_iff)
qed

lemma label_text_length: "length (label_text buf i n) \<le> n"
  by (simp add: label_text_def)

lemma dotted_length: "(\<forall>l \<in> set ls. length l \<le> k) \<Longrightarrow> length (dotted ls) \<le> length ls * (k + 1)"
proof (induction ls)
  case Nil
  then show ?case by simp
next
  case (Cons l ls)
  then show ?case by (auto simp: dotted_Cons simp del: dotted.simps(2,3))
qed

lemma plain_label_bound: "\<not> is_pointer b \<Longrightarrow> \<not> is_reserved b \<Longrightarrow> unat b \<le> 63"
proof -
  assume "\<not> is_pointer b" and "\<not> is_reserved b"
  then have "b AND 0xC0 = 0" by (auto simp: is_pointer_def is_reserved_def)
  moreover have "(0xC0 OR 0x3F :: byte) = - 1"
    by simp
  then have "b = b AND (0xC0 OR 0x3F)"
    by (simp only: and.right_neutral)
  ultimately have "b = b AND 0x3F"
    by (simp only: bit.conj_disj_distrib or.left_neutral)
  then have "b \<le> 0x3F" by (metis word_and_le1)
  then show ?thesis by (simp add: word_le_nat_alt)
qed

lemma name_at_label_length: "name_at buf c ls e \<Longrightarrow> l \<in> set ls \<Longrightarrow> length l \<le> 63"
proof (induction rule: name_at.induct)
  case (label c ls e)
  then show ?case
    using label_text_length [of buf "c + 1" "unat (buf ! c)"] plain_label_bound [of "buf ! c"] by auto
qed simp_all

text \<open>decompression is bounded. A decoded name has fewer than 64 characters per octet of the
  datagram: no chain of pointers expands a message further.\<close>

theorem read_name_bounded:
  assumes "read_name r = Done (Some nm, r')"
  shows "length nm \<le> 64 * length (rd_buffer r) \<and> rd_position r' \<le> length (rd_buffer r)"
proof -
  from assms obtain ls e n where ls: "name_at (rd_buffer r) (rd_position r) ls e" "nm = dotted ls"
    and n: "name_steps (rd_buffer r) (rd_position r) ls e n" and r': "rd_position r' = e"
    using read_name_Some_iff [of r nm r'] name_at_steps by fastforce
  have "length nm \<le> length ls * 64"
    using ls name_at_label_length dotted_length [of ls 63] by auto
  moreover have "length ls \<le> length (rd_buffer r)"
    using name_steps_length [OF n] name_steps_bound [OF n] by simp
  moreover have "reader_ok r"
    using name_steps_in_range [OF n] by (simp add: reader_ok_def)
  then have "reader_ok r'"
    using sr_name.safe [of r] assms by simp
  moreover have "rd_buffer r' = rd_buffer r"
    using read_name_buffer [OF assms] .
  ultimately show ?thesis by (auto simp: reader_ok_def)
qed

definition compressed_example :: reader where
  "compressed_example = \<lparr>rd_buffer = [1, 97, 0, 1, 98, 0xC0, 0, 255], rd_position = 3\<rparr>"

theorem read_name_bounded_witness:
  "read_name compressed_example = Done (Some ''b.a'', compressed_example\<lparr>rd_position := 7\<rparr>) \<and>
   length ''b.a'' \<le> 64 * length (rd_buffer compressed_example)"
proof -
  have *: "read_name compressed_example = Done (Some ''b.a'', compressed_example\<lparr>rd_position := 7\<rparr>)"
    by code_simp
  show ?thesis using * read_name_bounded [OF *] by blast
qed

end
