(* ===== verification/Wire_Writer.thy ===== *)
theory Wire_Writer
  imports Wire_Reader
begin

text \<open>
  \<^verbatim>\<open>dns::wire::writer\<close> (protocol/dns/wire/writer.hpp): a growing byte vector. The name
  encoder is the source's loop over \<^verbatim>\<open>string_view::find\<close> positions; its reference is the list
  of labels \<open>split_dots\<close> and their length-prefixed encoding \<open>encode_labels\<close>.
\<close>

type_synonym writer = "byte list"

definition write_u8 :: "byte \<Rightarrow> writer \<Rightarrow> writer" where
  "write_u8 value w = w @ [value]"

definition write_u16 :: "u16 \<Rightarrow> writer \<Rightarrow> writer" where
  "write_u16 value w = write_u8 (ucast (value AND 0xFF)) (write_u8 (ucast (drop_bit 8 value)) w)"

definition write_u32 :: "u32 \<Rightarrow> writer \<Rightarrow> writer" where
  "write_u32 value w =
     write_u8 (ucast (value AND 0xFF)) (write_u8 (ucast (drop_bit 8 value))
       (write_u8 (ucast (drop_bit 16 value)) (write_u8 (ucast (drop_bit 24 value)) w)))"

definition write_bytes :: "byte list \<Rightarrow> writer \<Rightarrow> writer" where
  "write_bytes data w = w @ data"

fun index_of :: "char \<Rightarrow> string \<Rightarrow> nat option" where
  "index_of c [] = None"
| "index_of c (x # xs) = (if x = c then Some 0 else map_option Suc (index_of c xs))"

definition find_from :: "char \<Rightarrow> string \<Rightarrow> nat \<Rightarrow> nat option" where
  "find_from c s start = map_option ((+) start) (index_of c (drop start s))"

fun write_chars :: "string \<Rightarrow> nat \<Rightarrow> nat \<Rightarrow> writer \<Rightarrow> writer exec" where
  "write_chars name i 0 w = Done w"
| "write_chars name i (Suc left) w =
     bind_exec (at_span name i) (\<lambda>c. write_chars name (i + 1) left (write_u8 (byte_of_char c) w))"

lemma find_from_ge: "Some d = find_from c s start \<Longrightarrow> start \<le> d"
  by (cases "index_of c (drop start s)") (auto simp: find_from_def)

function write_name_loop :: "string \<Rightarrow> nat \<Rightarrow> writer \<Rightarrow> (bool \<times> writer) exec" where
  "write_name_loop name start w =
     (if start < length name then
        (let dot = find_from CHR ''.'' name start;
             end = (case dot of None \<Rightarrow> length name | Some d \<Rightarrow> d);
             len = size_sub end start
         in if len = 0 \<or> 63 < len then Done (False, w)
            else bind_exec (write_chars name start len (write_u8 (of_nat len) w)) (\<lambda>w'.
              (case dot of None \<Rightarrow> Done (True, write_u8 0 w')
               | Some d \<Rightarrow> write_name_loop name (d + 1) w')))
      else Done (True, write_u8 0 w))"
  by pat_completeness auto
termination
  by (relation "measure (\<lambda>(name, start, w). length name - start)") (auto dest!: find_from_ge)

declare write_name_loop.simps [simp del]

definition write_name :: "string \<Rightarrow> writer \<Rightarrow> (bool \<times> writer) exec" where
  "write_name name w = write_name_loop name 0 w"

lemmas writer_defs [wire_defs] = write_u8_def write_u16_def write_u32_def write_bytes_def

section \<open>Labels\<close>

function split_dots :: "string \<Rightarrow> string list" where
  "split_dots [] = []"
| "split_dots (c # cs) =
     takeWhile ((\<noteq>) CHR ''.'') (c # cs) # split_dots (drop 1 (dropWhile ((\<noteq>) CHR ''.'') (c # cs)))"
  by pat_completeness auto
termination
  by (relation "measure length") (auto simp: less_Suc_eq_le length_dropWhile_le le_diff_conv intro: le_SucI)

definition good_label :: "string \<Rightarrow> bool" where
  "good_label l \<longleftrightarrow> 0 < length l \<and> length l \<le> 63"

definition encode_label :: "string \<Rightarrow> byte list" where
  "encode_label l = of_nat (length l) # map byte_of_char l"

definition encode_labels :: "string list \<Rightarrow> byte list" where
  "encode_labels ls = concat (map encode_label ls) @ [0]"

definition strip_dot :: "string \<Rightarrow> string" where
  "strip_dot s = (if s \<noteq> [] \<and> last s = CHR ''.'' then butlast s else s)"

lemma index_of_None: "index_of c s = None \<Longrightarrow> takeWhile ((\<noteq>) c) s = s \<and> dropWhile ((\<noteq>) c) s = []"
  by (induction s) (auto split: if_splits)

lemma index_of_Some:
  "index_of c s = Some i \<Longrightarrow>
   i < length s \<and> takeWhile ((\<noteq>) c) s = take i s \<and> dropWhile ((\<noteq>) c) s = drop i s"
  by (induction s arbitrary: i) (auto split: if_splits)

lemma write_chars_eq:
  "i + n \<le> length name \<Longrightarrow>
   write_chars name i n w = Done (w @ map byte_of_char (take n (drop i name)))"
proof (induction n arbitrary: i w)
  case 0
  then show ?case by simp
next
  case (Suc n)
  then have "i < length name" by simp
  with Suc show ?case by (simp add: write_u8_def Cons_nth_drop_Suc [symmetric])
qed

text \<open>What the loop appends, on every branch: it stops before the first bad label.\<close>

fun put_labels :: "string list \<Rightarrow> writer \<Rightarrow> bool \<times> writer" where
  "put_labels [] w = (True, w @ [0])"
| "put_labels (l # ls) w =
     (if good_label l then put_labels ls (w @ encode_label l) else (False, w))"

lemma put_labels_eq:
  "put_labels ls w =
     (if list_all good_label ls then (True, w @ encode_labels ls)
      else (False, w @ concat (map encode_label (takeWhile good_label ls))))"
  by (induction ls arbitrary: w) (auto simp: encode_labels_def)

lemma split_dots_nonempty:
  "s \<noteq> [] \<Longrightarrow> split_dots s =
     takeWhile ((\<noteq>) CHR ''.'') s # split_dots (drop 1 (dropWhile ((\<noteq>) CHR ''.'') s))"
  by (cases s) auto

lemma write_name_loop_labels:
  "write_name_loop name start w = Done (put_labels (split_dots (drop start name)) w)"
proof (induction name start w rule: write_name_loop.induct)
  case (1 name start w)
  show ?case
  proof (cases "start < length name")
    case False
    then show ?thesis by (simp add: write_name_loop.simps [of name start] write_u8_def)
  next
    case True
    let ?s = "drop start name"
    from True have ne: "?s \<noteq> []" by simp
    show ?thesis
    proof (cases "index_of CHR ''.'' ?s")
      case None
      have "split_dots ?s = [?s]"
        using split_dots_nonempty [OF ne] index_of_None [OF None] by simp
      moreover have "write_chars name start (length ?s) (write_u8 (of_nat (length ?s)) w)
          = Done (w @ encode_label ?s)"
        using True by (simp add: write_chars_eq write_u8_def encode_label_def)
      ultimately show ?thesis
        using True None
        by (simp add: write_name_loop.simps [of name start] find_from_def good_label_def write_u8_def)
    next
      case (Some i)
      note i = index_of_Some [OF Some]
      have dot: "find_from CHR ''.'' name start = Some (start + i)"
        using Some by (simp add: find_from_def)
      have labels: "split_dots ?s = take i ?s # split_dots (drop (start + i + 1) name)"
        using split_dots_nonempty [OF ne] i by (simp add: add.commute)
      show ?thesis
      proof (cases "i = 0 \<or> 63 < i")
        case True
        with \<open>start < length name\<close> i dot labels show ?thesis
          by (auto simp: write_name_loop.simps [of name start] good_label_def)
      next
        case False
        have "write_chars name start i (write_u8 (of_nat i) w)
            = Done (w @ encode_label (take i ?s))"
          using i True
          by (subst write_chars_eq) (auto simp: write_u8_def encode_label_def)
        moreover from this False True dot have
          "write_name_loop name (start + i + 1) (w @ encode_label (take i ?s))
            = Done (put_labels (split_dots (drop (start + i + 1) name)) (w @ encode_label (take i ?s)))"
          by (intro "1.IH") auto
        ultimately show ?thesis
          using False True dot i labels
          by (simp add: write_name_loop.simps [of name start] good_label_def)
      qed
    qed
  qed
qed

lemma write_name_eq:
  "write_name name w =
     Done (if list_all good_label (split_dots name) then (True, w @ encode_labels (split_dots name))
           else (False, w @ concat (map encode_label (takeWhile good_label (split_dots name)))))"
  by (simp add: write_name_def write_name_loop_labels put_labels_eq)

section \<open>Labels and dotted names\<close>

lemma split_dots_no_dot: "s \<noteq> [] \<Longrightarrow> CHR ''.'' \<notin> set s \<Longrightarrow> split_dots s = [s]"
proof -
  assume s: "s \<noteq> []" and "CHR ''.'' \<notin> set s"
  then have "takeWhile ((\<noteq>) CHR ''.'') s = s" and "dropWhile ((\<noteq>) CHR ''.'') s = []"
    by (auto simp: takeWhile_eq_all_conv)
  with s show ?thesis by (metis drop_Nil split_dots.simps(1) split_dots_nonempty)
qed

lemma split_dots_dot: "CHR ''.'' \<notin> set l \<Longrightarrow> split_dots (l @ CHR ''.'' # r) = l # split_dots r"
proof -
  assume "CHR ''.'' \<notin> set l"
  then have "\<forall>x \<in> set l. CHR ''.'' \<noteq> x" by auto
  then have "takeWhile ((\<noteq>) CHR ''.'') (l @ CHR ''.'' # r) = l"
    and "dropWhile ((\<noteq>) CHR ''.'') (l @ CHR ''.'' # r) = CHR ''.'' # r"
    by (auto simp: takeWhile_append dropWhile_append)
  then show ?thesis by (simp add: split_dots_nonempty)
qed

lemma split_dots_dotted:
  "(\<forall>l \<in> set ls. l \<noteq> [] \<and> CHR ''.'' \<notin> set l) \<Longrightarrow> split_dots (dotted ls) = ls"
  by (induction ls rule: dotted.induct) (auto simp: split_dots_no_dot split_dots_dot)

lemma split_dots_eq_Nil [simp]: "split_dots s = [] \<longleftrightarrow> s = []"
  by (cases s) auto

lemma dotted_split_dots: "list_all good_label (split_dots s) \<Longrightarrow> dotted (split_dots s) = strip_dot s"
proof (induction s rule: length_induct)
  case (1 s)
  show ?case
  proof (cases "CHR ''.'' \<in> set s")
    case False
    then have "s \<noteq> [] \<Longrightarrow> last s \<noteq> CHR ''.''" by (metis last_in_set)
    with False show ?thesis
      by (cases "s = []") (auto simp: split_dots_no_dot strip_dot_def)
  next
    case True
    then obtain l r where s: "s = l @ CHR ''.'' # r" and l: "CHR ''.'' \<notin> set l"
      by (meson split_list_first)
    from 1 s l have "dotted (split_dots r) = strip_dot r"
      by (simp add: split_dots_dot)
    with s l show ?thesis
      by (cases "r = []")
        (auto simp: split_dots_dot strip_dot_def butlast_append dotted_Cons simp del: dotted.simps(2,3))
  qed
qed

section \<open>Codecs\<close>

text \<open>
  The contract between a write operation and the read operation that undoes it: what was
  written anywhere in a buffer is read back at its offset, and the cursor ends just past it.
  What is read back is the value up to \<open>norm\<close>, the part of it the wire format keeps (the
  identity for integers; the text without a trailing dot for names). A write reports whether it accepted the value. \<open>put_many\<close> and \<open>get_many\<close> are the loops of
  the message codec over a section of counted items: they stop at the first item that is
  refused. Sections inherit the contract once, inside the locale.
\<close>

type_synonym 'a put = "'a \<Rightarrow> writer \<Rightarrow> (bool \<times> writer) exec"
type_synonym 'a get = "reader \<Rightarrow> ('a option \<times> reader) exec"

fun put_many :: "'a put \<Rightarrow> 'a list \<Rightarrow> writer \<Rightarrow> (bool \<times> writer) exec" where
  "put_many put [] w = Done (True, w)"
| "put_many put (x # xs) w =
     bind_exec (put x w) (\<lambda>(ok, w'). if ok then put_many put xs w' else Done (False, w'))"

fun get_many :: "'a get \<Rightarrow> nat \<Rightarrow> 'a list \<Rightarrow> reader \<Rightarrow> ('a list option \<times> reader) exec" where
  "get_many get 0 xs r = Done (Some xs, r)"
| "get_many get (Suc n) xs r =
     bind_exec (get r) (\<lambda>(x, r'). case x of None \<Rightarrow> Done (None, r')
       | Some x \<Rightarrow> get_many get n (xs @ [x]) r')"

abbreviation reader_at :: "byte list \<Rightarrow> byte list \<Rightarrow> reader" where
  "reader_at pre rest \<equiv> \<lparr>rd_buffer = pre @ rest, rd_position = length pre\<rparr>"

locale wire_codec =
  fixes put :: "'a put"
    and enc :: "'a \<Rightarrow> byte list"
    and get :: "'a get"
    and valid :: "'a \<Rightarrow> bool"
    and norm :: "'a \<Rightarrow> 'a"
  assumes put_enc: "valid x \<Longrightarrow> put x w = Done (True, w @ enc x)"
    and get_enc: "valid x \<Longrightarrow>
      get (reader_at pre (enc x @ post)) = Done (Some (norm x), reader_at (pre @ enc x) post)"
begin

lemma get_put:
  assumes "valid x" and "put x w = Done (ok, w')"
  shows "get \<lparr>rd_buffer = w' @ post, rd_position = length w\<rparr> = Done (Some (norm x), reader_at w' post)"
  using assms get_enc [of x w post] by (auto simp: put_enc)

lemma put_many_enc:
  "list_all valid xs \<Longrightarrow> put_many put xs w = Done (True, w @ concat (map enc xs))"
  by (induction xs arbitrary: w) (auto simp: put_enc)

lemma get_many_enc:
  "list_all valid xs \<Longrightarrow>
   get_many get (length xs) ys (reader_at pre (concat (map enc xs) @ post)) =
   Done (Some (ys @ map norm xs), reader_at (pre @ concat (map enc xs)) post)"
proof (induction xs arbitrary: ys pre)
  case Nil
  then show ?case by simp
next
  case (Cons x xs)
  then have "get (reader_at pre (enc x @ concat (map enc xs) @ post))
      = Done (Some (norm x), reader_at (pre @ enc x) (concat (map enc xs) @ post))"
    using get_enc by simp
  with Cons.IH [of "ys @ [norm x]" "pre @ enc x"] Cons.prems show ?case by simp
qed

lemma get_many_take:
  assumes "list_all valid xs" and "n \<le> length xs"
  shows "get_many get n [] (reader_at pre (concat (map enc xs) @ post)) =
    Done (Some (take n (map norm xs)),
      reader_at (pre @ concat (map enc (take n xs))) (concat (map enc (drop n xs)) @ post))"
proof -
  have "concat (map enc xs) = concat (map enc (take n xs)) @ concat (map enc (drop n xs))"
    by (simp flip: concat_append map_append)
  moreover from assms have "list_all valid (take n xs)"
    by (auto simp: list_all_iff dest: in_set_takeD)
  ultimately show ?thesis
    using get_many_enc [of "take n xs" "[]" pre "concat (map enc (drop n xs)) @ post"] assms
    by (simp add: take_map min_absorb2)
qed

end

context safe_read
begin

lemma get_many_safe: "reader_ok r \<Longrightarrow> within (rd_buffer r) (get_many get n xs r)"
proof (induction n arbitrary: xs r)
  case 0
  then show ?case by simp
next
  case (Suc n)
  then show ?case
    by (auto intro!: within_bind split: option.splits) (metis Suc.IH)
qed

end

lemma get_many_length:
  "get_many get n xs r = Done (Some ys, r') \<Longrightarrow> length ys = length xs + n"
proof (induction n arbitrary: xs r)
  case 0
  then show ?case by simp
next
  case (Suc n)
  then show ?case by (fastforce simp: exec_simps split: option.splits)
qed

lemma join_u16_split: "join_u16 (ucast (drop_bit 8 v)) (ucast (v AND 0xFF)) = v"
proof (rule bit_word_eqI)
  fix n
  assume "n < LENGTH(16)"
  have "bit (0xFF :: u16) n \<longleftrightarrow> n < 8"
    using bit_mask_iff [of 8 n, where 'a = u16] \<open>n < LENGTH(16)\<close> by (simp add: mask_numeral)
  with \<open>n < LENGTH(16)\<close> show "bit (join_u16 (ucast (drop_bit 8 v)) (ucast (v AND 0xFF))) n = bit v n"
    by (auto simp: join_u16_def bit_simps)
qed

definition enc_u16 :: "u16 \<Rightarrow> byte list" where
  "enc_u16 v = [ucast (drop_bit 8 v), ucast (v AND 0xFF)]"

definition enc_u32 :: "u32 \<Rightarrow> byte list" where
  "enc_u32 v = [ucast (drop_bit 24 v), ucast (drop_bit 16 v), ucast (drop_bit 8 v), ucast (v AND 0xFF)]"

lemma write_u16_enc [simp]: "write_u16 v w = w @ enc_u16 v"
  by (simp add: write_u16_def write_u8_def enc_u16_def)

lemma length_enc_u16 [simp]: "length (enc_u16 v) = 2"
  by (simp add: enc_u16_def)

interpretation u8: wire_codec "\<lambda>v w. Done (True, write_u8 v w)" "\<lambda>v. [v]" read_u8 "\<lambda>_. True" "\<lambda>v. v"
  by unfold_locales (simp_all add: wire_defs)

interpretation u16: wire_codec "\<lambda>v w. Done (True, write_u16 v w)" enc_u16 read_u16 "\<lambda>_. True" "\<lambda>v. v"
  by unfold_locales (simp_all add: enc_u16_def read_u16_def remaining_def join_u16_split)

lemma join_u32_split:
  "push_bit 8 (push_bit 8 (push_bit 8 (push_bit 8 (0 :: u32) OR ucast (ucast (drop_bit 24 v) :: byte))
     OR ucast (ucast (drop_bit 16 v) :: byte)) OR ucast (ucast (drop_bit 8 v) :: byte))
     OR ucast (ucast (v AND 0xFF) :: byte) = v"
proof (rule bit_word_eqI)
  fix n
  assume n: "n < LENGTH(32)"
  have "bit (0xFF :: u32) n \<longleftrightarrow> n < 8"
    using bit_mask_iff [of 8 n, where 'a = u32] n by (simp add: mask_numeral)
  with n show "bit (push_bit 8 (push_bit 8 (push_bit 8 (push_bit 8 (0 :: u32)
     OR ucast (ucast (drop_bit 24 v) :: byte))
     OR ucast (ucast (drop_bit 16 v) :: byte)) OR ucast (ucast (drop_bit 8 v) :: byte))
     OR ucast (ucast (v AND 0xFF) :: byte)) n = bit v n"
    by (cases "n < 8"; cases "n < 16"; cases "n < 24") (auto simp: bit_simps)
qed

interpretation u32: wire_codec "\<lambda>v w. Done (True, write_u32 v w)" enc_u32 read_u32 "\<lambda>_. True" "\<lambda>v. v"
proof unfold_locales
  fix x w
  show "Done (True, write_u32 x w) = Done (True, w @ enc_u32 x)"
    by (simp add: wire_defs enc_u32_def)
next
  fix x pre post
  show "read_u32 (reader_at pre (enc_u32 x @ post)) = Done (Some x, reader_at (pre @ enc_u32 x) post)"
    using join_u32_split [of x]
    by (simp add: enc_u32_def read_u32_def remaining_def numeral_eq_Suc nth_append)
qed

section \<open>Names\<close>

definition good_name :: "string \<Rightarrow> bool" where
  "good_name nm \<longleftrightarrow> list_all good_label (split_dots nm)"

definition enc_name :: "string \<Rightarrow> byte list" where
  "enc_name nm = encode_labels (split_dots nm)"

lemma label_length_byte:
  assumes "n \<le> 63"
  shows "unat (of_nat n :: byte) = n"
    and "\<not> is_pointer (of_nat n)" and "\<not> is_reserved (of_nat n)"
proof -
  have "take_bit 6 n = n"
    using assms by (simp add: take_bit_nat_eq_self)
  then have "(of_nat n :: byte) = take_bit 6 (of_nat n)"
    by (simp add: take_bit_of_nat)
  also have "\<dots> = of_nat n AND 0x3F"
    by (simp add: take_bit_eq_mask mask_numeral)
  finally have "of_nat n AND 0xC0 = ((of_nat n AND 0x3F) AND 0xC0 :: byte)"
    by simp
  then have "of_nat n AND 0xC0 = (0 :: byte)"
    by (simp add: and.assoc)
  then show "\<not> is_pointer (of_nat n)" and "\<not> is_reserved (of_nat n)"
    by (auto simp: is_pointer_def is_reserved_def)
  from assms show "unat (of_nat n :: byte) = n" by (simp add: unat_of_nat)
qed

lemma name_at_encoded:
  "list_all good_label ls \<Longrightarrow>
   name_at (pre @ encode_labels ls @ post) (length pre) ls (length pre + length (encode_labels ls))"
proof (induction ls arbitrary: pre)
  case Nil
  show ?case
    using name_at.root [of "length pre" "pre @ 0 # post"] by (simp add: encode_labels_def)
next
  case (Cons l ls)
  let ?buf = "pre @ encode_labels (l # ls) @ post"
  let ?c = "length pre"
  from Cons.prems have ls: "list_all good_label ls" and "good_label l" by simp_all
  then have l: "0 < length l" "length l \<le> 63" by (simp_all add: good_label_def)
  have buf: "?buf = (pre @ encode_label l) @ encode_labels ls @ post"
    by (simp add: encode_labels_def)
  have c: "?buf ! ?c = of_nat (length l)"
    by (simp add: encode_labels_def encode_label_def)
  have lab: "label_text ?buf (?c + 1) (length l) = l"
    by (simp add: label_text_def encode_labels_def encode_label_def)
  have "unat (?buf ! ?c) = length l"
    unfolding c using label_length_byte(1) [OF l(2)] .
  moreover have "\<not> is_pointer (?buf ! ?c)" "\<not> is_reserved (?buf ! ?c)"
    unfolding c using label_length_byte(2,3) [OF l(2)] by auto
  moreover have "?buf ! ?c \<noteq> 0"
    using calculation(1) l(1) by (metis less_not_refl unat_0)
  moreover have "?c < length ?buf" "?c + 1 + length l \<le> length ?buf"
    by (simp_all add: encode_labels_def encode_label_def)
  moreover have "name_at ?buf (?c + 1 + length l) ls (?c + length (encode_labels (l # ls)))"
    using Cons.IH [OF ls, of "pre @ encode_label l"] unfolding buf
    by (simp add: encode_label_def encode_labels_def add.assoc)
  ultimately show ?case
    using name_at.label [of ?c ?buf ls] lab by metis
qed

interpretation name: wire_codec write_name enc_name read_name good_name strip_dot
proof unfold_locales
  fix nm w
  assume "good_name nm"
  then show "write_name nm w = Done (True, w @ enc_name nm)"
    by (simp add: write_name_eq good_name_def enc_name_def)
next
  fix nm pre post
  assume nm: "good_name nm"
  then have "strip_dot nm = dotted (split_dots nm)"
    by (simp add: good_name_def dotted_split_dots)
  moreover have "name_at (pre @ enc_name nm @ post) (length pre) (split_dots nm)
      (length (pre @ enc_name nm))"
    using nm name_at_encoded by (simp add: good_name_def enc_name_def)
  ultimately show "read_name (reader_at pre (enc_name nm @ post)) =
      Done (Some (strip_dot nm), reader_at (pre @ enc_name nm) post)"
    by (subst read_name_Some_iff) auto
qed

lemma write_name_ok_iff: "write_name nm w = Done (ok, w') \<Longrightarrow> ok \<longleftrightarrow> good_name nm"
  by (auto simp: write_name_eq good_name_def split: if_splits)

section \<open>Properties\<close>

text \<open>C32: \<^verbatim>\<open>writer::write_name\<close> on every branch. It never indexes the name out of range; it accepts a
  name exactly when each of its dot-separated labels (a single trailing dot adds none) has 1 to 63
  bytes; then the bytes it appended decode to those labels, whatever is written after them. A
  refused name leaves the labels before the offending one in the buffer, without a terminator.\<close>

theorem write_name_correct:
  "\<exists>ok w'. write_name nm w = Done (ok, w') \<and>
     (ok \<longleftrightarrow> (\<forall>l \<in> set (split_dots nm). 1 \<le> length l \<and> length l \<le> 63)) \<and>
     (if ok then name_at (w' @ post) (length w) (split_dots nm) (length w')
      else w' = w @ concat (map encode_label (takeWhile good_label (split_dots nm))))"
proof (cases "good_name nm")
  case True
  then show ?thesis
    using name_at_encoded [of "split_dots nm" w post]
    by (auto simp: write_name_eq good_name_def list_all_iff good_label_def Suc_le_eq)
next
  case False
  then show ?thesis
    by (auto simp: write_name_eq good_name_def list_all_iff good_label_def Suc_le_eq)
qed

theorem write_name_correct_witness:
  "\<exists>ok w'. write_name ''a.b.'' [9] = Done (ok, w') \<and> ok \<and> name_at (w' @ [7]) 1 [''a'', ''b''] (length w')"
proof -
  have "split_dots ''a.b.'' = [''a'', ''b'']" by simp
  with write_name_correct [of "''a.b.''" "[9]" "[7]"] show ?thesis by auto
qed

text \<open>the name round trip. A name the writer accepts, written at any place of a message and
  followed by anything, is read back from there as the same text without its trailing dot, and
  the reader ends where the writer did.\<close>

theorem name_roundtrip:
  assumes "write_name nm w = Done (True, w')"
  shows "read_name (seek (length w) (make_reader (w' @ post)))
    = Done (Some (if nm \<noteq> [] \<and> last nm = CHR ''.'' then butlast nm else nm),
        seek (length w') (make_reader (w' @ post)))"
proof -
  have "good_name nm" using write_name_ok_iff [OF assms] by simp
  from name.get_put [OF this assms] show ?thesis
    by (simp add: make_reader_def seek_def strip_dot_def)
qed

theorem name_roundtrip_witness:
  "write_name ''x.yz.'' [1, 2] = Done (True, [1, 2, 1, 120, 2, 121, 122, 0]) \<and>
   read_name (seek 2 (make_reader [1, 2, 1, 120, 2, 121, 122, 0, 5])) =
     Done (Some ''x.yz'', seek 8 (make_reader [1, 2, 1, 120, 2, 121, 122, 0, 5]))"
proof -
  have *: "write_name ''x.yz.'' [1, 2] = Done (True, [1, 2, 1, 120, 2, 121, 122, 0])"
    by (simp add: write_name_eq good_label_def encode_labels_def encode_label_def byte_of_char_def)
  show ?thesis using * name_roundtrip [OF *, of "[5]"] by (simp add: eval_nat_numeral)
qed

text \<open>Integers round-trip. An 8-, 16- or 32-bit value written after any prefix and before any
  suffix is read back unchanged at its offset, with the cursor just past it.\<close>

theorem integer_roundtrip:
  "read_u8 (seek (length w) (make_reader (write_u8 a w @ post)))
     = Done (Some a, seek (length w + 1) (make_reader (write_u8 a w @ post))) \<and>
   read_u16 (seek (length w) (make_reader (write_u16 b w @ post)))
     = Done (Some b, seek (length w + 2) (make_reader (write_u16 b w @ post))) \<and>
   read_u32 (seek (length w) (make_reader (write_u32 c w @ post)))
     = Done (Some c, seek (length w + 4) (make_reader (write_u32 c w @ post)))"
  using u8.get_put [OF TrueI refl, where w = w and x = a and post = post]
    u16.get_put [OF TrueI refl, where w = w and x = b and post = post]
    u32.get_put [OF TrueI refl, where w = w and x = c and post = post]
  by (simp add: make_reader_def seek_def u32.put_enc [simplified] write_u8_def enc_u32_def)

end
