(* ===== verification/Dns_Message.thy ===== *)
theory Dns_Message
  imports Wire_Writer
begin

text \<open>
  \<^verbatim>\<open>dns::header\<close> (protocol/dns/header.hpp) and \<^verbatim>\<open>dns::message\<close> (protocol/dns/message.hpp).
  The enumerations \<^verbatim>\<open>opcode\<close> and \<^verbatim>\<open>rcode\<close> have \<^verbatim>\<open>std::uint8_t\<close> as their underlying type and the
  parser casts any 4-bit value into them, so they are bytes with named values here.
  Both codecs are interpretations of \<open>wire_codec\<close>.
\<close>

type_synonym opcode = byte
type_synonym rcode = byte

definition opcode_query :: opcode where "opcode_query = 0"
definition opcode_iquery :: opcode where "opcode_iquery = 1"
definition opcode_status :: opcode where "opcode_status = 2"
definition opcode_notify :: opcode where "opcode_notify = 4"
definition opcode_update :: opcode where "opcode_update = 5"

definition rcode_no_error :: rcode where "rcode_no_error = 0"
definition rcode_format_error :: rcode where "rcode_format_error = 1"
definition rcode_server_failure :: rcode where "rcode_server_failure = 2"
definition rcode_name_error :: rcode where "rcode_name_error = 3"
definition rcode_not_implemented :: rcode where "rcode_not_implemented = 4"
definition rcode_refused :: rcode where "rcode_refused = 5"

record header =
  h_id :: u16
  h_response :: bool
  h_opcode :: opcode
  h_authoritative :: bool
  h_truncated :: bool
  h_recursion_desired :: bool
  h_recursion_available :: bool
  h_rcode :: rcode
  h_question_count :: u16
  h_answer_count :: u16
  h_authority_count :: u16
  h_additional_count :: u16

definition default_header :: header where
  "default_header = \<lparr>h_id = 0, h_response = False, h_opcode = opcode_query, h_authoritative = False,
     h_truncated = False, h_recursion_desired = False, h_recursion_available = False,
     h_rcode = rcode_no_error, h_question_count = 0, h_answer_count = 0, h_authority_count = 0,
     h_additional_count = 0\<rparr>"

definition unpack_header :: "u16 \<Rightarrow> u16 \<Rightarrow> u16 \<Rightarrow> u16 \<Rightarrow> u16 \<Rightarrow> u16 \<Rightarrow> header" where
  "unpack_header i flags qd an ns ar =
     \<lparr>h_id = i,
      h_response = (drop_bit 15 flags AND 0x1 \<noteq> 0),
      h_opcode = ucast (drop_bit 11 flags AND 0xF),
      h_authoritative = (drop_bit 10 flags AND 0x1 \<noteq> 0),
      h_truncated = (drop_bit 9 flags AND 0x1 \<noteq> 0),
      h_recursion_desired = (drop_bit 8 flags AND 0x1 \<noteq> 0),
      h_recursion_available = (drop_bit 7 flags AND 0x1 \<noteq> 0),
      h_rcode = ucast (flags AND 0xF),
      h_question_count = qd, h_answer_count = an, h_authority_count = ns, h_additional_count = ar\<rparr>"

definition parse_header :: "reader \<Rightarrow> (header option \<times> reader) exec" where
  "parse_header r =
     bind_exec (read_u16 r) (\<lambda>(i, r).
     bind_exec (read_u16 r) (\<lambda>(flags, r).
     bind_exec (read_u16 r) (\<lambda>(qd, r).
     bind_exec (read_u16 r) (\<lambda>(an, r).
     bind_exec (read_u16 r) (\<lambda>(ns, r).
     bind_exec (read_u16 r) (\<lambda>(ar, r).
       if i = None \<or> flags = None \<or> qd = None \<or> an = None \<or> ns = None \<or> ar = None
       then Done (None, r)
       else Done (Some (unpack_header (the i) (the flags) (the qd) (the an) (the ns) (the ar)), r)))))))"

definition header_flags :: "header \<Rightarrow> u16" where
  "header_flags h =
     (let flags = 0 OR push_bit 15 (of_bool (h_response h));
          flags = flags OR push_bit 11 (ucast (h_opcode h) AND 0xF);
          flags = flags OR push_bit 10 (of_bool (h_authoritative h));
          flags = flags OR push_bit 9 (of_bool (h_truncated h));
          flags = flags OR push_bit 8 (of_bool (h_recursion_desired h));
          flags = flags OR push_bit 7 (of_bool (h_recursion_available h))
      in flags OR (ucast (h_rcode h) AND 0xF))"

definition write_header :: "header \<Rightarrow> writer \<Rightarrow> writer" where
  "write_header h w =
     write_u16 (h_additional_count h) (write_u16 (h_authority_count h)
       (write_u16 (h_answer_count h) (write_u16 (h_question_count h)
         (write_u16 (header_flags h) (write_u16 (h_id h) w)))))"

section \<open>The flag word\<close>


lemma nibble_mask: "(0xF :: 'a::len word) = mask 4"
  by (simp add: mask_numeral)

lemma reserved_mask: "(0xFF8F :: u16) = NOT (push_bit 4 (mask 3))"
  by (simp add: mask_numeral)

lemma flag_bit: "(drop_bit n (w :: 'a::len word) AND 1 \<noteq> 0) \<longleftrightarrow> bit w n"
  by (simp add: bit_iff_and_drop_bit_eq_1 and_one_eq mod_2_eq_odd)

lemma bit_flag: "k < 16 \<Longrightarrow> bit (push_bit k (of_bool b) :: u16) n \<longleftrightarrow> n = k \<and> b"
  by (auto simp: bit_simps)

lemma bit_code: "bit (push_bit 11 (ucast (c :: byte) AND 0xF) :: u16) n \<longleftrightarrow> 11 \<le> n \<and> n < 15 \<and> bit c (n - 11)"
  unfolding nibble_mask by (auto simp: bit_simps)

lemma bit_low_code: "bit (ucast (c :: byte) AND 0xF :: u16) n \<longleftrightarrow> n < 4 \<and> bit c n"
  unfolding nibble_mask by (auto simp: bit_simps)

lemma bit_header_flags:
  "bit (header_flags h) n \<longleftrightarrow>
     n = 15 \<and> h_response h \<or> 11 \<le> n \<and> n < 15 \<and> bit (h_opcode h) (n - 11) \<or>
     n = 10 \<and> h_authoritative h \<or> n = 9 \<and> h_truncated h \<or> n = 8 \<and> h_recursion_desired h \<or>
     n = 7 \<and> h_recursion_available h \<or> n < 4 \<and> bit (h_rcode h) n"
  by (simp add: header_flags_def bit_or_iff bit_flag bit_code bit_low_code disj_assoc del: push_bit_and)

definition norm_header :: "header \<Rightarrow> header" where
  "norm_header h = h\<lparr>h_opcode := h_opcode h AND 0xF, h_rcode := h_rcode h AND 0xF\<rparr>"

lemma unpack_header_flags:
  "unpack_header (h_id h) (header_flags h) (h_question_count h) (h_answer_count h)
     (h_authority_count h) (h_additional_count h) = norm_header h"
proof -
  have "ucast (drop_bit 11 (header_flags h) AND 0xF) = h_opcode h AND 0xF"
    unfolding nibble_mask by (rule bit_word_eqI) (auto simp: bit_simps bit_header_flags)
  moreover have "ucast (header_flags h AND 0xF) = h_rcode h AND 0xF"
    unfolding nibble_mask by (rule bit_word_eqI) (auto simp: bit_simps bit_header_flags)
  ultimately show ?thesis
    by (simp add: unpack_header_def flag_bit bit_header_flags norm_header_def)
qed

lemma bit_unpack_codes:
  "bit (h_opcode (unpack_header i flags qd an ns ar)) n \<longleftrightarrow> n < 4 \<and> bit flags (n + 11)"
  "bit (h_rcode (unpack_header i flags qd an ns ar)) n \<longleftrightarrow> n < 4 \<and> bit flags n"
  unfolding unpack_header_def nibble_mask by (auto simp: bit_simps ac_simps)

lemma header_flags_unpack: "header_flags (unpack_header i flags qd an ns ar) = flags AND 0xFF8F"
proof (rule bit_word_eqI)
  fix n
  assume n: "n < LENGTH(16)"
  let ?h = "unpack_header i flags qd an ns ar"
  have "bit (header_flags ?h) n \<longleftrightarrow>
      (n = 15 \<or> 11 \<le> n \<and> n < 15 \<or> n = 10 \<or> n = 9 \<or> n = 8 \<or> n = 7 \<or> n < 4) \<and> bit flags n"
    unfolding bit_header_flags bit_unpack_codes by (auto simp: unpack_header_def flag_bit)
  also have "\<dots> \<longleftrightarrow> \<not> (4 \<le> n \<and> n < 7) \<and> bit flags n"
    using n by auto
  also have "\<dots> \<longleftrightarrow> bit (flags AND 0xFF8F) n"
    using n unfolding reserved_mask by (auto simp: bit_simps)
  finally show "bit (header_flags ?h) n = bit (flags AND 0xFF8F) n" .
qed
section \<open>The header codec\<close>

definition words6 :: "u16 \<Rightarrow> u16 \<Rightarrow> u16 \<Rightarrow> u16 \<Rightarrow> u16 \<Rightarrow> u16 \<Rightarrow> byte list" where
  "words6 a b c d e f = enc_u16 a @ enc_u16 b @ enc_u16 c @ enc_u16 d @ enc_u16 e @ enc_u16 f"

lemma length_words6 [simp]: "length (words6 a b c d e f) = 12"
  by (simp add: words6_def)

lemma parse_header_words:
  "parse_header (reader_at pre (words6 a b c d e f @ post)) =
   Done (Some (unpack_header a b c d e f), reader_at (pre @ words6 a b c d e f) post)"
proof -
  let ?a = "enc_u16 a" and ?b = "enc_u16 b" and ?c = "enc_u16 c" and ?d = "enc_u16 d"
    and ?e = "enc_u16 e" and ?f = "enc_u16 f"
  show ?thesis
    using u16.get_enc [where x = a and pre = pre and post = "?b @ ?c @ ?d @ ?e @ ?f @ post"]
      u16.get_enc [where x = b and pre = "pre @ ?a" and post = "?c @ ?d @ ?e @ ?f @ post"]
      u16.get_enc [where x = c and pre = "pre @ ?a @ ?b" and post = "?d @ ?e @ ?f @ post"]
      u16.get_enc [where x = d and pre = "pre @ ?a @ ?b @ ?c" and post = "?e @ ?f @ post"]
      u16.get_enc [where x = e and pre = "pre @ ?a @ ?b @ ?c @ ?d" and post = "?f @ post"]
      u16.get_enc [where x = f and pre = "pre @ ?a @ ?b @ ?c @ ?d @ ?e" and post = post]
    by (simp add: parse_header_def words6_def)
qed

definition enc_header :: "header \<Rightarrow> byte list" where
  "enc_header h = words6 (h_id h) (header_flags h) (h_question_count h) (h_answer_count h)
     (h_authority_count h) (h_additional_count h)"

lemma length_enc_header [simp]: "length (enc_header h) = 12"
  by (simp add: enc_header_def)

interpretation header: wire_codec "\<lambda>h w. Done (True, write_header h w)" enc_header parse_header
  "\<lambda>_. True" norm_header
proof unfold_locales
  fix h w
  show "Done (True, write_header h w) = Done (True, w @ enc_header h)"
    by (simp add: write_header_def enc_header_def words6_def)
next
  fix h pre post
  show "parse_header (reader_at pre (enc_header h @ post)) =
      Done (Some (norm_header h), reader_at (pre @ enc_header h) post)"
    unfolding enc_header_def parse_header_words unpack_header_flags ..
qed

section \<open>Messages\<close>

definition type_a :: u16 where "type_a = 1"
definition type_ns :: u16 where "type_ns = 2"
definition type_cname :: u16 where "type_cname = 5"
definition type_soa :: u16 where "type_soa = 6"
definition type_ptr :: u16 where "type_ptr = 12"
definition type_mx :: u16 where "type_mx = 15"
definition type_txt :: u16 where "type_txt = 16"
definition type_aaaa :: u16 where "type_aaaa = 28"
definition class_in :: u16 where "class_in = 1"

record question =
  q_name :: string
  q_type :: u16
  q_class :: u16

record message =
  m_header :: header
  m_questions :: "question list"

definition read_question :: "reader \<Rightarrow> (question option \<times> reader) exec" where
  "read_question r =
     bind_exec (read_name r) (\<lambda>(name, r).
     bind_exec (read_u16 r) (\<lambda>(ty, r).
     bind_exec (read_u16 r) (\<lambda>(cl, r).
       if name = None \<or> ty = None \<or> cl = None then Done (None, r)
       else Done (Some \<lparr>q_name = the name, q_type = the ty, q_class = the cl\<rparr>, r))))"

definition parse_message :: "byte list \<Rightarrow> message option exec" where
  "parse_message datagram =
     bind_exec (parse_header (make_reader datagram)) (\<lambda>(parsed_header, r).
       case parsed_header of None \<Rightarrow> Done None
       | Some h \<Rightarrow>
           bind_exec (get_many read_question (unat (h_question_count h)) [] r) (\<lambda>(qs, r).
             Done (map_option (\<lambda>qs. \<lparr>m_header = h, m_questions = qs\<rparr>) qs)))"

definition write_question :: "question \<Rightarrow> writer \<Rightarrow> (bool \<times> writer) exec" where
  "write_question q w =
     bind_exec (write_name (q_name q) w) (\<lambda>(ok, w).
       if \<not> ok then Done (False, w)
       else Done (True, write_u16 (q_class q) (write_u16 (q_type q) w)))"

definition serialize :: "message \<Rightarrow> byte list option exec" where
  "serialize m =
     (let out_header = (m_header m)\<lparr>h_question_count := of_nat (length (m_questions m))\<rparr>
      in bind_exec (put_many write_question (m_questions m) (write_header out_header []))
           (\<lambda>(ok, w). Done (if ok then Some w else None)))"

definition clear_counts :: "header \<Rightarrow> header" where
  "clear_counts h =
     h\<lparr>h_question_count := 0, h_answer_count := 0, h_authority_count := 0, h_additional_count := 0\<rparr>"

definition message_eq :: "message \<Rightarrow> message \<Rightarrow> bool" where
  "message_eq m m' \<longleftrightarrow>
     clear_counts (m_header m) = clear_counts (m_header m') \<and> m_questions m = m_questions m'"

section \<open>The message codec\<close>

definition enc_question :: "question \<Rightarrow> byte list" where
  "enc_question q = enc_name (q_name q) @ enc_u16 (q_type q) @ enc_u16 (q_class q)"

definition norm_question :: "question \<Rightarrow> question" where
  "norm_question q = q\<lparr>q_name := strip_dot (q_name q)\<rparr>"

definition good_question :: "question \<Rightarrow> bool" where
  "good_question q \<longleftrightarrow> good_name (q_name q)"

interpretation question: wire_codec write_question enc_question read_question good_question norm_question
proof unfold_locales
  fix q w
  assume "good_question q"
  then show "write_question q w = Done (True, w @ enc_question q)"
    by (simp add: write_question_def enc_question_def good_question_def name.put_enc)
next
  fix q pre post
  assume q: "good_question q"
  let ?a = "enc_name (q_name q)" and ?b = "enc_u16 (q_type q)" and ?c = "enc_u16 (q_class q)"
  show "read_question (reader_at pre (enc_question q @ post)) =
      Done (Some (norm_question q), reader_at (pre @ enc_question q) post)"
    using q name.get_enc [where x = "q_name q" and pre = pre and post = "?b @ ?c @ post"]
      u16.get_enc [where x = "q_type q" and pre = "pre @ ?a" and post = "?c @ post"]
      u16.get_enc [where x = "q_class q" and pre = "pre @ ?a @ ?b" and post = post]
    by (simp add: read_question_def enc_question_def norm_question_def good_question_def)
qed

section \<open>Parsing is total\<close>

interpretation sr_header: safe_read parse_header
  by unfold_locales (auto simp: parse_header_def intro!: sr_u16.within_bind)

interpretation sr_question: safe_read read_question
  by unfold_locales
    (auto simp: read_question_def intro!: sr_u16.within_bind sr_name.within_bind)

lemma parse_message_safe: "parse_message d \<noteq> UB"
proof -
  have "reader_ok (make_reader d)" by (simp add: reader_ok_def make_reader_def)
  then obtain h r where h: "parse_header (make_reader d) = Done (h, r)" and r: "reader_ok r"
    using sr_header.safe unfolding within_def by blast
  have "get_many read_question n [] r \<noteq> UB" for n
    using within_not_UB [OF sr_question.get_many_safe [OF r]] .
  with h show ?thesis by (auto simp: parse_message_def exec_simps split: option.splits)
qed

lemma parse_header_Some:
  assumes "parse_header r = Done (Some h, r')" and "reader_ok r"
  shows "reader_ok r' \<and> rd_buffer r' = rd_buffer r \<and> rd_position r' = rd_position r + 12"
proof -
  from assms(1) obtain a b c d e f r1 r2 r3 r4 r5 where
    "read_u16 r = Done (Some a, r1)" "read_u16 r1 = Done (Some b, r2)"
    "read_u16 r2 = Done (Some c, r3)" "read_u16 r3 = Done (Some d, r4)"
    "read_u16 r4 = Done (Some e, r5)" "read_u16 r5 = Done (Some f, r')"
    by (auto simp: parse_header_def exec_simps split: if_splits)
  then show ?thesis
    using assms(2) by (auto dest!: read_u16_Some)
qed

lemma parse_message_count:
  assumes "parse_message d = Done (Some m)"
  shows "12 \<le> length d \<and> length (m_questions m) = unat (h_question_count (m_header m))"
proof -
  have ok: "reader_ok (make_reader d)" by (simp add: reader_ok_def make_reader_def)
  from assms obtain h r qs r' where h: "parse_header (make_reader d) = Done (Some h, r)"
    and "get_many read_question (unat (h_question_count h)) [] r = Done (Some qs, r')"
    and "m = \<lparr>m_header = h, m_questions = qs\<rparr>"
    by (auto simp: parse_message_def exec_simps split: option.splits)
  with parse_header_Some [OF h ok] show ?thesis
    by (auto simp: reader_ok_def make_reader_def dest: get_many_length)
qed

section \<open>Serialisation on every branch, and the round trip\<close>

lemma put_many_refuses:
  assumes "\<not> list_all good_question qs"
  shows "\<exists>w'. put_many write_question qs w = Done (False, w')"
  using assms
proof (induction qs arbitrary: w)
  case Nil
  then show ?case by simp
next
  case (Cons q qs)
  show ?case
  proof (cases "good_question q")
    case True
    with Cons show ?thesis by (simp add: question.put_enc)
  next
    case False
    then show ?thesis
      by (simp add: write_question_def write_name_eq good_question_def good_name_def)
  qed
qed

definition out_header :: "message \<Rightarrow> header" where
  "out_header m = (m_header m)\<lparr>h_question_count := of_nat (length (m_questions m))\<rparr>"

lemma serialize_eq:
  "serialize m = Done (if list_all good_question (m_questions m)
     then Some (enc_header (out_header m) @ concat (map enc_question (m_questions m))) else None)"
proof (cases "list_all good_question (m_questions m)")
  case True
  then show ?thesis
    using header.put_enc [of "out_header m" "[]"]
    by (simp add: serialize_def question.put_many_enc out_header_def)
next
  case False
  from put_many_refuses [OF this] obtain w' where
    "put_many write_question (m_questions m) (write_header (out_header m) []) = Done (False, w')"
    by blast
  with False show ?thesis by (simp add: serialize_def out_header_def)
qed

definition wire_count :: "message \<Rightarrow> nat" where
  "wire_count m = length (m_questions m) mod 65536"

definition norm_message :: "message \<Rightarrow> message" where
  "norm_message m = \<lparr>m_header = norm_header (out_header m),
     m_questions = take (wire_count m) (map norm_question (m_questions m))\<rparr>"

lemma parse_serialize:
  assumes "serialize m = Done (Some bytes)"
  shows "parse_message (bytes @ trailer) = Done (Some (norm_message m))"
proof -
  let ?h = "enc_header (out_header m)" and ?qs = "concat (map enc_question (m_questions m))"
  from assms have good: "list_all good_question (m_questions m)" and bytes: "bytes = ?h @ ?qs"
    by (auto simp: serialize_eq split: if_splits)
  have "parse_header (make_reader (bytes @ trailer))
      = Done (Some (norm_header (out_header m)), reader_at ?h (?qs @ trailer))"
    using header.get_enc [where x = "out_header m" and pre = "[]" and post = "?qs @ trailer"]
    by (simp add: bytes make_reader_def)
  moreover have "unat (h_question_count (norm_header (out_header m))) = wire_count m"
    by (simp add: norm_header_def out_header_def wire_count_def unat_of_nat)
  moreover have "wire_count m \<le> length (m_questions m)"
    by (simp add: wire_count_def)
  ultimately show ?thesis
    using question.get_many_take [OF good, of "wire_count m" ?h trailer]
    by (simp add: parse_message_def norm_message_def)
qed

section \<open>Properties\<close>

text \<open>C15: parsing is total. Whatever the datagram (empty, a lone header, a lying QDCOUNT, nested or
  looping compression pointers), \<^verbatim>\<open>message::parse\<close> has a defined outcome, and a message it accepts
  has a full 12-byte header and exactly QDCOUNT questions.\<close>

theorem parse_message_total:
  "\<exists>res. parse_message d = Done res \<and>
     (case res of None \<Rightarrow> True
      | Some m \<Rightarrow> 12 \<le> length d \<and> length (m_questions m) = unat (h_question_count (m_header m)))"
proof -
  obtain res where "parse_message d = Done res"
    using parse_message_safe by (auto simp: exec_not_UB_iff)
  with parse_message_count show ?thesis by (auto split: option.splits)
qed

text \<open>\<^verbatim>\<open>serialize\<close> refuses a message only because of a name: it returns \<^verbatim>\<open>nullopt\<close> exactly when
  some question's name has an empty label or one longer than 63 bytes, and it is never undefined.
  What it writes is the header with QDCOUNT refreshed and the three other counts left as they are,
  then the questions in order.\<close>

theorem serialize_correct:
  "serialize m = Done (if \<exists>q \<in> set (m_questions m). \<exists>l \<in> set (split_dots (q_name q)). l = [] \<or> 63 < length l
     then None
     else Some (write_header ((m_header m)\<lparr>h_question_count := of_nat (length (m_questions m))\<rparr>) []
       @ concat (map (\<lambda>q. encode_labels (split_dots (q_name q)) @ enc_u16 (q_type q) @ enc_u16 (q_class q))
           (m_questions m))))"
proof -
  have "list_all good_question (m_questions m) \<longleftrightarrow>
    \<not> (\<exists>q \<in> set (m_questions m). \<exists>l \<in> set (split_dots (q_name q)). l = [] \<or> 63 < length l)"
    by (auto simp: list_all_iff good_question_def good_name_def good_label_def not_less)
  then show ?thesis
    using header.put_enc [of "out_header m" "[]"]
    by (simp add: serialize_eq out_header_def enc_question_def [abs_def] enc_name_def)
qed

text \<open>the header codec is lossless but for the reserved bits. Parsing any twelve bytes and writing
  the result gives the same bytes with the three Z bits of the flag word cleared; writing any header
  and parsing it gives the header back with its two codes reduced to four bits.\<close>

theorem header_roundtrip:
  "(\<exists>h. parse_header (make_reader (words6 i flags qd an ns ar))
       = Done (Some h, seek 12 (make_reader (words6 i flags qd an ns ar))) \<and>
     write_header h [] = words6 i (flags AND 0xFF8F) qd an ns ar) \<and>
   parse_header (make_reader (write_header g []))
     = Done (Some (g\<lparr>h_opcode := h_opcode g AND 0xF, h_rcode := h_rcode g AND 0xF\<rparr>),
         seek 12 (make_reader (write_header g [])))"
proof -
  have "parse_header (make_reader (words6 i flags qd an ns ar))
      = Done (Some (unpack_header i flags qd an ns ar), seek 12 (make_reader (words6 i flags qd an ns ar)))"
    using parse_header_words [of "[]" i flags qd an ns ar "[]"] by (simp add: make_reader_def seek_def)
  moreover have "write_header (unpack_header i flags qd an ns ar) [] = words6 i (flags AND 0xFF8F) qd an ns ar"
    by (simp add: write_header_def words6_def header_flags_unpack) (simp add: unpack_header_def)
  ultimately show ?thesis
    using header.get_put [OF TrueI refl, where w = "[]" and x = g and post = "[]"]
      header.put_enc [of g "[]"]
    by (simp add: make_reader_def seek_def norm_header_def)
qed

text \<open>C10: the message round trip. What \<^verbatim>\<open>serialize\<close> produces, with any bytes after it, parses back to
  the message itself up to what the wire format keeps: QDCOUNT is the number of questions modulo
  65536 (so only that many are read back), the two codes are 4 bits wide, and a trailing dot of a
  name is dropped.\<close>

theorem message_roundtrip:
  assumes "serialize m = Done (Some bytes)"
  shows "parse_message (bytes @ trailer) = Done (Some
    \<lparr>m_header = (m_header m)\<lparr>h_opcode := h_opcode (m_header m) AND 0xF,
       h_rcode := h_rcode (m_header m) AND 0xF,
       h_question_count := of_nat (length (m_questions m))\<rparr>,
     m_questions = take (length (m_questions m) mod 65536)
       (map (\<lambda>q. q\<lparr>q_name := strip_dot (q_name q)\<rparr>) (m_questions m))\<rparr>)"
  using parse_serialize [OF assms, of trailer]
  by (simp add: norm_message_def norm_header_def out_header_def wire_count_def norm_question_def [abs_def])

definition example_query :: message where
  "example_query = \<lparr>m_header = default_header\<lparr>h_id := 0x1234, h_recursion_desired := True\<rparr>,
     m_questions = [\<lparr>q_name = ''a.b'', q_type = type_a, q_class = class_in\<rparr>]\<rparr>"

definition example_bytes :: "byte list" where
  "example_bytes = [0x12, 0x34, 0x01, 0x00, 0, 1, 0, 0, 0, 0, 0, 0, 1, 97, 1, 98, 0, 0, 1, 0, 1]"

lemma serialize_example: "serialize example_query = Done (Some example_bytes)"
  by (simp add: serialize_eq example_query_def example_bytes_def good_question_def good_name_def
      good_label_def out_header_def enc_header_def words6_def enc_question_def enc_name_def encode_labels_def
      encode_label_def enc_u16_def header_flags_def default_header_def opcode_query_def
      rcode_no_error_def type_a_def class_in_def byte_of_char_def)

theorem message_roundtrip_witness:
  "parse_message (example_bytes @ [7]) = Done (Some (example_query\<lparr>m_header :=
     (m_header example_query)\<lparr>h_question_count := 1\<rparr>\<rparr>))"
  using message_roundtrip [OF serialize_example, of "[7]"]
  by (simp add: example_query_def default_header_def opcode_query_def rcode_no_error_def
      strip_dot_def type_a_def)

lemma wire_count_small: "length (m_questions m) < 65536 \<Longrightarrow> wire_count m = length (m_questions m)"
  by (simp add: wire_count_def)

text \<open>content equality. A message with fewer than 65536 questions, codes within four bits and names
  without a trailing dot compares equal (\<^verbatim>\<open>operator==\<close>, which ignores the four section counts) to
  what is parsed back from its serialisation.\<close>

theorem content_roundtrip:
  assumes "serialize m = Done (Some bytes)"
    and "length (m_questions m) < 65536"
    and "h_opcode (m_header m) AND 0xF = h_opcode (m_header m)"
    and "h_rcode (m_header m) AND 0xF = h_rcode (m_header m)"
    and "\<forall>q \<in> set (m_questions m). strip_dot (q_name q) = q_name q"
  shows "\<exists>m'. parse_message bytes = Done (Some m') \<and> message_eq m m' \<and> message_eq m' m"
proof -
  have "map norm_question (m_questions m) = m_questions m"
    using assms(5) by (auto simp: norm_question_def intro!: map_idI)
  then have "message_eq m (norm_message m)"
    using assms(3,4) wire_count_small [OF assms(2)]
    by (simp add: message_eq_def norm_message_def clear_counts_def norm_header_def out_header_def)
  then show ?thesis
    using parse_serialize [OF assms(1), of "[]"] by (auto simp: message_eq_def)
qed

theorem content_roundtrip_witness:
  "\<exists>m'. parse_message example_bytes = Done (Some m') \<and> message_eq example_query m' \<and>
     message_eq m' example_query"
proof (rule content_roundtrip [OF serialize_example])
  show "length (m_questions example_query) < 65536"
    and "h_opcode (m_header example_query) AND 0xF = h_opcode (m_header example_query)"
    and "h_rcode (m_header example_query) AND 0xF = h_rcode (m_header example_query)"
    and "\<forall>q \<in> set (m_questions example_query). strip_dot (q_name q) = q_name q"
    by (simp_all add: example_query_def default_header_def opcode_query_def rcode_no_error_def
        strip_dot_def)
qed

end
