(* ===== verification/Dns_Server.thy ===== *)
theory Dns_Server
  imports Udp_Peer Dns_Message
begin

text \<open>
  \<^verbatim>\<open>protocol::dns::server\<close> (protocol/dns/server.hpp): a UDP peer whose datagrams are parsed and announced
  as queries, each with a responder. The server's state extends that of its peer; \<open>d_wired\<close> counts the
  calls of \<^verbatim>\<open>listen\<close>, each of which adds its own listeners to the peer. \<open>lst e\<close> is what the listeners of
  the server's event \<open>e\<close> do.
\<close>

record responder =
  r_peer :: bool
  r_to :: socket_address
  r_id :: u16

datatype dns_event =
    Dns_listening
  | Query message responder
  | Dns_error string
  | Dns_closed

record ('k, 'c) dns_server = "('k, 'c) udp" +
  d_wired :: nat
  d_events :: "dns_event list"

type_synonym ('k, 'c, 'z) dns_listeners =
  "dns_event \<Rightarrow> ('k, 'c, 'z) dns_server_scheme \<Rightarrow> ('k, 'c, 'z) dns_server_scheme"

definition dns_server_create :: "'c \<Rightarrow> 'c event_loop \<Rightarrow> 'k \<Rightarrow> ('k, 'c) dns_server" where
  "dns_server_create cb loop k = udp.extend (udp_create ''udp4'' cb loop k) \<lparr>d_wired = 0, d_events = []\<rparr>"

definition dns_emit ::
  "('k, 'c, 'z) dns_listeners \<Rightarrow> dns_event \<Rightarrow> ('k, 'c, 'z) dns_server_scheme \<Rightarrow> ('k, 'c, 'z) dns_server_scheme" where
  "dns_emit lst e w = lst e (w\<lparr>d_events := d_events w @ [e]\<rparr>)"

text \<open>
  What the listeners added by one call of \<^verbatim>\<open>listen\<close> do on an event of the peer. Parsing and serialising
  are never undefined, so that the \<open>UB\<close> branches are never taken.
\<close>

definition on_peer ::
  "('k, 'c, 'z) dns_listeners \<Rightarrow> udp_event \<Rightarrow> ('k, 'c, 'z) dns_server_scheme \<Rightarrow> ('k, 'c, 'z) dns_server_scheme" where
  "on_peer lst e w =
     (case e of
        Message datagram from \<Rightarrow>
          (case parse_message datagram of
             UB \<Rightarrow> w
           | Done None \<Rightarrow> dns_emit lst (Dns_error ''dropped a malformed query datagram'') w
           | Done (Some request) \<Rightarrow>
               dns_emit lst (Query request \<lparr>r_peer = True, r_to = from, r_id = h_id (m_header request)\<rparr>) w)
      | Error_event m \<Rightarrow> dns_emit lst (Dns_error m) w
      | Listening \<Rightarrow> dns_emit lst Dns_listening w
      | Closed \<Rightarrow> w)"

text \<open>An emission calls the listeners there are when it starts.\<close>

definition peer_listeners ::
  "('k, 'c, 'z) dns_listeners \<Rightarrow> udp_event \<Rightarrow> ('k, 'c, 'z) dns_server_scheme \<Rightarrow> ('k, 'c, 'z) dns_server_scheme" where
  "peer_listeners lst e w = (on_peer lst e ^^ d_wired w) w"

definition dns_listen ::
  "'k os \<Rightarrow> ('k, 'c, 'z) dns_listeners \<Rightarrow> u16 \<Rightarrow> string \<Rightarrow> ('k, 'c, 'z) dns_server_scheme \<Rightarrow> ('k, 'c, 'z) dns_server_scheme" where
  "dns_listen os lst port address w =
     udp_bind os (peer_listeners lst) port address (w\<lparr>d_wired := d_wired w + 1\<rparr>)"

definition dns_close ::
  "'k os \<Rightarrow> ('k, 'c, 'z) dns_listeners \<Rightarrow> ('k, 'c, 'z) dns_server_scheme \<Rightarrow> ('k, 'c, 'z) dns_server_scheme" where
  "dns_close os lst w = dns_emit lst Dns_closed (udp_close os (peer_listeners lst) w)"

definition stamp :: "responder \<Rightarrow> message \<Rightarrow> message" where
  "stamp r reply = reply\<lparr>m_header := (m_header reply)\<lparr>h_id := r_id r, h_response := True\<rparr>\<rparr>"

definition responder_send ::
  "'k os \<Rightarrow> ('k, 'c, 'z) dns_listeners \<Rightarrow> responder \<Rightarrow> message \<Rightarrow> ('k, 'c, 'z) dns_server_scheme \<Rightarrow>
   bool \<times> ('k, 'c, 'z) dns_server_scheme" where
  "responder_send os lst r reply w =
     (case serialize (stamp r reply) of
        UB \<Rightarrow> (False, w)
      | Done None \<Rightarrow> (False, w)
      | Done (Some wire) \<Rightarrow>
          if \<not> r_peer r then (False, w)
          else udp_send os (peer_listeners lst) wire (sa_port (r_to r)) (sa_address (r_to r)) w)"

section \<open>Replies\<close>

text \<open>Listeners that answer every query with \<open>answer\<close> of it.\<close>

definition replying :: "'k os \<Rightarrow> (message \<Rightarrow> message) \<Rightarrow> ('k, 'c, 'z) dns_listeners" where
  "replying os answer e w =
     (case e of Query m r \<Rightarrow> snd (responder_send os (\<lambda>_ w. w) r (answer m) w) | _ \<Rightarrow> w)"

lemma serialize_stamp:
  "serialize reply = Done (Some b) \<Longrightarrow> \<exists>wire. serialize (stamp r reply) = Done (Some wire)"
  by (auto simp: serialize_eq stamp_def split: if_splits)

lemma more_server: "udp.more w' = udp.more w \<Longrightarrow> d_wired w' = d_wired w \<and> d_events w' = d_events w"
  by (cases w; cases w'; simp)

lemma reply_sent:
  assumes "records_sends os sent" and "valid (u_fd w)" and "resolve_one os (sa_address src) (sa_port src) True = Some dest"
    and "d_wired w = 1" and "parse_message datagram = Done (Some m)" and "serialize (answer m) = Done (Some b)"
  shows "\<exists>r wire. r_id r = h_id (m_header m) \<and> serialize (stamp r (answer m)) = Done (Some wire)
    \<and> sent (u_os (peer_listeners (replying os answer) (Message datagram src) w))
        = sent (u_os w) @ [(wire, to_sockaddr (os_inet os) dest)]
    \<and> d_events (peer_listeners (replying os answer) (Message datagram src) w) = d_events w @ [Query m r]"
proof -
  let ?r = "\<lparr>r_peer = True, r_to = src, r_id = h_id (m_header m)\<rparr>"
  let ?w = "w\<lparr>d_events := d_events w @ [Query m ?r]\<rparr>"
  obtain wire where wire: "serialize (stamp ?r (answer m)) = Done (Some wire)"
    using serialize_stamp [OF assms(6)] by blast
  obtain w' where w': "udp_send os (peer_listeners (\<lambda>_ w. w)) wire (sa_port src) (sa_address src) ?w = (True, w')"
    "udp.more w' = udp.more ?w" "sent (u_os w') = sent (u_os w) @ [(wire, to_sockaddr (os_inet os) dest)]"
    using send_taken [OF assms(1) _ assms(3), where w = ?w] assms(2) by auto
  have "peer_listeners (replying os answer) (Message datagram src) w = w'"
    using assms(4,5) wire w'(1)
    by (simp add: peer_listeners_def on_peer_def dns_emit_def replying_def responder_send_def)
  moreover have "r_id ?r = h_id (m_header m)" by simp
  ultimately show ?thesis
    using wire w'(3) more_server [OF w'(2)] by (intro exI [of _ ?r] exI [of _ wire]) simp
qed

lemma parse_stamped:
  assumes "serialize (stamp r reply) = Done (Some wire)"
  shows "\<exists>m. parse_message (wire @ trailer) = Done (Some m) \<and> h_id (m_header m) = r_id r \<and> h_response (m_header m)
    \<and> m_questions m = m_questions (norm_message reply)
    \<and> h_rcode (m_header m) = h_rcode (m_header reply) AND 0xF"
  using parse_serialize [OF assms, of trailer]
  by (simp add: norm_message_def norm_header_def out_header_def stamp_def wire_count_def)

text \<open>
  C25: A server whose listeners answer queries sends for each well-formed query one datagram, to the
  address the query came from. It parses to the answer given, with the id of the query and the
  response bit set whatever the answer had there. A malformed datagram is reported and nothing is
  sent for it.
\<close>

theorem server_replies:
  assumes "records_sends os sent" and "valid (u_fd w)" and "resolve_one os (sa_address src) (sa_port src) True = Some dest"
    and "d_wired w = 1" and "w' = peer_listeners (replying os answer) (Message datagram src) w"
  shows "(\<forall>m b. parse_message datagram = Done (Some m) \<and> serialize (answer m) = Done (Some b) \<longrightarrow>
      (\<exists>wire reply. sent (u_os w') = sent (u_os w) @ [(wire, to_sockaddr (os_inet os) dest)]
        \<and> parse_message wire = Done (Some reply)
        \<and> h_id (m_header reply) = h_id (m_header m) \<and> h_response (m_header reply)
        \<and> m_questions reply = m_questions (norm_message (answer m))))
    \<and> (parse_message datagram = Done None \<longrightarrow> u_os w' = u_os w
        \<and> d_events w' = d_events w @ [Dns_error ''dropped a malformed query datagram''])"
proof -
  have "\<exists>wire reply. sent (u_os w') = sent (u_os w) @ [(wire, to_sockaddr (os_inet os) dest)]
      \<and> parse_message wire = Done (Some reply) \<and> h_id (m_header reply) = h_id (m_header m) \<and> h_response (m_header reply)
      \<and> m_questions reply = m_questions (norm_message (answer m))"
    if "parse_message datagram = Done (Some m)" "serialize (answer m) = Done (Some b)" for m b
    using reply_sent [where answer = answer, OF assms(1-4) that] parse_stamped [where trailer = "[]"] unfolding assms(5)
    by (metis append_Nil2)
  then show ?thesis
    using assms(4,5) by (auto simp: peer_listeners_def on_peer_def dns_emit_def replying_def)
qed

definition open_server :: "((byte list \<times> sockaddr) list, nat) dns_server" where
  "open_server = (dns_server_create 0 (make_loop 3) [])\<lparr>u_fd := \<lparr>owned_fd = 8\<rparr>, d_wired := 1\<rparr>"

lemma open_server_fields: "valid (u_fd open_server)" "d_wired open_server = 1" "u_os open_server = []"
  by (simp_all add: open_server_def dns_server_create_def udp.defs udp_create_def dns_server.defs valid_def)

theorem server_replies_witness:
  "\<exists>wire reply a. u_os (peer_listeners (replying mail_os (\<lambda>_. example_query)) (Message example_bytes null_address) open_server)
      = [(wire, a)] \<and> parse_message wire = Done (Some reply) \<and> h_id (m_header reply) = 0x1234 \<and> h_response (m_header reply)"
proof -
  have p: "parse_message example_bytes = Done (Some (norm_message example_query))"
    using parse_serialize [OF serialize_example, of "[]"] by simp
  have i: "h_id (m_header (norm_message example_query)) = 0x1234"
    by (simp add: norm_message_def norm_header_def out_header_def example_query_def)
  from server_replies [OF mail_os_records open_server_fields(1) mail_os_resolves open_server_fields(2) refl,
      where src = null_address and answer = "\<lambda>_. example_query" and datagram = example_bytes] p serialize_example
  show ?thesis by (simp add: open_server_fields(3) i) blast
qed

section \<open>Where the server departs from its description\<close>

text \<open>
  Calling \<^verbatim>\<open>listen\<close> again, for instance after a bind that failed, adds the listeners a second time: each
  query is then announced twice.
\<close>

lemma listen_twice_announces_twice:
  assumes "d_wired w = 2" and "parse_message datagram = Done (Some m)"
  shows "\<exists>r. d_events (peer_listeners (\<lambda>_ w. w) (Message datagram from) w) = d_events w @ [Query m r, Query m r]"
  using assms by (simp add: peer_listeners_def on_peer_def dns_emit_def numeral_2_eq_2)

text \<open>\<^verbatim>\<open>close\<close> announces the close of a server that is not open.\<close>

lemma close_announced_unopened:
  "\<not> valid (u_fd w) \<Longrightarrow> d_events (dns_close os (\<lambda>_ w. w) w) = d_events w @ [Dns_closed]"
  by (simp add: dns_close_def udp_close_def dns_emit_def)

end
