(* ===== verification/Dns_Client.thy ===== *)
theory Dns_Client
  imports Udp_Peer Dns_Message "HOL-Library.Multiset"
begin

text \<open>
  \<^verbatim>\<open>protocol::dns::client\<close> (protocol/dns/client.hpp): questions in flight, by transaction id, on top of a
  UDP peer. The client's state extends that of its peer. Answer handlers are named by values of type
  \<open>'h\<close>; \<open>hdl h a\<close> is what handler \<open>h\<close> does to the state when it is called with \<open>a\<close>, and \<open>err m\<close> what the
  listeners of \<^verbatim>\<open>on_error\<close> do. \<open>c_calls\<close> and \<open>c_asked\<close> record the handlers called and those handed over
  by questions; the code does not read them.
\<close>

record ('k, 'c, 'h) dns_client = "('k, 'c) udp" +
  c_host :: string
  c_port :: u16
  c_timeout :: int
  c_pending :: "(u16 \<times> 'h \<times> u64) list"
  c_expire :: "u16 \<Rightarrow> 'c"
  c_errors :: "string list"
  c_calls :: "('h \<times> message option) list"
  c_asked :: "'h list"

type_synonym ('k, 'c, 'h, 'z) handlers =
  "'h \<Rightarrow> message option \<Rightarrow> ('k, 'c, 'h, 'z) dns_client_scheme \<Rightarrow> ('k, 'c, 'h, 'z) dns_client_scheme"

type_synonym ('k, 'c, 'h, 'z) error_listeners =
  "string \<Rightarrow> ('k, 'c, 'h, 'z) dns_client_scheme \<Rightarrow> ('k, 'c, 'h, 'z) dns_client_scheme"

definition client_create ::
  "string \<Rightarrow> u16 \<Rightarrow> 'c \<Rightarrow> (u16 \<Rightarrow> 'c) \<Rightarrow> 'c event_loop \<Rightarrow> 'k \<Rightarrow> ('k, 'c, 'h) dns_client" where
  "client_create host port drain_cb expire_cb loop k =
     udp.extend (udp_create ''udp4'' drain_cb loop k)
       \<lparr>c_host = host, c_port = port, c_timeout = 5000, c_pending = [], c_expire = expire_cb, c_errors = [],
        c_calls = [], c_asked = []\<rparr>"

definition client_set_timeout :: "int \<Rightarrow> ('k, 'c, 'h, 'z) dns_client_scheme \<Rightarrow> ('k, 'c, 'h, 'z) dns_client_scheme" where
  "client_set_timeout ms w = w\<lparr>c_timeout := ms\<rparr>"

definition outstanding :: "('k, 'c, 'h, 'z) dns_client_scheme \<Rightarrow> nat" where
  "outstanding w = length (c_pending w)"

definition client_error ::
  "('k, 'c, 'h, 'z) error_listeners \<Rightarrow> string \<Rightarrow> ('k, 'c, 'h, 'z) dns_client_scheme \<Rightarrow> ('k, 'c, 'h, 'z) dns_client_scheme" where
  "client_error err m w = err m (w\<lparr>c_errors := c_errors w @ [m]\<rparr>)"

definition call_handler ::
  "('k, 'c, 'h, 'z) handlers \<Rightarrow> 'h \<Rightarrow> message option \<Rightarrow> ('k, 'c, 'h, 'z) dns_client_scheme \<Rightarrow> ('k, 'c, 'h, 'z) dns_client_scheme" where
  "call_handler hdl h a w = hdl h a (w\<lparr>c_calls := c_calls w @ [(h, a)]\<rparr>)"

text \<open>The pending questions are a map: \<^verbatim>\<open>emplace\<close> leaves an entry that is there, \<^verbatim>\<open>erase\<close> removes one.\<close>

definition emplace :: "'i \<Rightarrow> 'a \<Rightarrow> ('i \<times> 'a) list \<Rightarrow> ('i \<times> 'a) list" where
  "emplace i x m = (if map_of m i = None then m @ [(i, x)] else m)"

definition erase_key :: "'i \<Rightarrow> ('i \<times> 'a) list \<Rightarrow> ('i \<times> 'a) list" where
  "erase_key i m = filter (\<lambda>e. fst e \<noteq> i) m"

definition client_resolve ::
  "('k, 'c, 'h, 'z) handlers \<Rightarrow> u16 \<Rightarrow> message option \<Rightarrow> ('k, 'c, 'h, 'z) dns_client_scheme \<Rightarrow> ('k, 'c, 'h, 'z) dns_client_scheme" where
  "client_resolve hdl i answer w =
     (case map_of (c_pending w) i of
        None \<Rightarrow> w
      | Some (h, t) \<Rightarrow>
          let w = w\<lparr>c_pending := erase_key i (c_pending w)\<rparr>;
              w = w\<lparr>u_loop := clear_timeout t (u_loop w)\<rparr>
          in call_handler hdl h answer w)"

definition expire ::
  "('k, 'c, 'h, 'z) handlers \<Rightarrow> u16 \<Rightarrow> ('k, 'c, 'h, 'z) dns_client_scheme \<Rightarrow> ('k, 'c, 'h, 'z) dns_client_scheme" where
  "expire hdl i w = client_resolve hdl i None w"

text \<open>
  \<^verbatim>\<open>wire_up\<close>: what the client does on the events of its peer. Parsing is never undefined
  (\<open>parse_message_safe\<close>), so that the \<open>UB\<close> branches here and in \<open>client_query\<close> are never taken.
\<close>

definition wire_up ::
  "('k, 'c, 'h, 'z) handlers \<Rightarrow> ('k, 'c, 'h, 'z) error_listeners \<Rightarrow> udp_event \<Rightarrow>
   ('k, 'c, 'h, 'z) dns_client_scheme \<Rightarrow> ('k, 'c, 'h, 'z) dns_client_scheme" where
  "wire_up hdl err e w =
     (case e of
        Message datagram _ \<Rightarrow>
          (case parse_message datagram of
             UB \<Rightarrow> w
           | Done None \<Rightarrow> client_error err ''received a malformed DNS response'' w
           | Done (Some parsed) \<Rightarrow> client_resolve hdl (h_id (m_header parsed)) (Some parsed) w)
      | Error_event m \<Rightarrow> client_error err m w
      | Listening \<Rightarrow> w
      | Closed \<Rightarrow> w)"

definition request :: "u16 \<Rightarrow> string \<Rightarrow> u16 \<Rightarrow> message" where
  "request i name type =
     \<lparr>m_header = default_header\<lparr>h_id := i, h_recursion_desired := True\<rparr>,
      m_questions = [\<lparr>q_name = name, q_type = type, q_class = class_in\<rparr>]\<rparr>"

text \<open>\<open>i\<close> is the transaction id drawn by \<^verbatim>\<open>next_id\<close>, \<open>now\<close> the time of the call.\<close>

definition client_query ::
  "'k os \<Rightarrow> ('k, 'c, 'h, 'z) handlers \<Rightarrow> ('k, 'c, 'h, 'z) error_listeners \<Rightarrow> int \<Rightarrow> u16 \<Rightarrow> string \<Rightarrow> u16 \<Rightarrow> 'h \<Rightarrow>
   ('k, 'c, 'h, 'z) dns_client_scheme \<Rightarrow> ('k, 'c, 'h, 'z) dns_client_scheme" where
  "client_query os hdl err now i name type on_answer w =
     (case serialize (request i name type) of
        UB \<Rightarrow> w
      | Done None \<Rightarrow>
          let w = client_error err (''invalid question name: '' @ name) w
          in call_handler hdl on_answer None (w\<lparr>c_asked := c_asked w @ [on_answer]\<rparr>)
      | Done (Some wire) \<Rightarrow>
          let (t, loop) = set_timeout now (c_timeout w) (c_expire w i) (u_loop w);
              w = w\<lparr>u_loop := loop, c_pending := emplace i (on_answer, t) (c_pending w),
                    c_asked := c_asked w @ [on_answer]\<rparr>;
              (sent, w) = udp_send os (wire_up hdl err) wire (c_port w) (c_host w) w
          in if sent then w else client_resolve hdl i None w)"

text \<open>The loop takes a due timer from its list and runs the client's callback.\<close>

definition timer_fires ::
  "('k, 'c, 'h, 'z) handlers \<Rightarrow> u16 \<Rightarrow> u64 \<Rightarrow> ('k, 'c, 'h, 'z) dns_client_scheme \<Rightarrow> ('k, 'c, 'h, 'z) dns_client_scheme" where
  "timer_fires hdl i t w = expire hdl i (w\<lparr>u_loop := clear_timeout t (u_loop w)\<rparr>)"

section \<open>Every handler is called once\<close>

definition armed :: "('k, 'c, 'h, 'z) dns_client_scheme \<Rightarrow> u16 \<Rightarrow> u64 \<Rightarrow> bool" where
  "armed w i t \<longleftrightarrow> (\<exists>tm \<in> set (timers (u_loop w)). tm_id tm = t \<and> tm_fn tm = c_expire w i)"

text \<open>
  Every handler handed over has been called once or is pending, under a transaction id of its own; each
  pending question, those in \<open>X\<close> apart, has a timer armed in the loop that will expire it.
\<close>

definition client_ok :: "u16 set \<Rightarrow> ('k, 'c, 'h, 'z) dns_client_scheme \<Rightarrow> bool" where
  "client_ok X w \<longleftrightarrow>
     mset (c_asked w) = mset (map fst (c_calls w)) + mset (map (\<lambda>(i, h, t). h) (c_pending w))
     \<and> distinct (map fst (c_pending w)) \<and> distinct (map (\<lambda>(i, h, t). t) (c_pending w))
     \<and> (\<forall>(i, h, t) \<in> set (c_pending w). t < next_timer_id (u_loop w) \<and> (i \<notin> X \<longrightarrow> armed w i t))
     \<and> distinct (map tm_id (timers (u_loop w)))
     \<and> (\<forall>tm \<in> set (timers (u_loop w)). tm_id tm < next_timer_id (u_loop w))
     \<and> inj (c_expire w)"

abbreviation client_inv :: "('k, 'c, 'h, 'z) dns_client_scheme \<Rightarrow> bool" where
  "client_inv \<equiv> client_ok {}"

definition handlers_keep :: "('k, 'c, 'h, 'z) handlers \<Rightarrow> ('k, 'c, 'h, 'z) error_listeners \<Rightarrow> bool" where
  "handlers_keep hdl err \<longleftrightarrow> (\<forall>h a w. client_inv w \<longrightarrow> client_inv (hdl h a w)) \<and> (\<forall>m w. client_inv w \<longrightarrow> client_inv (err m w))"

lemma erase_key_mset:
  "distinct (map fst m) \<Longrightarrow> map_of m i = Some x \<Longrightarrow> mset m = add_mset (i, x) (mset (erase_key i m))"
proof (induction m)
  case (Cons e m)
  show ?case
  proof (cases "fst e = i")
    case True
    with Cons.prems(1) have "erase_key i m = m"
      by (auto simp: erase_key_def filter_id_conv image_iff)
    with True Cons.prems(2) show ?thesis by (cases e) (simp add: erase_key_def)
  next
    case False
    with Cons show ?thesis by (cases e) (simp add: erase_key_def)
  qed
qed simp

lemma distinct_erase [simp]: "distinct (map f m) \<Longrightarrow> distinct (map f (erase_key i m))"
  by (simp add: erase_key_def distinct_map_filter)

lemma set_erase [simp]: "set (erase_key i m) = {e \<in> set m. fst e \<noteq> i}"
  by (auto simp: erase_key_def)

lemma client_ok_frame: "peer_frame (client_ok X)"
  by (simp add: peer_frame_def client_ok_def armed_def)

lemma client_ok_weaken: "client_inv w \<Longrightarrow> client_ok X w"
  by (auto simp: client_ok_def)

text \<open>The state in which a resolved handler is called.\<close>

lemma resolved_ok:
  assumes "client_ok {i} w" and "map_of (c_pending w) i = Some (h, t)"
  shows "client_inv (w\<lparr>c_pending := erase_key i (c_pending w), u_loop := clear_timeout t (u_loop w),
    c_calls := c_calls w @ [(h, a)]\<rparr>)"
proof -
  have "mset (c_pending w) = add_mset (i, h, t) (mset (erase_key i (c_pending w)))"
    using erase_key_mset [OF _ assms(2)] assms(1) by (simp add: client_ok_def)
  from arg_cong [OF this, of "image_mset (\<lambda>(i, h, t). h)"]
  have "mset (map (\<lambda>(i, h, t). h) (c_pending w)) = add_mset h (mset (map (\<lambda>(i, h, t). h) (erase_key i (c_pending w))))"
    by simp
  moreover have other: "t' \<noteq> t" if "(j, h', t') \<in> set (c_pending w)" "j \<noteq> i" for j h' t'
  proof
    assume "t' = t"
    moreover have "(i, h, t) \<in> set (c_pending w)" using assms(2) by (rule map_of_SomeD)
    moreover have "inj_on (\<lambda>(i, h, t). t) (set (c_pending w))"
      using assms(1) by (simp add: client_ok_def distinct_map)
    ultimately have "(j, h', t') = (i, h, t)"
      using that(1) by (metis (mono_tags, lifting) case_prod_conv inj_onD)
    with that(2) show False by simp
  qed
  moreover have "armed (w\<lparr>u_loop := clear_timeout t (u_loop w)\<rparr>) j t'"
    if "(j, h', t') \<in> set (c_pending w)" "j \<noteq> i" for j h' t'
    using assms(1) that other [OF that] by (fastforce simp: client_ok_def armed_def clear_timeout_def)
  ultimately show ?thesis
    using assms(1) by (auto simp: client_ok_def armed_def clear_timeout_def distinct_map_filter)
qed

lemma resolve_ok:
  assumes "handlers_keep hdl err" and "client_ok {i} w"
  shows "client_inv (client_resolve hdl i a w)"
proof (cases "map_of (c_pending w) i")
  case None
  then have "j \<noteq> i" if "(j, h, t) \<in> set (c_pending w)" for j h t
    using that by (auto simp: map_of_eq_None_iff image_iff)
  with None assms(2) show ?thesis by (auto simp: client_resolve_def client_ok_def)
next
  case (Some x)
  obtain h t where "x = (h, t)" by (cases x)
  with Some resolved_ok [OF assms(2), of h t a] assms(1) show ?thesis
    by (simp add: client_resolve_def call_handler_def handlers_keep_def)
qed

lemma error_ok: "handlers_keep hdl err \<Longrightarrow> client_inv w \<Longrightarrow> client_inv (client_error err m w)"
  by (simp add: handlers_keep_def client_error_def client_ok_def armed_def)

lemma wire_up_ok:
  "handlers_keep hdl err \<Longrightarrow> client_inv w \<Longrightarrow> client_inv (wire_up hdl err e w)"
  by (auto simp: wire_up_def split: udp_event.splits exec.splits option.splits
      intro: error_ok resolve_ok client_ok_weaken)

text \<open>The state of a question sent: timer armed, handler pending.\<close>

lemma asked_ok:
  assumes "client_inv w" and "map_of (c_pending w) i = None" and "unat (next_timer_id (u_loop w)) < 2 ^ 64 - 1"
    and "set_timeout now d (c_expire w i) (u_loop w) = (t, l)"
  shows "client_inv (w\<lparr>u_loop := l, c_pending := emplace i (h, t) (c_pending w), c_asked := c_asked w @ [h]\<rparr>)"
proof -
  let ?n = "next_timer_id (u_loop w)"
  have less: "x < ?n + 1 \<longleftrightarrow> x < ?n \<or> x = ?n" for x
    using assms(3) by (auto simp: word_less_nat_alt unat_word_ariths word_unat_eq_iff)
  have l: "t = ?n" "next_timer_id l = ?n + 1"
    "timers l = timers (u_loop w) @ [\<lparr>tm_id = ?n, tm_when = now + d * ns_per_ms, tm_fn = c_expire w i\<rparr>]"
    using assms(4) by (auto simp: set_timeout_def Let_def on_poller_def)
  show ?thesis
    using assms(1,2) by (auto simp: client_ok_def emplace_def armed_def l less map_of_eq_None_iff)
qed

lemma refused_ok:
  "client_inv w \<Longrightarrow> client_inv (w\<lparr>c_asked := c_asked w @ [h], c_calls := c_calls w @ [(h, a)]\<rparr>)"
  by (simp add: client_ok_def armed_def)

lemma client_query_ok:
  assumes "handlers_keep hdl err" and "client_inv w" and "map_of (c_pending w) i = None"
    and "unat (next_timer_id (u_loop w)) < 2 ^ 64 - 1"
  shows "client_inv (client_query os hdl err now i name type h w)"
proof (cases "serialize (request i name type)")
  case (Done res)
  show ?thesis
  proof (cases res)
    case None
    with Done refused_ok [OF error_ok [OF assms(1,2)]] assms(1) show ?thesis
      by (simp add: client_query_def call_handler_def handlers_keep_def Let_def)
  next
    case (Some wire)
    obtain t l where st: "set_timeout now (c_timeout w) (c_expire w i) (u_loop w) = (t, l)" by (metis surj_pair)
    let ?w = "w\<lparr>u_loop := l, c_pending := emplace i (h, t) (c_pending w), c_asked := c_asked w @ [h]\<rparr>"
    have "client_inv (snd (udp_send os (wire_up hdl err) wire (c_port w) (c_host w) ?w))"
      by (rule send_frame [OF client_ok_frame wire_up_ok [OF assms(1)] asked_ok [OF assms(2-4) st]])
    with Done Some st resolve_ok [OF assms(1) client_ok_weaken] show ?thesis
      by (auto simp: client_query_def split: prod.splits)
  qed
qed (simp add: client_query_def assms(2))

lemma timer_fires_ok:
  assumes "handlers_keep hdl err" and "client_inv w" and "armed w i t"
  shows "client_inv (timer_fires hdl i t w)"
proof -
  have "t' \<noteq> t" if j: "armed w j t'" "j \<noteq> i" for j t'
  proof
    assume "t' = t"
    with j(1) assms(2,3) have "c_expire w j = c_expire w i"
      by (auto simp: armed_def client_ok_def distinct_map dest: inj_onD)
    with assms(2) j(2) show False by (auto simp: client_ok_def dest: injD)
  qed
  with assms(2) have "client_ok {i} (w\<lparr>u_loop := clear_timeout t (u_loop w)\<rparr>)"
    by (fastforce simp: client_ok_def armed_def clear_timeout_def distinct_map_filter)
  from resolve_ok [OF assms(1) this] show ?thesis by (simp add: timer_fires_def expire_def)
qed

text \<open>
  C7: No question is lost and none is answered twice. Every handler given to \<^verbatim>\<open>query\<close> with a transaction
  id that is not in use has been called exactly once, or is pending with a timer armed that will call
  it; questions refused or failing to be sent, answers, malformed and unsolicited datagrams, errors
  of the peer and timeouts all keep this, whatever the handlers do, new questions included.
\<close>

theorem client_answers_once:
  assumes "handlers_keep hdl err" and "client_inv w"
  shows "(map_of (c_pending w) i = None \<and> unat (next_timer_id (u_loop w)) < 2 ^ 64 - 1 \<longrightarrow>
      client_inv (client_query os hdl err now i name type h w))
    \<and> client_inv (wire_up hdl err e w)
    \<and> (\<forall>w'. udp_drain os (wire_up hdl err) w = Some w' \<longrightarrow> client_inv w')
    \<and> (armed w i t \<longrightarrow> client_inv (timer_fires hdl i t w))"
proof -
  have "client_inv w'" if "udp_drain os (wire_up hdl err) w = Some w'" for w'
    using drain_frame [OF that client_ok_frame] wire_up_ok [OF assms(1)] assms(2) by blast
  then show ?thesis
    using client_query_ok [OF assms] wire_up_ok [OF assms] timer_fires_ok [OF assms] by blast
qed

text \<open>What an answer does, when the handler itself does nothing more.\<close>

lemma settled:
  assumes "client_inv w" and "map_of (c_pending w) i = Some (h, t)"
    and "parse_message datagram = Done (Some m)" and "h_id (m_header m) = i"
    and "v = wire_up (\<lambda>_ _ w. w) err (Message datagram src) w"
  shows "c_calls v = c_calls w @ [(h, Some m)] \<and> Suc (outstanding v) = outstanding w
    \<and> map_of (c_pending v) i = None \<and> \<not> armed v i t"
proof -
  have v: "v = w\<lparr>c_pending := erase_key i (c_pending w), u_loop := clear_timeout t (u_loop w),
      c_calls := c_calls w @ [(h, Some m)]\<rparr>"
    using assms(2-5) by (simp add: wire_up_def client_resolve_def call_handler_def)
  have "mset (c_pending w) = add_mset (i, h, t) (mset (c_pending v))"
    using erase_key_mset [OF _ assms(2)] assms(1) by (simp add: client_ok_def v)
  then have "Suc (outstanding v) = outstanding w"
    unfolding outstanding_def by (metis size_add_mset size_mset)
  moreover have "map_of (c_pending v) i = None" by (auto simp: v map_of_eq_None_iff)
  moreover have "\<not> armed v i t" by (simp add: v armed_def clear_timeout_def)
  ultimately show ?thesis by (simp add: v)
qed

text \<open>
  An answer reaches the handler of its question and settles it: the handler is called with the
  message as parsed, the question is no longer outstanding, and a second copy of the answer, or the
  timeout running late, calls nothing.
\<close>

theorem answer_settles_question:
  assumes "client_inv w" and "map_of (c_pending w) i = Some (h, t)"
    and "parse_message datagram = Done (Some m)" and "h_id (m_header m) = i"
    and "v = wire_up (\<lambda>_ _ w. w) err (Message datagram src) w"
  shows "c_calls v = c_calls w @ [(h, Some m)] \<and> Suc (outstanding v) = outstanding w \<and> \<not> armed v i t
    \<and> wire_up hdl err' (Message datagram src') v = v \<and> expire hdl i v = v"
  using settled [OF assms] assms(3,4) by (simp add: wire_up_def expire_def client_resolve_def)

text \<open>A question whose name is valid is given to the network, and pends with its timer.\<close>

lemma more_client:
  assumes "udp.more w' = udp.more w"
  shows "c_pending w' = c_pending w" "c_calls w' = c_calls w" "c_expire w' = c_expire w"
    "c_asked w' = c_asked w" "c_port w' = c_port w" "c_host w' = c_host w"
  using assms by (cases w; cases w'; simp)+

lemma query_sent:
  assumes "records_sends os sent" and "valid (u_fd w)" and "resolve_one os (c_host w) (c_port w) True = Some dest"
    and "serialize (request i name type) = Done (Some wire)"
    and "v = client_query os hdl err now i name type h w"
  shows "sent (u_os v) = sent (u_os w) @ [(wire, to_sockaddr (os_inet os) dest)] \<and> u_fd v = u_fd w
    \<and> c_pending v = emplace i (h, next_timer_id (u_loop w)) (c_pending w) \<and> c_calls v = c_calls w
    \<and> c_asked v = c_asked w @ [h] \<and> armed v i (next_timer_id (u_loop w))"
proof -
  obtain t l where st: "set_timeout now (c_timeout w) (c_expire w i) (u_loop w) = (t, l)" by (metis surj_pair)
  let ?w = "w\<lparr>u_loop := l, c_pending := emplace i (h, t) (c_pending w), c_asked := c_asked w @ [h]\<rparr>"
  obtain w' where w': "udp_send os (wire_up hdl err) wire (c_port w) (c_host w) ?w = (True, w')"
    "udp.more w' = udp.more ?w" "u_fd w' = u_fd w" "timers (u_loop w') = timers l"
    "sent (u_os w') = sent (u_os w) @ [(wire, to_sockaddr (os_inet os) dest)]"
    using send_taken [OF assms(1) _ assms(3), where w = ?w] assms(2) by auto
  have "v = w'" using assms(4,5) st w'(1) by (simp add: client_query_def)
  with w'(3-5) more_client [OF w'(2)] st show ?thesis
    by (auto simp: set_timeout_def Let_def armed_def on_poller_def)
qed

text \<open>A client with one question in flight, and a handler that asks again, once, after a timeout.\<close>

definition open_client :: "((byte list \<times> sockaddr) list, nat, nat) dns_client" where
  "open_client = (client_create ''resolver'' 53 0 (\<lambda>i. unat i + 1) (make_loop 3) [])\<lparr>u_fd := \<lparr>owned_fd = 7\<rparr>\<rparr>"

definition one_question :: "((byte list \<times> sockaddr) list, nat, nat) dns_client" where
  "one_question = client_query mail_os (\<lambda>_ _ w. w) (\<lambda>_ w. w) 0 0x1234 ''a.b'' 1 11 open_client"

definition retry :: "((byte list \<times> sockaddr) list, nat, nat, unit) handlers" where
  "retry h a w = (if a = None \<and> map_of (c_pending w) 7 = None \<and> unat (next_timer_id (u_loop w)) < 2 ^ 64 - 1
     then client_query mail_os (\<lambda>_ _ w. w) (\<lambda>_ w. w) 0 7 ''a.b'' 1 h w else w)"

lemma passive_keep: "handlers_keep (\<lambda>_ _ w. w) (\<lambda>_ w. w)"
  by (simp add: handlers_keep_def)

lemma retry_keeps: "handlers_keep retry (\<lambda>_ w. w)"
  using client_query_ok [OF passive_keep] by (auto simp: handlers_keep_def retry_def)

lemma open_client_fields:
  "c_pending open_client = []" "c_calls open_client = []" "next_timer_id (u_loop open_client) = 1"
  "valid (u_fd open_client)" "u_os open_client = []" "c_host open_client = ''resolver''" "c_port open_client = 53"
  by (simp_all add: open_client_def client_create_def udp.defs udp_create_def dns_client.defs make_loop_def valid_def)

lemma open_client_ok: "client_inv open_client"
  by (simp add: client_ok_def open_client_def client_create_def udp.defs udp_create_def dns_client.defs
      make_loop_def inj_def word_unat_eq_iff)

lemma request_example: "request 0x1234 ''a.b'' 1 = example_query"
  by (simp add: request_def example_query_def type_a_def)

lemma one_question_ok: "client_inv one_question"
  unfolding one_question_def
  by (rule client_query_ok [OF passive_keep open_client_ok]) (simp_all add: open_client_fields)

lemma one_question_state:
  "c_pending one_question = [(0x1234, 11, 1)]" "c_calls one_question = []" "armed one_question 0x1234 1"
  using query_sent [OF mail_os_records open_client_fields(4) mail_os_resolves _ refl,
      where i = "0x1234" and name = "''a.b''" and type = 1 and wire = example_bytes and hdl = "\<lambda>_ _ w. w" and
        err = "\<lambda>_ w. w" and now = 0 and h = 11]
  by (simp_all add: request_example serialize_example one_question_def open_client_fields emplace_def)

theorem client_answers_once_witness:
  "client_inv (timer_fires retry 0x1234 1 one_question)"
  using client_answers_once [OF retry_keeps one_question_ok] one_question_state(3) by blast

theorem answer_settles_question_witness:
  "\<exists>m. c_calls (wire_up (\<lambda>_ _ w. w) (\<lambda>_ w. w) (Message (example_bytes @ [7]) null_address) one_question) = [(11, Some m)]"
  using answer_settles_question [OF one_question_ok _ parse_serialize [OF serialize_example, of "[7]"] refl refl]
  by (simp add: one_question_state norm_message_def norm_header_def out_header_def example_query_def)

section \<open>Where the client departs from its description\<close>

text \<open>
  \<^verbatim>\<open>next_id\<close> draws any id, also one in use. The question is then sent, but its handler is dropped: it is
  neither pending nor ever called.
\<close>

lemma duplicate_id_loses_handler:
  assumes "records_sends os sent" and "valid (u_fd w)" and "resolve_one os (c_host w) (c_port w) True = Some dest"
    and "serialize (request i name type) = Done (Some wire)"
    and "client_inv w" and "map_of (c_pending w) i = Some entry"
    and "v = client_query os hdl err now i name type h w"
  shows "c_pending v = c_pending w \<and> c_calls v = c_calls w \<and> \<not> client_inv v"
  using query_sent [OF assms(1-4,7)] assms(5,6) by (auto simp: emplace_def client_ok_def)

end
