(* ===== verification/Dns_Inspect.thy ===== *)
theory Dns_Inspect
  imports Dns_Message Socket_Ops
begin

text \<open>
  The command \<^verbatim>\<open>lnw-dns-inspect\<close> (tools/lnw-dns-inspect/main.cpp): from the bytes on standard input to
  the exit code and what is printed on standard output and standard error.
\<close>

definition opcode_name :: "opcode \<Rightarrow> string" where
  "opcode_name code =
     (if code = opcode_query then ''QUERY'' else if code = opcode_iquery then ''IQUERY''
      else if code = opcode_status then ''STATUS'' else if code = opcode_notify then ''NOTIFY''
      else if code = opcode_update then ''UPDATE'' else ''?'')"

definition rcode_name :: "rcode \<Rightarrow> string" where
  "rcode_name code =
     (if code = rcode_no_error then ''NOERROR'' else if code = rcode_format_error then ''FORMERR''
      else if code = rcode_server_failure then ''SERVFAIL'' else if code = rcode_name_error then ''NXDOMAIN''
      else if code = rcode_not_implemented then ''NOTIMP'' else if code = rcode_refused then ''REFUSED'' else ''?'')"

abbreviation newline :: char where "newline \<equiv> CHR 0x0A"
abbreviation tab :: char where "tab \<equiv> CHR 0x09"

text \<open>The conversions \<^verbatim>\<open>%u\<close> of a 16-bit value and \<^verbatim>\<open>%-30s\<close>.\<close>

definition percent_u :: "u16 \<Rightarrow> string" where
  "percent_u x = decimal (unat x)"

definition pad30 :: "string \<Rightarrow> string" where
  "pad30 s = s @ replicate (30 - length s) CHR '' ''"

definition flag_text :: "bool \<Rightarrow> string \<Rightarrow> string" where
  "flag_text b s = (if b then s else '''')"

definition header_lines :: "header \<Rightarrow> string" where
  "header_lines h =
     '';; ->>HEADER<<- opcode: '' @ opcode_name (h_opcode h) @ '', status: '' @ rcode_name (h_rcode h)
       @ '', id: '' @ percent_u (h_id h) @ [newline]
     @ '';; flags:'' @ flag_text (h_response h) '' qr'' @ flag_text (h_authoritative h) '' aa''
       @ flag_text (h_truncated h) '' tc'' @ flag_text (h_recursion_desired h) '' rd''
       @ flag_text (h_recursion_available h) '' ra'' @ ''; QUERY: '' @ percent_u (h_question_count h)
       @ '', ANSWER: '' @ percent_u (h_answer_count h) @ '', AUTHORITY: '' @ percent_u (h_authority_count h)
       @ '', ADDITIONAL: '' @ percent_u (h_additional_count h) @ [newline]"

definition question_line :: "question \<Rightarrow> string" where
  "question_line q = '';'' @ pad30 (c_str (q_name q)) @ [tab] @ ''IN'' @ [tab] @ percent_u (q_type q) @ [newline]"

definition report :: "message \<Rightarrow> string" where
  "report m = header_lines (m_header m) @ [newline] @ '';; QUESTION SECTION:'' @ [newline]
     @ concat (map question_line (m_questions m))"

definition inspect :: "string \<Rightarrow> (int \<times> string \<times> string) exec" where
  "inspect raw =
     (if raw = [] then Done (1, '''', ''lnw-dns-inspect: nothing on stdin'' @ [newline])
      else let datagram = map byte_of_char raw in
        bind_exec (parse_message datagram) (\<lambda>message. case message of
          None \<Rightarrow> Done (1, '''', ''lnw-dns-inspect: not a well-formed DNS message ('' @ decimal (length datagram)
            @ '' bytes)'' @ [newline])
        | Some m \<Rightarrow> Done (0, report m, '''')))"

section \<open>What is printed\<close>

lemma decimal_no_newline [simp]: "newline \<notin> set (decimal n)"
proof (induction n rule: decimal.induct)
  case (1 n)
  have "newline \<noteq> char_of (48 + d)" if "d < 10" for d :: nat
  proof
    assume "newline = char_of (48 + d)"
    from arg_cong [OF this, of "of_char :: char \<Rightarrow> nat"] that show False by simp
  qed
  with 1 show ?case by (subst decimal.simps) auto
qed

lemma count_none [simp]: "newline \<notin> set s \<Longrightarrow> count_list s newline = 0"
  by (induction s) auto

lemma texts_no_newline [simp]:
  "newline \<notin> set (opcode_name c)" "newline \<notin> set (rcode_name c)" "newline \<notin> set (percent_u x)"
  "newline \<notin> set (flag_text b '' qr'')" "newline \<notin> set (flag_text b '' aa'')" "newline \<notin> set (flag_text b '' tc'')"
  "newline \<notin> set (flag_text b '' rd'')" "newline \<notin> set (flag_text b '' ra'')"
  by (simp_all add: percent_u_def) (simp_all add: opcode_name_def rcode_name_def flag_text_def)

lemma header_line_count: "count_list (header_lines h) newline = 2"
  by (simp add: header_lines_def)

lemma question_line_count:
  assumes "newline \<notin> set (q_name q)"
  shows "count_list (question_line q) newline = 1"
proof -
  have "newline \<notin> set (c_str (q_name q))"
    using assms by (auto simp: c_str_def dest: set_takeWhileD)
  then have "newline \<notin> set (pad30 (c_str (q_name q)))" by (auto simp: pad30_def)
  then show ?thesis by (simp add: question_line_def)
qed

lemma question_lines_count:
  "\<forall>q \<in> set qs. newline \<notin> set (q_name q) \<Longrightarrow> count_list (concat (map question_line qs)) newline = length qs"
  by (induction qs) (simp_all add: question_line_count)

text \<open>
  C39: The tool accepts exactly the datagrams that parse. For such a datagram it exits with 0 and prints
  two header lines, an empty line, a heading and one line for each of the QDCOUNT questions (names with
  line breaks apart, which are printed raw); otherwise it exits with 1, prints nothing and explains
  itself on standard error.
\<close>

theorem inspect_reports:
  "\<exists>code out msg. inspect raw = Done (code, out, msg)
    \<and> (case parse_message (map byte_of_char raw) of
        Done (Some m) \<Rightarrow> code = 0 \<and> msg = []
          \<and> (list_all (\<lambda>q. newline \<notin> set (q_name q)) (m_questions m) \<longrightarrow>
               count_list out newline = 4 + unat (h_question_count (m_header m)))
      | _ \<Rightarrow> code = 1 \<and> out = [] \<and> msg \<noteq> [])"
proof -
  obtain res where res: "parse_message (map byte_of_char raw) = Done res"
    using parse_message_safe by (auto simp: exec_not_UB_iff)
  show ?thesis
  proof (cases res)
    case None
    with res show ?thesis by (simp add: inspect_def)
  next
    case (Some m)
    note count = parse_message_count [OF res [unfolded Some]]
    then have "raw \<noteq> []" by auto
    with res Some count show ?thesis
      by (simp add: inspect_def report_def header_line_count question_lines_count list_all_iff)
  qed
qed

theorem inspect_reports_witness:
  "\<exists>out. inspect (map char_of_byte example_bytes) = Done (0, out, []) \<and> count_list out newline = 5"
proof -
  have "parse_message example_bytes = Done (Some (norm_message example_query))"
    using parse_serialize [OF serialize_example, of "[]"] by simp
  with inspect_reports [of "map char_of_byte example_bytes"] show ?thesis
    by (auto simp: map_byte_char norm_message_def norm_header_def out_header_def example_query_def norm_question_def
        wire_count_def strip_dot_def)
qed

end
