(* ===== verification/Dns_Dig.thy ===== *)
theory Dns_Dig
  imports Dns_Client Dns_Inspect
begin

text \<open>
  The resolver example (examples/lnw-example-dns-dig.cpp): one question to a resolver, its answer or its
  failure in a promise, and what the program prints.
\<close>

section \<open>The program\<close>

definition dig_name :: "string list \<Rightarrow> string" where
  "dig_name argv = (if length argv > 1 then argv ! 1 else ''example.com'')"

definition dig_resolver :: "string list \<Rightarrow> string" where
  "dig_resolver argv = (if length argv > 2 then argv ! 2 else ''1.1.1.1'')"

text \<open>
  The state of the client and the promise; a second value for the promise would throw on the loop's thread
  and end the process.
\<close>

record ('k, 'c) dig = "('k, 'c, unit) dns_client" +
  d_reply :: "message option option"
  d_terminated :: bool

definition dig_handler :: "unit \<Rightarrow> message option \<Rightarrow> ('k, 'c) dig \<Rightarrow> ('k, 'c) dig" where
  "dig_handler h reply w =
     (case d_reply w of
        None \<Rightarrow> w\<lparr>d_reply := Some reply\<rparr>
      | Some _ \<Rightarrow> w\<lparr>d_terminated := True\<rparr>)"

text \<open>The listener of \<^verbatim>\<open>on_error\<close> prints; the messages are in \<open>c_errors\<close>.\<close>

abbreviation dig_error :: "string \<Rightarrow> ('k, 'c) dig \<Rightarrow> ('k, 'c) dig" where
  "dig_error \<equiv> \<lambda>_ w. w"

definition dig_main :: "'k os \<Rightarrow> string list \<Rightarrow> int \<Rightarrow> u16 \<Rightarrow> 'c \<Rightarrow> (u16 \<Rightarrow> 'c) \<Rightarrow> 'c event_loop \<Rightarrow> 'k \<Rightarrow> ('k, 'c) dig" where
  "dig_main os argv now i drain_cb expire_cb loop k =
     (let client = dns_client.extend (client_create (dig_resolver argv) 53 drain_cb expire_cb loop k)
            \<lparr>d_reply = None, d_terminated = False\<rparr>;
          client = client_set_timeout 3000 client
      in client_query os dig_handler dig_error now i (dig_name argv) type_a () client)"

text \<open>What \<^verbatim>\<open>main\<close> prints and returns once the promise has its value: exit code, standard output, standard error.\<close>

definition dig_report :: "string list \<Rightarrow> message option \<Rightarrow> int \<times> string \<times> string" where
  "dig_report argv reply =
     (case reply of
        None \<Rightarrow> (1, [], '';; no response from '' @ c_str (dig_resolver argv) @ '' (timed out)'' @ [newline])
      | Some m \<Rightarrow>
          let h = m_header m in
          (0, '';; got answer from '' @ c_str (dig_resolver argv) @ '' for '' @ c_str (dig_name argv) @ [newline]
             @ '';; ->>HEADER<<- id: '' @ percent_u (h_id h) @ '', rcode: '' @ decimal (unat (h_rcode h))
             @ '', flags:'' @ flag_text (h_response h) '' qr'' @ flag_text (h_recursion_available h) '' ra''
             @ ''; QUERY: '' @ percent_u (h_question_count h) @ '', ANSWER: '' @ percent_u (h_answer_count h)
             @ '', AUTHORITY: '' @ percent_u (h_authority_count h) @ '', ADDITIONAL: '' @ percent_u (h_additional_count h) @ [newline]
             @ '';; (answer-section decoding lands in SRS-001 M3)'' @ [newline], []))"

definition dig_exit :: "string list \<Rightarrow> ('k, 'c) dig \<Rightarrow> (int \<times> string \<times> string) option" where
  "dig_exit argv w = map_option (dig_report argv) (d_reply w)"

text \<open>While it waits: the socket is readable, a timer fires, or the kernel moves on.\<close>

inductive dig_step :: "'k os \<Rightarrow> ('k, 'c) dig \<Rightarrow> ('k, 'c) dig \<Rightarrow> bool" for os where
  drain: "udp_drain os (wire_up dig_handler dig_error) w = Some w' \<Longrightarrow> dig_step os w w'"
| timer: "armed w i t \<Longrightarrow> dig_step os w (timer_fires dig_handler i t w)"
| kernel: "dig_step os w (w\<lparr>u_os := k\<rparr>)"

section \<open>One answer\<close>

definition promise_ok :: "u16 \<Rightarrow> unit list \<Rightarrow> ('k, 'c) dig \<Rightarrow> bool" where
  "promise_ok i asked w \<longleftrightarrow> c_asked w = asked \<and> list_all (\<lambda>e. fst e = i) (c_pending w)
     \<and> d_reply w = (case c_calls w of [] \<Rightarrow> None | (_, a) # _ \<Rightarrow> Some a) \<and> (d_terminated w \<longleftrightarrow> 1 < length (c_calls w))
     \<and> (\<forall>m. d_reply w = Some (Some m) \<longrightarrow> h_id (m_header m) = i)"

lemma promise_frame: "peer_frame (promise_ok i asked)"
  by (simp add: peer_frame_def promise_ok_def)

lemma promise_called:
  assumes "promise_ok i asked w" and "\<forall>m. a = Some m \<longrightarrow> h_id (m_header m) = i"
  shows "promise_ok i asked (call_handler dig_handler () a w)"
  using assms by (cases "c_calls w") (auto simp: promise_ok_def call_handler_def dig_handler_def)

lemma promise_resolve:
  assumes "promise_ok i asked w" and "\<forall>m. a = Some m \<longrightarrow> h_id (m_header m) = j"
  shows "promise_ok i asked (client_resolve dig_handler j a w)"
proof (cases "map_of (c_pending w) j")
  case (Some e)
  then have "j = i" using assms(1) map_of_SomeD [OF Some] by (auto simp: promise_ok_def list_all_iff)
  obtain t where e: "e = ((), t)" by (cases e) auto
  have "promise_ok i asked (w\<lparr>c_pending := erase_key j (c_pending w), u_loop := clear_timeout t (u_loop w)\<rparr>)"
    using assms(1) by (auto simp: promise_ok_def list_all_iff)
  from promise_called [OF this] Some e assms(2) \<open>j = i\<close> show ?thesis by (simp add: client_resolve_def)
qed (simp add: client_resolve_def assms(1))

lemma promise_error: "promise_ok i asked w \<Longrightarrow> promise_ok i asked (client_error dig_error m w)"
  by (simp add: client_error_def promise_ok_def)

lemma promise_wired: "promise_ok i asked w \<Longrightarrow> promise_ok i asked (wire_up dig_handler dig_error e w)"
  by (auto simp: wire_up_def promise_error promise_resolve split: udp_event.splits exec.splits option.splits)

lemma promise_query:
  assumes "promise_ok i asked w" and "c_pending w = []"
  shows "promise_ok i (asked @ [()]) (client_query os dig_handler dig_error now i name type () w)"
proof (cases "list_all good_question (m_questions (request i name type))")
  case True
  then obtain wire where wire: "serialize (request i name type) = Done (Some wire)" by (simp add: serialize_eq)
  obtain t l where st: "set_timeout now (c_timeout w) (c_expire w i) (u_loop w) = (t, l)" by (metis surj_pair)
  let ?w = "w\<lparr>u_loop := l, c_pending := emplace i ((), t) (c_pending w), c_asked := c_asked w @ [()]\<rparr>"
  have w: "promise_ok i (asked @ [()]) ?w"
    using assms by (simp add: promise_ok_def emplace_def)
  have "promise_ok i (asked @ [()]) (snd (udp_send os (wire_up dig_handler dig_error) wire (c_port w) (c_host w) ?w))"
    by (rule send_frame [OF promise_frame]) (simp_all add: promise_wired w)
  with wire st show ?thesis
    by (auto simp: client_query_def promise_resolve split: prod.splits)
next
  case False
  have "promise_ok i (asked @ [()]) (w\<lparr>c_errors := es, c_asked := c_asked w @ [()]\<rparr>)" for es
    using assms(1) by (simp add: promise_ok_def)
  from promise_called [OF this] False show ?thesis
    by (simp add: client_query_def serialize_eq client_error_def)
qed

lemma dig_keeps: "handlers_keep dig_handler dig_error"
  by (auto simp: handlers_keep_def dig_handler_def client_ok_def armed_def split: option.splits)

definition dig_inv :: "u16 \<Rightarrow> ('k, 'c) dig \<Rightarrow> bool" where
  "dig_inv i w \<longleftrightarrow> client_inv w \<and> promise_ok i [()] w"

definition dig_start :: "'k os \<Rightarrow> string list \<Rightarrow> u16 \<Rightarrow> ('k, 'c) dig \<Rightarrow> bool" where
  "dig_start os argv i w \<longleftrightarrow>
     (\<exists>now drain_cb expire_cb wake k. inj expire_cb \<and> w = dig_main os argv now i drain_cb expire_cb (make_loop wake) k)"

lemma dig_main_inv: "dig_start os argv i w \<Longrightarrow> dig_inv i w"
proof -
  assume "dig_start os argv i w"
  then obtain now drain_cb expire_cb wake k where inj: "inj expire_cb"
    and w: "w = dig_main os argv now i drain_cb expire_cb (make_loop wake) k" by (auto simp: dig_start_def)
  let ?c = "client_set_timeout 3000 (dns_client.extend (client_create (dig_resolver argv) 53 drain_cb expire_cb (make_loop wake) k)
    \<lparr>d_reply = None, d_terminated = False\<rparr>) :: ('a, 'b) dig"
  note defs = client_set_timeout_def dns_client.defs client_create_def udp.defs udp_create_def make_loop_def
  have c: "client_inv ?c" "c_pending ?c = []" "next_timer_id (u_loop ?c) = 1" "promise_ok i [] ?c"
    using inj by (simp_all add: defs client_ok_def promise_ok_def)
  have "client_inv w"
    unfolding w dig_main_def Let_def by (rule client_query_ok [OF dig_keeps c(1)]) (simp_all add: c)
  moreover have "promise_ok i [()] w"
    using promise_query [OF c(4,2)] unfolding w dig_main_def Let_def by simp
  ultimately show ?thesis by (simp add: dig_inv_def)
qed

lemma dig_step_inv:
  assumes "dig_inv i w" and "dig_step os w w'"
  shows "dig_inv i w'"
  using assms(2)
proof cases
  case drain
  with drain_frame [OF _ client_ok_frame] wire_up_ok [OF dig_keeps] drain_frame [OF _ promise_frame] promise_wired assms(1)
  show ?thesis unfolding dig_inv_def by blast
next
  case (timer j t)
  have "promise_ok i [()] (w\<lparr>u_loop := clear_timeout t (u_loop w)\<rparr>)" using assms(1) by (simp add: dig_inv_def promise_ok_def)
  then have "promise_ok i [()] (timer_fires dig_handler j t w)" unfolding timer_fires_def expire_def by (rule promise_resolve) simp
  with timer(1) timer_fires_ok [OF dig_keeps _ timer(2)] assms(1) show ?thesis by (simp add: dig_inv_def)
next
  case (kernel k)
  with assms(1) frame_fields(2) [OF client_ok_frame, where w = w and k = k] frame_fields(2) [OF promise_frame, where w = w and k = k]
  show ?thesis by (simp add: dig_inv_def)
qed

interpretation dig_run: invariant "dig_start os argv i" "dig_step os" "dig_inv i" for os argv i
  by unfold_locales (auto intro: dig_main_inv dig_step_inv)

text \<open>
  C19: One question, one answer, one exit. In every state the program can reach while it waits, its promise was
  given at most one value, so that nothing throws. As long as there is none, a timer is armed whose firing
  gives one; once there is one the program exits, with code 0 exactly when a reply was parsed, and the reply
  whose header it prints carries the id of its question.
\<close>

theorem dig_exits_once:
  assumes "reach (dig_start os argv i) (dig_step os) w"
  shows "\<not> d_terminated w \<and>
    (case d_reply w of
       None \<Rightarrow> dig_exit argv w = None \<and> (\<exists>t. armed w i t \<and> dig_exit argv (timer_fires dig_handler i t w) = Some (dig_report argv None))
     | Some reply \<Rightarrow> c_calls w = [((), reply)] \<and> dig_exit argv w = Some (dig_report argv reply)
         \<and> fst (dig_report argv reply) = (if reply = None then 1 else 0)
         \<and> pred_option (\<lambda>m. h_id (m_header m) = i) reply)"
proof -
  have inv: "client_inv w" "promise_ok i [()] w" using dig_run.reach_inv [OF assms] by (simp_all add: dig_inv_def)
  then have "mset [()] = mset (map fst (c_calls w)) + mset (map (\<lambda>(i, h, t). h) (c_pending w))"
    by (simp add: client_ok_def promise_ok_def)
  from arg_cong [OF this, of size] have one: "length (c_calls w) + length (c_pending w) = 1" by simp
  show ?thesis
  proof (cases "c_calls w")
    case Nil
    with one obtain e where e: "c_pending w = [e]" by (cases "c_pending w") auto
    with inv(2) obtain t where t: "c_pending w = [(i, (), t)]" by (cases e) (auto simp: promise_ok_def)
    then have "armed w i t" using inv(1) by (simp add: client_ok_def)
    moreover have "d_reply w = None" "\<not> d_terminated w" using inv(2) Nil by (simp_all add: promise_ok_def)
    moreover have "d_reply (timer_fires dig_handler i t w) = Some None"
      using t \<open>d_reply w = None\<close> by (simp add: timer_fires_def expire_def client_resolve_def call_handler_def dig_handler_def)
    ultimately show ?thesis by (auto simp: dig_exit_def)
  next
    case (Cons c cs)
    with one have "c_calls w = [((), snd c)]" "length (c_calls w) = 1" by (cases c; simp)+
    moreover from this inv(2) have "d_reply w = Some (snd c)" "\<not> d_terminated w" "\<forall>m. snd c = Some m \<longrightarrow> h_id (m_header m) = i"
      by (simp_all add: promise_ok_def)
    ultimately show ?thesis by (cases "snd c") (simp_all add: dig_exit_def dig_report_def Let_def)
  qed
qed

text \<open>A name that cannot be encoded is refused at once, and the program reports that it timed out.\<close>

definition refused_dig :: "((byte list \<times> sockaddr) list, nat) dig" where
  "refused_dig = dig_main mail_os [''dig'', ''a..b''] 0 0x1234 0 (\<lambda>i. unat i + 1) (make_loop 3) []"

lemma refused_dig_reply: "d_reply refused_dig = Some None"
  by (simp add: refused_dig_def dig_main_def client_query_def serialize_eq request_def good_question_def good_name_def
      good_label_def dig_name_def dig_resolver_def call_handler_def dig_handler_def client_error_def client_set_timeout_def
      dns_client.defs client_create_def udp.defs)

theorem dig_exits_once_witness:
  "\<not> d_terminated refused_dig \<and> dig_exit [''dig'', ''a..b''] refused_dig =
     Some (1, [], '';; no response from 1.1.1.1 (timed out)'' @ [newline])"
proof -
  have "dig_start mail_os [''dig'', ''a..b''] 0x1234 refused_dig"
    unfolding dig_start_def refused_dig_def by (intro exI conjI) (simp_all add: inj_def word_unat_eq_iff)
  from dig_exits_once [OF reach_init, OF this] show ?thesis
    by (simp add: refused_dig_reply dig_report_def dig_resolver_def c_str_def)
qed

end
