(* ===== verification/Spec2Isabelle.thy ===== *)
theory Spec2Isabelle
  imports Event_Signal Task Tcp_Server Tcp_Closing Tcp_Echo Backend Dns_Server Dns_Dig
begin

text \<open>
  A verification of the networking library under \<^verbatim>\<open>src/include/lambdatech/networking\<close> (below: the
  directories core/ and protocol/), of the tool \<^verbatim>\<open>src/tools/lnw-dns-inspect\<close> and of the examples under
  \<^verbatim>\<open>src/examples\<close>.

  \<^bold>\<open>The program.\<close> The library is header-only C++. An event loop (core/event_loop.hpp) runs on the thread of
  a task (core/task.hpp), waits in a poller for descriptors to become ready, and runs callbacks. TCP
  sockets and servers and UDP peers (protocol/tcp, protocol/udp) register their descriptors with a
  loop and report through events (core/event.hpp over core/signal.hpp). A thread pool
  (core/thread_pool.hpp) runs the blocking name lookups. Descriptors, poller, socket operations and
  resolver have a posix and a standalone backend behind a facade. A DNS client and server
  (protocol/dns) put messages, encoded by a wire reader and writer, on top of UDP.

  \<^bold>\<open>Conventions.\<close> Integers of the source keep their width as words where it matters. Code that indexes a
  span or erases through an iterator has results in \<open>'a exec\<close>, in which \<open>UB\<close> is undefined behaviour;
  fallible code has options and error codes as in the source. The operating system is a record \<open>'k os\<close>
  of system calls over a state \<open>'k\<close> that the theorems leave open; what they need of it is a named
  hypothesis that states the documented behaviour of the call. Listeners and callbacks are functions
  on the state, so that they may call the object again. Histories of events, calls and bytes are
  recorded in fields that the modelled code never reads. Loops over system calls are partial
  functions: \<open>None\<close> means that the loop does not end, and theorems about what such a loop does state
  that it ends. Threads are interleavings of critical sections.

  \<^bold>\<open>Theories.\<close>

  \<^item> \<open>Prelude\<close>: the \<open>exec\<close> type, word and list facts, finite maps as association lists, and the locale
    \<open>invariant\<close> for reachable states.

  \<^item> \<open>Wire_Reader\<close>, \<open>Wire_Writer\<close>, \<open>Dns_Message\<close>: protocol/dns/wire/reader.hpp, wire/writer.hpp, header.hpp
    and message.hpp. Reads stay inside the datagram (locale \<open>safe_read\<close>). The iteration cap of
    \<^verbatim>\<open>read_name\<close> is the length of the buffer; it rejects only names whose pointers loop. Each codec
    interprets the locale \<open>wire_codec\<close>, from which the round trips of messages follow.

  \<^item> \<open>Dns_Client\<close>, \<open>Dns_Server\<close>: protocol/dns/client.hpp and server.hpp. Their states extend the state of
    their UDP peer. No question is lost or answered twice, and replies carry the id they answer.

  \<^item> \<open>Dns_Inspect\<close>: the tool, from input bytes to exit code and printed text.

  \<^item> \<open>Thread_Pool\<close>: core/thread_pool.hpp. Strict priority with order of submission inside a level (locale
    \<open>priority_fifo\<close>); the destructor waits for every task; the pool is never stuck.

  \<^item> \<open>Event_Signal\<close>: core/signal.hpp and event.hpp, with list nodes that have identities.

  \<^item> \<open>Task\<close>: core/task.hpp, callers and loop threads interleaved.

  \<^item> \<open>Descriptor\<close>, \<open>Poller\<close>: both backends of core/descriptor.hpp and core/poller.hpp, as interpretations
    of the locales \<open>descriptor_backend\<close> and \<open>poller_backend\<close>.

  \<^item> \<open>Event_Loop\<close>: core/event_loop.hpp. The poller follows the watch table; the order of a cycle; timers.

  \<^item> \<open>Socket_Ops\<close>, \<open>Buffer\<close>: core/socket_ops.hpp, resolver.hpp and their backends, address.hpp,
    impl/posix/endpoint.hpp and buffer.hpp; the record of system calls.

  \<^item> \<open>Backend\<close>: core/config.hpp, which selects exactly one backend, and the facade of core/socket_ops.hpp. The
    standalone backend is the posix backend on a system that supports no call.

  \<^item> \<open>Udp_Peer\<close>, \<open>Tcp_Socket\<close>, \<open>Tcp_Server\<close>: protocol/udp/peer.hpp, protocol/tcp/socket.hpp and server.hpp.
    The locales \<open>kernel_calls\<close>, \<open>tcp_effects\<close> and \<open>tcp_calls\<close>, each extending the one before, say what the operations
    of a TCP socket are made of; they are interpreted for registration, for sending and, below, for receiving
    and for echoing. Registration with the loop follows the descriptor; the sending side refines a channel;
    \<^verbatim>\<open>write\<close> returns; what arrives is delivered in order, and a backlog of connections is accepted in order.

  \<^item> \<open>Tcp_Backlog\<close>: an open socket with bytes queued is watched for writability when one thread uses it.

  \<^item> \<open>Tcp_Threads\<close>, \<open>Tcp_Closing\<close>: protocol/tcp/socket.hpp once more, used from several threads. A call is a sequence of
    sections, those that hold the socket's mutex and the actions between them; a program counter per thread
    names the next one. Uninterrupted, the sections are the operations of \<open>Tcp_Socket\<close>. Interleaved, they neither
    lose nor reorder bytes, and they close an open socket once; two runs show what they do not keep.

  \<^item> \<open>Tcp_Pipe\<close>, \<open>Tcp_Echo\<close>: two sockets and a network that carries bytes in order; what one program reads is what the
    other wrote. With it, examples/lnw-example-tcp-echo.cpp.

  \<^item> \<open>Dns_Dig\<close>: examples/lnw-example-dns-dig.cpp, from its arguments to its exit code and what it prints.

  Each of these theories ends with lemmas, where there are any, on behaviour that departs from the
  comments and requirements of the repository. This theory joins client, server and codec into one
  statement about a question and its answer.

  \<^bold>\<open>Not modelled.\<close> Reference counts and lifetimes: an object is in scope while it is used, and a callback
  finds its object alive. The mutexes of UDP peers, TCP servers and the DNS client: their operations are taken
  one at a time. The C++ memory model. The random generator of the client: the id is an argument. The
  facades of descriptor, poller and resolver, which only forward; \<^verbatim>\<open>main\<close> of the echo example beyond its
  listeners; benchmarks, tests and build files.
\<close>

text \<open>
  C2: A question and its answer, end to end. For a valid name, an id not in use and open sockets, the
  client gives the network one datagram for its resolver. Delivered to a server, this makes the server
  send one datagram back to where it came from. Delivered to the client, that calls the handler of
  the question, once, with the server's answer under the id of the question; no other handler is
  called and the client has as many questions outstanding as before.
\<close>

theorem query_answered_end_to_end:
  assumes "records_sends os sent" and "records_sends os' sent'"
    and "client_inv w" and "map_of (c_pending w) i = None" and "unat (next_timer_id (u_loop w)) < 2 ^ 64 - 1"
    and "valid (u_fd w)" and "resolve_one os (c_host w) (c_port w) True = Some dest"
    and "valid (u_fd s)" and "d_wired s = 1" and "resolve_one os' (sa_address src) (sa_port src) True = Some back"
    and "serialize (request i name type) = Done (Some wire)" and "\<And>m. \<exists>b. serialize (answer m) = Done (Some b)"
    and "v = client_query os (\<lambda>_ _ w. w) (\<lambda>_ w. w) now i name type h w"
  shows "\<exists>req resp m. sent (u_os v) = sent (u_os w) @ [(req, to_sockaddr (os_inet os) dest)]
    \<and> sent' (u_os (peer_listeners (replying os' answer) (Message req src) s))
        = sent' (u_os s) @ [(resp, to_sockaddr (os_inet os') back)]
    \<and> h_id (m_header m) = i \<and> h_response (m_header m)
    \<and> m_questions m = m_questions (norm_message (answer (norm_message (request i name type))))
    \<and> c_calls (wire_up (\<lambda>_ _ w. w) (\<lambda>_ w. w) (Message resp src') v) = c_calls w @ [(h, Some m)]
    \<and> outstanding (wire_up (\<lambda>_ _ w. w) (\<lambda>_ w. w) (Message resp src') v) = outstanding w"
proof -
  let ?q = "norm_message (request i name type)"
  note sent = query_sent [OF assms(1,6,7,11,13)]
  have parsed: "parse_message wire = Done (Some ?q)"
    using parse_serialize [OF assms(11), of "[]"] by simp
  have id: "h_id (m_header ?q) = i"
    by (simp add: norm_message_def norm_header_def out_header_def request_def)
  obtain b where "serialize (answer ?q) = Done (Some b)" using assms(12) by blast
  from reply_sent [where answer = answer, OF assms(2,8,10,9) parsed this]
  obtain r resp where r: "r_id r = i" "serialize (stamp r (answer ?q)) = Done (Some resp)"
    "sent' (u_os (peer_listeners (replying os' answer) (Message wire src) s))
       = sent' (u_os s) @ [(resp, to_sockaddr (os_inet os') back)]"
    unfolding id by blast
  obtain m where m: "parse_message resp = Done (Some m)" "h_id (m_header m) = i" "h_response (m_header m)"
    "m_questions m = m_questions (norm_message (answer ?q))"
    using parse_stamped [OF r(2), of "[]"] r(1) by auto
  have v: "client_inv v" unfolding assms(13) by (rule client_query_ok [OF passive_keep assms(3-5)])
  have p: "c_pending v = c_pending w @ [(i, h, next_timer_id (u_loop w))]"
    using sent assms(4) by (simp add: emplace_def)
  then have "map_of (c_pending v) i = Some (h, next_timer_id (u_loop w))"
    using assms(4) by (simp add: map_add_Some_iff)
  from settled [OF v this m(1,2) refl, where err = "\<lambda>_ w. w" and src = src'] p sent
  have "c_calls (wire_up (\<lambda>_ _ w. w) (\<lambda>_ w. w) (Message resp src') v) = c_calls w @ [(h, Some m)]"
    and "outstanding (wire_up (\<lambda>_ _ w. w) (\<lambda>_ w. w) (Message resp src') v) = outstanding w"
    by (simp_all add: outstanding_def)
  with sent r(3) m(2-4) show ?thesis by blast
qed

theorem query_answered_end_to_end_witness:
  "\<exists>resp m. u_os (peer_listeners (replying mail_os (\<lambda>_. example_query)) (Message example_bytes null_address) open_server)
      = [(resp, to_sockaddr letter_inet (from_sockaddr letter_inet (Sockaddr_in 0 [127, 0, 0, 1])))]
    \<and> c_calls (wire_up (\<lambda>_ _ w. w) (\<lambda>_ w. w) (Message resp null_address) one_question) = [(11, Some m)]
    \<and> h_id (m_header m) = 0x1234"
proof -
  have "os_inet mail_os = letter_inet" by (simp add: mail_os_def quiet_os_def)
  moreover have "u_os one_question = [(example_bytes, to_sockaddr (os_inet mail_os) (from_sockaddr letter_inet (Sockaddr_in 0 [127, 0, 0, 1])))]"
    using query_sent [OF mail_os_records open_client_fields(4) mail_os_resolves, of "0x1234" "''a.b''" 1 example_bytes one_question]
    by (simp add: one_question_def request_example serialize_example open_client_fields)
  ultimately show ?thesis
    using query_answered_end_to_end [OF mail_os_records mail_os_records open_client_ok _ _ open_client_fields(4)
        mail_os_resolves open_server_fields(1,2) mail_os_resolves _ _ one_question_def,
        where answer = "\<lambda>_. example_query" and src = null_address and src' = null_address and wire = example_bytes]
    by (auto simp: open_client_fields open_server_fields request_example serialize_example)
qed

end
